(* ===== verification/Prelude.thy ===== *)
theory Prelude
  imports Main "HOL-Library.Word"
begin

unbundle bit_operations_syntax

text \<open>
  Shared vocabulary of the development: the machine types of the C sources, the named
  collections the component proofs rewrite with, and generic facts on lists that more than one
  component uses.
\<close>

type_synonym byte = "8 word"
type_synonym size_t = "64 word"
type_synonym cint = "32 word"

text \<open>
  \<open>frame_simps\<close> collects the facts "this operation leaves that field alone";
  \<open>inv_intros\<close> the facts "this operation keeps that invariant".
\<close>

named_theorems frame_simps
named_theorems inv_intros

section \<open>C strings and byte blocks\<close>

text \<open>The bytes of an ASCII literal, and a NUL-terminated string read from a block.\<close>

definition bytes_of :: "string \<Rightarrow> byte list" where
  "bytes_of s = map (\<lambda>c. of_nat (of_char c :: nat)) s"

definition cstr :: "byte list \<Rightarrow> nat \<Rightarrow> byte list" where
  "cstr mem off = takeWhile (\<lambda>b. b \<noteq> 0) (drop off mem)"

lemma length_bytes_of [simp]: "length (bytes_of s) = length s"
  by (simp add: bytes_of_def)

lemma bytes_of_simps [simp]:
  "bytes_of [] = []"
  "bytes_of (c # s) = of_nat (of_char c :: nat) # bytes_of s"
  "bytes_of (s @ s') = bytes_of s @ bytes_of s'"
  by (simp_all add: bytes_of_def)

lemma cstr_no_nul: "0 \<notin> set (cstr mem off)"
  by (auto simp: cstr_def dest: set_takeWhileD)

text \<open>The decimal rendering that \<open>%d\<close> gives a non-negative and a signed value.\<close>

fun dec_nat :: "nat \<Rightarrow> string" where
  "dec_nat n = (if n < 10 then [char_of (48 + n)] else dec_nat (n div 10) @ [char_of (48 + n mod 10)])"

declare dec_nat.simps [simp del]

definition dec_int :: "int \<Rightarrow> string" where
  "dec_int i = (if i < 0 then CHR ''-'' # dec_nat (nat (- i)) else dec_nat (nat i))"

lemma dec_nat_nonempty: "dec_nat n \<noteq> []"
  by (subst dec_nat.simps) simp

lemma dec_nat_length_mono:
  assumes "n < 10 ^ Suc k"
  shows "length (dec_nat n) \<le> Suc k"
  using assms
proof (induction k arbitrary: n)
  case 0
  then show ?case by (subst dec_nat.simps) simp
next
  case (Suc k)
  show ?case
  proof (cases "n < 10")
    case True
    then show ?thesis by (subst dec_nat.simps) simp
  next
    case False
    have "n div 10 < 10 ^ Suc k"
      using Suc.prems by (simp add: less_mult_imp_div_less)
    then have "length (dec_nat (n div 10)) \<le> Suc k" by (rule Suc.IH)
    with False show ?thesis by (subst dec_nat.simps) simp
  qed
qed

section \<open>Nibbles of a byte\<close>

lemma nibble_take_bit: "(x :: byte) < 16 \<Longrightarrow> take_bit 4 x = x"
  by (simp add: word_eq_iff_unsigned [where 'a = nat] unsigned_take_bit_eq
        take_bit_nat_eq_self word_less_nat_alt)

lemma nibble_bit: "(x :: byte) < 16 \<Longrightarrow> bit x n \<Longrightarrow> n < 4"
  using nibble_take_bit [of x] bit_take_bit_iff [of 4 x n] by simp

lemma byte_15_mask: "(15 :: byte) = mask 4"
  by (simp add: mask_eq_exp_minus_1)

lemma and_15_take_bit: "(x :: byte) AND 15 = take_bit 4 x"
  by (simp add: byte_15_mask take_bit_eq_mask)

lemma drop_bit_and_240: "drop_bit 4 ((x :: byte) AND 240) = take_bit 4 (drop_bit 4 x)"
  by (simp add: drop_bit_and and_15_take_bit)

lemma take_bit_4_less: "take_bit 4 (x :: byte) < 16"
  by (simp add: word_less_nat_alt unsigned_take_bit_eq take_bit_nat_eq_self_iff take_bit_nat_less_exp [of 4 "unat x", simplified])

lemma nibble_low: "us < 16 \<Longrightarrow> take_bit 4 ((us :: byte) OR push_bit 4 him) = us"
  by (rule bit_word_eqI) (auto simp: bit_simps dest: nibble_bit)

lemma nibble_high:
  "us < 16 \<Longrightarrow> him < 16 \<Longrightarrow> take_bit 4 (drop_bit 4 ((us :: byte) OR push_bit 4 him)) = him"
  by (rule bit_word_eqI) (auto simp: bit_simps dest: nibble_bit)

section \<open>How a piece of a program ends\<close>

text \<open>
  How a piece of the program ends: it goes on, leaves the main loop, exits, or does what C leaves
  undefined (reading outside an array, a string without end, a null pointer).
\<close>

datatype 'a outcome = Go 'a | Leave 'a | Exit int 'a | Undefined

fun and_then :: "'a outcome \<Rightarrow> ('a \<Rightarrow> 'a outcome) \<Rightarrow> 'a outcome" where
  "and_then (Go s) f = f s"
| "and_then (Leave s) f = Leave s"
| "and_then (Exit n s) f = Exit n s"
| "and_then Undefined f = Undefined"

section \<open>Predicates along a computation\<close>

text \<open>A piece that goes on does so with \<open>P\<close>; it does not leave the loop.\<close>

fun goes :: "('a \<Rightarrow> bool) \<Rightarrow> 'a outcome \<Rightarrow> bool" where
  "goes P (Go s) = P s"
| "goes P (Leave s) = False"
| "goes P (Exit n s) = True"
| "goes P Undefined = True"

lemma goes_and_then: "goes P m \<Longrightarrow> (\<And>s. P s \<Longrightarrow> goes Q (f s)) \<Longrightarrow> goes Q (and_then m f)"
  by (cases m) auto

lemma goes_mono: "goes P m \<Longrightarrow> (\<And>s. P s \<Longrightarrow> Q s) \<Longrightarrow> goes Q m"
  by (cases m) auto

lemma goes_map: "goes (\<lambda>s. P (f s)) m \<Longrightarrow> goes P (map_outcome f m)"
  by (cases m) auto

lemma pred_option_bind:
  "pred_option P m \<Longrightarrow> (\<And>x. P x \<Longrightarrow> pred_option Q (g x)) \<Longrightarrow> pred_option Q (Option.bind m g)"
  by (cases m) auto

section \<open>Lists addressed by index\<close>

lemma take_Suc_nth: "i < length xs \<Longrightarrow> take (Suc i) xs = take i xs @ [xs ! i]"
  by (rule take_Suc_conv_app_nth)

lemma drop_take_snoc:
  assumes "s \<le> i" and "i < length xs"
  shows "drop s (take (Suc i) xs) = drop s (take i xs) @ [xs ! i]"
  using assms by (simp add: take_Suc_nth)

lemma drop_take_self [simp]: "drop i (take i xs) = []"
  by simp

lemma take_eq_prefix: "take n m = p @ q \<Longrightarrow> take (length p) m = p"
proof -
  assume a: "take n m = p @ q"
  then have "length p \<le> n" by (metis length_append length_take le_add1 min.cobounded2 le_trans)
  then show ?thesis using arg_cong [OF a, of "take (length p)"] by (simp add: min_def)
qed

end
