(* ===== verification/Telnet_Types.thy ===== *)
theory Telnet_Types
  imports Prelude
begin

text \<open>
  The data of libtelnet (\<^verbatim>\<open>libtelnet.h\<close> and the head of \<^verbatim>\<open>libtelnet.c\<close>): protocol constants, the
  events handed to the application's handler, the tracker \<^verbatim>\<open>telnet_t\<close>, and the two primitives
  every other routine uses to reach the handler, \<^verbatim>\<open>_error\<close> and \<^verbatim>\<open>_send\<close>.
  The build modelled is the one without \<^verbatim>\<open>HAVE_ZLIB\<close>.
\<close>

section \<open>Protocol constants\<close>

abbreviation "TELNET_IAC \<equiv> (255 :: byte)"
abbreviation "TELNET_DONT \<equiv> (254 :: byte)"
abbreviation "TELNET_DO \<equiv> (253 :: byte)"
abbreviation "TELNET_WONT \<equiv> (252 :: byte)"
abbreviation "TELNET_WILL \<equiv> (251 :: byte)"
abbreviation "TELNET_SB \<equiv> (250 :: byte)"
abbreviation "TELNET_SE \<equiv> (240 :: byte)"

abbreviation "TELNET_TELOPT_ECHO \<equiv> (1 :: byte)"
abbreviation "TELNET_TELOPT_TTYPE \<equiv> (24 :: byte)"
abbreviation "TELNET_TELOPT_ENVIRON \<equiv> (36 :: byte)"
abbreviation "TELNET_TELOPT_NEW_ENVIRON \<equiv> (39 :: byte)"
abbreviation "TELNET_TELOPT_MSSP \<equiv> (70 :: byte)"
abbreviation "TELNET_TELOPT_COMPRESS \<equiv> (85 :: byte)"
abbreviation "TELNET_TELOPT_COMPRESS2 \<equiv> (86 :: byte)"
abbreviation "TELNET_TELOPT_ZMP \<equiv> (93 :: byte)"

abbreviation "TELNET_TTYPE_IS \<equiv> (0 :: byte)"
abbreviation "TELNET_TTYPE_SEND \<equiv> (1 :: byte)"

abbreviation "TELNET_ENVIRON_IS \<equiv> (0 :: byte)"
abbreviation "TELNET_ENVIRON_SEND \<equiv> (1 :: byte)"
abbreviation "TELNET_ENVIRON_INFO \<equiv> (2 :: byte)"
abbreviation "TELNET_ENVIRON_VAR \<equiv> (0 :: byte)"
abbreviation "TELNET_ENVIRON_VALUE \<equiv> (1 :: byte)"
abbreviation "TELNET_ENVIRON_ESC \<equiv> (2 :: byte)"
abbreviation "TELNET_ENVIRON_USERVAR \<equiv> (3 :: byte)"

abbreviation "TELNET_MSSP_VAR \<equiv> (1 :: byte)"
abbreviation "TELNET_MSSP_VAL \<equiv> (2 :: byte)"

abbreviation "TELNET_FLAG_PROXY \<equiv> (1 :: byte)"

section \<open>Errors, events and the tracker\<close>

datatype telnet_error =
  TELNET_EOK | TELNET_EBADVAL | TELNET_ENOMEM | TELNET_EOVERFLOW | TELNET_EPROTOCOL | TELNET_ECOMPRESS

text \<open>One variable of an ENVIRON or MSSP event; a NULL pointer is \<open>None\<close>.\<close>

record telnet_environ =
  env_type :: byte
  env_var :: "byte list option"
  env_value :: "byte list option"

text \<open>
  An event as the handler receives it. A DATA event carries the bytes of the receive buffer it
  points at and, apart, its \<^verbatim>\<open>size\<close> field as the \<^verbatim>\<open>size_t\<close> the code computes: the two agree unless
  that subtraction wraps. WARNING and ERROR carry the reporting function and the formatted text.
\<close>

datatype telnet_event =
    EV_DATA "byte list" size_t
  | EV_SEND "byte list"
  | EV_IAC byte
  | EV_WILL byte
  | EV_WONT byte
  | EV_DO byte
  | EV_DONT byte
  | EV_SUBNEGOTIATION byte "byte list"
  | EV_ZMP "byte list list"
  | EV_TTYPE byte "byte list option"
  | EV_ENVIRON byte "telnet_environ list"
  | EV_MSSP "telnet_environ list"
  | EV_WARNING string string
  | EV_ERROR string string

datatype telnet_state =
    STATE_DATA | STATE_IAC | STATE_WILL | STATE_WONT | STATE_DO | STATE_DONT
  | STATE_SB | STATE_SB_DATA | STATE_SB_DATA_IAC

record telnet_telopt =
  to_telopt :: int
  to_us :: byte
  to_him :: byte

record telnet_rfc1143 =
  q_telopt :: byte
  q_state :: byte

text \<open>
  The tracker. \<open>tn_events\<close> is the sequence of events already passed to the handler, oldest first.
  \<open>tn_allocs\<close> lists the outcomes of the coming \<^verbatim>\<open>malloc\<close>, \<^verbatim>\<open>calloc\<close> and \<^verbatim>\<open>realloc\<close> calls (when it is
  used up, allocation succeeds) and \<open>tn_strerror\<close> is what \<^verbatim>\<open>strerror(errno)\<close> gives after a failure.
\<close>

record telnet =
  tn_telopts :: "telnet_telopt list option"
  tn_q :: "telnet_rfc1143 list"
  tn_q_size :: byte
  tn_buffer :: "byte list"
  tn_buffer_size :: nat
  tn_buffer_pos :: nat
  tn_state :: telnet_state
  tn_flags :: byte
  tn_sb_telopt :: byte
  tn_events :: "telnet_event list"
  tn_allocs :: "bool list"
  tn_strerror :: string

definition telnet_init :: "telnet_telopt list option \<Rightarrow> byte \<Rightarrow> bool list \<Rightarrow> string \<Rightarrow> telnet option" where
  "telnet_init telopts flags allocs serr =
     (case allocs of
        False # _ \<Rightarrow> None
      | _ \<Rightarrow> Some \<lparr> tn_telopts = telopts, tn_q = [], tn_q_size = 0, tn_buffer = [],
               tn_buffer_size = 0, tn_buffer_pos = 0, tn_state = STATE_DATA, tn_flags = flags,
               tn_sb_telopt = 0, tn_events = [], tn_allocs = tl allocs, tn_strerror = serr \<rparr>)"

text \<open>The tracker of a client with no option table, for concrete runs.\<close>

definition fresh :: telnet where
  "fresh = the (telnet_init None 0 [] '''')"

section \<open>Reaching the handler\<close>

definition emit :: "telnet_event \<Rightarrow> telnet \<Rightarrow> telnet" where
  "emit ev t = t\<lparr>tn_events := tn_events t @ [ev]\<rparr>"

text \<open>One call of the allocator: whether it succeeds, and the tracker with that outcome used up.\<close>

definition alloc :: "telnet \<Rightarrow> bool \<times> telnet" where
  "alloc t = (case tn_allocs t of [] \<Rightarrow> (True, t) | b # bs \<Rightarrow> (b, t\<lparr>tn_allocs := bs\<rparr>))"

text \<open>\<^verbatim>\<open>_error\<close>: the text is cut to the 511 characters its local buffer holds.\<close>

definition t_error :: "string \<Rightarrow> telnet_error \<Rightarrow> bool \<Rightarrow> string \<Rightarrow> telnet \<Rightarrow> telnet_error \<times> telnet" where
  "t_error func err fatal msg t =
     (err, emit (if fatal then EV_ERROR func (take 511 msg) else EV_WARNING func (take 511 msg)) t)"

definition t_send :: "byte list \<Rightarrow> telnet \<Rightarrow> telnet" where
  "t_send bs t = emit (EV_SEND bs) t"

lemma emit_frame [simp]:
  "tn_telopts (emit ev t) = tn_telopts t" "tn_q (emit ev t) = tn_q t"
  "tn_q_size (emit ev t) = tn_q_size t" "tn_buffer (emit ev t) = tn_buffer t"
  "tn_buffer_size (emit ev t) = tn_buffer_size t" "tn_buffer_pos (emit ev t) = tn_buffer_pos t"
  "tn_state (emit ev t) = tn_state t" "tn_flags (emit ev t) = tn_flags t"
  "tn_sb_telopt (emit ev t) = tn_sb_telopt t" "tn_events (emit ev t) = tn_events t @ [ev]"
  "tn_allocs (emit ev t) = tn_allocs t" "tn_strerror (emit ev t) = tn_strerror t"
  by (simp_all add: emit_def)

lemma alloc_frame [simp]:
  "tn_telopts (snd (alloc t)) = tn_telopts t" "tn_q (snd (alloc t)) = tn_q t"
  "tn_q_size (snd (alloc t)) = tn_q_size t" "tn_buffer (snd (alloc t)) = tn_buffer t"
  "tn_buffer_size (snd (alloc t)) = tn_buffer_size t" "tn_buffer_pos (snd (alloc t)) = tn_buffer_pos t"
  "tn_state (snd (alloc t)) = tn_state t" "tn_flags (snd (alloc t)) = tn_flags t"
  "tn_sb_telopt (snd (alloc t)) = tn_sb_telopt t" "tn_events (snd (alloc t)) = tn_events t"
  "tn_strerror (snd (alloc t)) = tn_strerror t"
  by (simp_all add: alloc_def split: list.splits)

lemma alloc_eqD:
  assumes "alloc t = (ok, t1)"
  shows "tn_telopts t1 = tn_telopts t" "tn_q t1 = tn_q t" "tn_q_size t1 = tn_q_size t"
    "tn_buffer t1 = tn_buffer t" "tn_buffer_size t1 = tn_buffer_size t"
    "tn_buffer_pos t1 = tn_buffer_pos t" "tn_state t1 = tn_state t" "tn_flags t1 = tn_flags t"
    "tn_sb_telopt t1 = tn_sb_telopt t" "tn_events t1 = tn_events t" "tn_strerror t1 = tn_strerror t"
  using alloc_frame [of t] assms by simp_all

lemma alloc_Nil [simp]: "tn_allocs t = [] \<Longrightarrow> alloc t = (True, t)"
  by (simp add: alloc_def)

lemma fresh_fields [simp]:
  "tn_state fresh = STATE_DATA" "tn_events fresh = []" "tn_allocs fresh = []" "tn_q fresh = []"
  "tn_q_size fresh = 0" "tn_buffer fresh = []" "tn_buffer_size fresh = 0" "tn_buffer_pos fresh = 0"
  "tn_flags fresh = 0" "tn_telopts fresh = None" "tn_sb_telopt fresh = 0"
  by (simp_all add: fresh_def telnet_init_def)

end
