(* ===== verification/Telnet_Options.thy ===== *)
theory Telnet_Options
  imports Telnet_Types
begin

text \<open>
  The two tables libtelnet consults while negotiating: the application's support table
  (\<^verbatim>\<open>_check_telopt\<close>) and the growing array of RFC 1143 states (\<^verbatim>\<open>_get_rfc1143\<close>, \<^verbatim>\<open>_set_rfc1143\<close>).
  The locale \<open>option_table\<close> states what the negotiation code relies on; the array provides it as
  long as its 8-bit length does not wrap.
\<close>

section \<open>The support table\<close>

text \<open>The scan stops at the end marker (telopt -1); a table is its entries up to that marker.\<close>

fun telopts_scan :: "telnet_telopt list \<Rightarrow> byte \<Rightarrow> bool \<Rightarrow> bool" where
  "telopts_scan [] telopt us = False"
| "telopts_scan (e # es) telopt us =
     (if to_telopt e = -1 then False
      else if to_telopt e = uint telopt then
        (if us \<and> to_us e = TELNET_WILL then True
         else if \<not> us \<and> to_him e = TELNET_DO then True
         else False)
      else telopts_scan es telopt us)"

definition t_check_telopt :: "telnet \<Rightarrow> byte \<Rightarrow> bool \<Rightarrow> bool" where
  "t_check_telopt t telopt us =
     (case tn_telopts t of None \<Rightarrow> False | Some tbl \<Rightarrow> telopts_scan tbl telopt us)"

section \<open>The RFC 1143 state array\<close>

abbreviation "Q_NO \<equiv> (0 :: byte)"
abbreviation "Q_YES \<equiv> (1 :: byte)"
abbreviation "Q_WANTNO \<equiv> (2 :: byte)"
abbreviation "Q_WANTYES \<equiv> (3 :: byte)"
abbreviation "Q_WANTNO_OP \<equiv> (4 :: byte)"
abbreviation "Q_WANTYES_OP \<equiv> (5 :: byte)"

definition Q_US :: "telnet_rfc1143 \<Rightarrow> byte" where
  "Q_US q = q_state q AND 0x0F"

definition Q_HIM :: "telnet_rfc1143 \<Rightarrow> byte" where
  "Q_HIM q = drop_bit 4 (q_state q AND 0xF0)"

definition Q_MAKE :: "byte \<Rightarrow> byte \<Rightarrow> byte" where
  "Q_MAKE us him = us OR push_bit 4 him"

text \<open>The search loop of both routines, over the \<^verbatim>\<open>q_size\<close> entries in use.\<close>

fun q_scan :: "telnet_rfc1143 list \<Rightarrow> nat \<Rightarrow> byte \<Rightarrow> nat option" where
  "q_scan [] i telopt = None"
| "q_scan (e # es) i telopt = (if q_telopt e = telopt then Some i else q_scan es (Suc i) telopt)"

definition q_used :: "telnet \<Rightarrow> telnet_rfc1143 list" where
  "q_used t = take (unat (tn_q_size t)) (tn_q t)"

definition t_get_rfc1143 :: "telnet \<Rightarrow> byte \<Rightarrow> telnet_rfc1143" where
  "t_get_rfc1143 t telopt =
     (case q_scan (q_used t) 0 telopt of
        Some i \<Rightarrow> tn_q t ! i
      | None \<Rightarrow> \<lparr>q_telopt = telopt, q_state = 0\<rparr>)"

definition t_set_rfc1143 :: "byte \<Rightarrow> byte \<Rightarrow> byte \<Rightarrow> telnet \<Rightarrow> telnet" where
  "t_set_rfc1143 telopt us him t =
     (case q_scan (q_used t) 0 telopt of
        Some i \<Rightarrow> t\<lparr>tn_q := (tn_q t)[i := (tn_q t ! i)\<lparr>q_state := Q_MAKE us him\<rparr>]\<rparr>
      | None \<Rightarrow>
          (let (ok, t1) = alloc t in
           if \<not> ok then
             snd (t_error ''_set_rfc1143'' TELNET_ENOMEM False
                    (''realloc() failed: '' @ tn_strerror t1) t1)
           else
             t1\<lparr>tn_q := q_used t1 @ \<lparr>q_telopt = telopt, q_state = Q_MAKE us him\<rparr>
                          # replicate 3 \<lparr>q_telopt = 0, q_state = 0\<rparr>,
                tn_q_size := tn_q_size t1 + 4\<rparr>))"

section \<open>Facts on the searches\<close>

lemma q_scan_None: "q_scan es i telopt = None \<longleftrightarrow> (\<forall>e \<in> set es. q_telopt e \<noteq> telopt)"
  by (induction es i telopt rule: q_scan.induct) auto

lemma q_scan_Some:
  "q_scan es i telopt = Some j \<Longrightarrow>
     i \<le> j \<and> j < i + length es \<and> q_telopt (es ! (j - i)) = telopt \<and>
     (\<forall>k < j - i. q_telopt (es ! k) \<noteq> telopt)"
proof (induction es i telopt rule: q_scan.induct)
  case (2 e es i telopt)
  show ?case
  proof (cases "q_telopt e = telopt")
    case True
    with 2 show ?thesis by auto
  next
    case False
    with 2 have h: "Suc i \<le> j" "j < Suc i + length es" "q_telopt (es ! (j - Suc i)) = telopt"
      "\<forall>k < j - Suc i. q_telopt (es ! k) \<noteq> telopt" by auto
    then have "j - i = Suc (j - Suc i)" by simp
    with h False show ?thesis by (auto simp: nth_Cons split: nat.splits)
  qed
qed simp

lemma q_scan_append:
  "q_scan (es @ fs) i telopt =
     (case q_scan es i telopt of Some j \<Rightarrow> Some j | None \<Rightarrow> q_scan fs (i + length es) telopt)"
  by (induction es i telopt rule: q_scan.induct) (auto split: option.splits)

lemma q_scan_cong: "map q_telopt es = map q_telopt fs \<Longrightarrow> q_scan es i telopt = q_scan fs i telopt"
proof (induction es arbitrary: fs i)
  case (Cons e es)
  then show ?case by (cases fs) auto
qed simp

text \<open>Packing two 4-bit states into one byte and reading them back.\<close>

lemma Q_US_MAKE [simp]: "us < 16 \<Longrightarrow> Q_US (q\<lparr>q_state := Q_MAKE us him\<rparr>) = us"
  unfolding Q_US_def Q_MAKE_def and_15_take_bit by (simp add: nibble_low del: take_bit_or)

lemma Q_HIM_MAKE [simp]:
  "us < 16 \<Longrightarrow> him < 16 \<Longrightarrow> Q_HIM (q\<lparr>q_state := Q_MAKE us him\<rparr>) = him"
  unfolding Q_HIM_def Q_MAKE_def drop_bit_and_240
  by (simp add: nibble_high del: drop_bit_or take_bit_or)

lemma Q_nibbles: "Q_US q < 16" "Q_HIM q < 16"
  by (simp_all add: Q_US_def Q_HIM_def and_15_take_bit drop_bit_and_240 take_bit_4_less)

section \<open>What negotiation relies on: an option table\<close>

text \<open>
  The two states (ours, his) of every option, read with \<open>get\<close> and written with \<open>put\<close>. \<open>room\<close> says
  when a write is possible; a write leaves every other option alone.
\<close>

locale option_table =
  fixes get :: "'t \<Rightarrow> byte \<Rightarrow> byte \<times> byte"
    and put :: "byte \<Rightarrow> byte \<Rightarrow> byte \<Rightarrow> 't \<Rightarrow> 't"
    and room :: "byte \<Rightarrow> 't \<Rightarrow> bool"
  assumes get_put_same: "room opt t \<Longrightarrow> us < 16 \<Longrightarrow> him < 16 \<Longrightarrow> get (put opt us him t) opt = (us, him)"
    and get_put_other: "room opt t \<Longrightarrow> us < 16 \<Longrightarrow> him < 16 \<Longrightarrow> p \<noteq> opt \<Longrightarrow> get (put opt us him t) p = get t p"
    and room_put: "room opt t \<Longrightarrow> room opt (put opt us him t)"
begin

lemma get_put: "room opt t \<Longrightarrow> us < 16 \<Longrightarrow> him < 16 \<Longrightarrow>
  get (put opt us him t) = (get t)(opt := (us, him))"
  by (rule ext) (simp add: get_put_same get_put_other)

lemma get_put_put: "room opt t \<Longrightarrow> us < 16 \<Longrightarrow> him < 16 \<Longrightarrow> us' < 16 \<Longrightarrow> him' < 16 \<Longrightarrow>
  get (put opt us' him' (put opt us him t)) = get (put opt us' him' t)"
  by (simp add: get_put room_put)

end

definition q_get :: "telnet \<Rightarrow> byte \<Rightarrow> byte \<times> byte" where
  "q_get t opt = (Q_US (t_get_rfc1143 t opt), Q_HIM (t_get_rfc1143 t opt))"

definition q_tracked :: "byte \<Rightarrow> telnet \<Rightarrow> bool" where
  "q_tracked opt t = list_ex (\<lambda>e. q_telopt e = opt) (q_used t)"

definition q_ok :: "telnet \<Rightarrow> bool" where
  "q_ok t = (unat (tn_q_size t) \<le> length (tn_q t) \<and> 4 dvd unat (tn_q_size t))"

definition q_room :: "byte \<Rightarrow> telnet \<Rightarrow> bool" where
  "q_room opt t = (q_ok t \<and> (q_tracked opt t \<or> fst (alloc t) \<and> unat (tn_q_size t) < 252))"

lemma q_get_cong: "tn_q t = tn_q t' \<Longrightarrow> tn_q_size t = tn_q_size t' \<Longrightarrow> q_get t = q_get t'"
  by (rule ext) (simp add: q_get_def t_get_rfc1143_def q_used_def split: option.split)

lemma q_scan_tracked: "q_scan (q_used t) 0 opt = None \<longleftrightarrow> \<not> q_tracked opt t"
  by (auto simp: q_tracked_def q_scan_None list_ex_iff)

lemma Q_empty [simp]:
  "Q_US \<lparr>q_telopt = x, q_state = 0\<rparr> = 0" "Q_HIM \<lparr>q_telopt = x, q_state = 0\<rparr> = 0"
  by (simp_all add: Q_US_def Q_HIM_def)

text \<open>A write to a tracked option updates its entry in place.\<close>

lemma set_tracked:
  assumes "q_ok t" and "q_scan (q_used t) 0 opt = Some i"
  shows "i < length (q_used t)" "q_telopt (tn_q t ! i) = opt"
    "q_used (t_set_rfc1143 opt us him t) =
       (q_used t)[i := (tn_q t ! i)\<lparr>q_state := Q_MAKE us him\<rparr>]"
    "tn_q_size (t_set_rfc1143 opt us him t) = tn_q_size t"
    "length (tn_q (t_set_rfc1143 opt us him t)) = length (tn_q t)"
proof -
  show i: "i < length (q_used t)" using q_scan_Some [OF assms(2)] by simp
  then show "q_telopt (tn_q t ! i) = opt"
    using q_scan_Some [OF assms(2)] by (simp add: q_used_def)
  show "q_used (t_set_rfc1143 opt us him t) =
       (q_used t)[i := (tn_q t ! i)\<lparr>q_state := Q_MAKE us him\<rparr>]"
    using assms by (simp add: t_set_rfc1143_def q_used_def take_update_swap)
qed (use assms in \<open>simp_all add: t_set_rfc1143_def\<close>)

text \<open>A write to a new option appends one entry and three empty ones.\<close>

lemma set_new:
  assumes "q_ok t" and "\<not> q_tracked opt t" and "fst (alloc t)" and "unat (tn_q_size t) < 252"
  shows "q_used (t_set_rfc1143 opt us him t) =
      q_used t @ \<lparr>q_telopt = opt, q_state = Q_MAKE us him\<rparr> # replicate 3 \<lparr>q_telopt = 0, q_state = 0\<rparr>"
    "unat (tn_q_size (t_set_rfc1143 opt us him t)) = unat (tn_q_size t) + 4"
    "q_ok (t_set_rfc1143 opt us him t)"
proof -
  have none: "q_scan (q_used t) 0 opt = None" using assms(2) by (simp add: q_scan_tracked)
  obtain t1 where t1: "alloc t = (True, t1)" using assms(3) by (cases "alloc t") auto
  have fr: "tn_q t1 = tn_q t" "tn_q_size t1 = tn_q_size t" "q_used t1 = q_used t"
    using alloc_frame(2,3) [of t] t1 by (simp_all add: q_used_def)
  show sz: "unat (tn_q_size (t_set_rfc1143 opt us him t)) = unat (tn_q_size t) + 4"
    using assms(4) none t1 fr by (simp add: t_set_rfc1143_def unat_word_ariths)
  have len: "length (q_used t) = unat (tn_q_size t)"
    using assms(1) by (simp add: q_used_def q_ok_def)
  show "q_used (t_set_rfc1143 opt us him t) =
      q_used t @ \<lparr>q_telopt = opt, q_state = Q_MAKE us him\<rparr> # replicate 3 \<lparr>q_telopt = 0, q_state = 0\<rparr>"
    unfolding q_used_def [of "t_set_rfc1143 opt us him t"] sz
    using none t1 fr len by (simp add: t_set_rfc1143_def numeral_3_eq_3)
  show "q_ok (t_set_rfc1143 opt us him t)"
    using assms(1) len none t1 fr sz
    by (simp add: q_ok_def) (simp add: t_set_rfc1143_def q_ok_def)
qed

lemma q_get_used:
  assumes "q_ok t"
  shows "q_get t p = (case q_scan (q_used t) 0 p of
     Some i \<Rightarrow> (Q_US (q_used t ! i), Q_HIM (q_used t ! i)) | None \<Rightarrow> (0, 0))"
  using assms q_scan_Some [of "q_used t" 0 p]
  by (auto simp: q_get_def t_get_rfc1143_def q_used_def split: option.splits)

lemma q_scan_update_state:
  "q_scan (es[i := (es ! i)\<lparr>q_state := s\<rparr>]) j p = q_scan es j p"
proof (rule q_scan_cong)
  show "map q_telopt (es[i := (es ! i)\<lparr>q_state := s\<rparr>]) = map q_telopt es"
    by (cases "i < length es") (simp_all add: map_update list_update_same_conv list_update_beyond)
qed

lemma q_ok_set_tracked: "q_ok t \<Longrightarrow> q_tracked opt t \<Longrightarrow> q_ok (t_set_rfc1143 opt us him t)"
  using set_tracked(4,5) [of t opt] q_scan_tracked [of t opt]
  by (auto simp: q_ok_def)

lemma q_get_set:
  assumes "q_room opt t" and "us < 16" and "him < 16"
  shows "q_get (t_set_rfc1143 opt us him t) = (q_get t)(opt := (us, him))"
proof (rule ext)
  fix p
  have ok: "q_ok t" using assms(1) by (simp add: q_room_def)
  show "q_get (t_set_rfc1143 opt us him t) p = ((q_get t)(opt := (us, him))) p"
  proof (cases "q_scan (q_used t) 0 opt")
    case (Some i)
    note st = set_tracked [OF ok Some]
    have tr: "q_tracked opt t" using Some q_scan_tracked [of t opt] by auto
    note g' = q_get_used [OF q_ok_set_tracked [OF ok tr]]
    have qi: "tn_q t ! i = q_used t ! i" using st(1) by (simp add: q_used_def)
    show ?thesis
    proof (cases "p = opt")
      case True
      then show ?thesis
        using assms(2,3) Some st(1) by (simp add: g' st(3) qi q_scan_update_state)
    next
      case False
      have "i \<noteq> j" if "q_scan (q_used t) 0 p = Some j" for j
        using q_scan_Some [OF that] st(2) qi False by auto
      then show ?thesis
        using False by (auto simp: g' st(3) qi q_scan_update_state q_get_used [OF ok]
            split: option.splits)
    qed
  next
    case None
    then have ntr: "\<not> q_tracked opt t" using q_scan_tracked [of t opt] by simp
    with assms(1) have "fst (alloc t)" "unat (tn_q_size t) < 252" by (auto simp: q_room_def)
    note sn = set_new [OF ok ntr this]
    have e: "\<lparr>q_telopt = opt, q_state = Q_MAKE us him\<rparr> =
        \<lparr>q_telopt = opt, q_state = 0\<rparr>\<lparr>q_state := Q_MAKE us him\<rparr>" by simp
    show ?thesis
    proof (cases "p = opt")
      case True
      then show ?thesis using assms(2,3) None
        by (simp add: q_get_used [OF sn(3)] sn(1) q_scan_append e del: telnet_rfc1143.update_convs)
    next
      case False
      show ?thesis
        using False q_scan_Some [of "q_used t" 0 p]
        by (auto simp: q_get_used [OF sn(3)] q_get_used [OF ok] sn(1) q_scan_append nth_append
            numeral_3_eq_3 split: option.splits)
    qed
  qed
qed

lemma q_room_set: "q_room opt t \<Longrightarrow> q_room opt (t_set_rfc1143 opt us him t)"
proof -
  assume r: "q_room opt t"
  then have ok: "q_ok t" by (simp add: q_room_def)
  show ?thesis
  proof (cases "q_tracked opt t")
    case True
    then obtain i where i: "q_scan (q_used t) 0 opt = Some i"
      using q_scan_tracked [of t opt] by auto
    have "q_tracked opt (t_set_rfc1143 opt us him t)"
      using q_scan_update_state [of "q_used t" i "Q_MAKE us him" 0 opt] i set_tracked(1,3) [OF ok i]
        q_scan_tracked [of "t_set_rfc1143 opt us him t" opt]
      by (auto simp: q_used_def)
    then show ?thesis using q_ok_set_tracked [OF ok True] by (simp add: q_room_def)
  next
    case False
    with r have "fst (alloc t)" "unat (tn_q_size t) < 252" by (auto simp: q_room_def)
    from set_new [OF ok False this] show ?thesis by (simp add: q_room_def q_tracked_def)
  qed
qed

interpretation rfc1143_table: option_table q_get t_set_rfc1143 q_room
  by unfold_locales (simp_all add: q_get_set q_room_set)

section \<open>The array's 8-bit length\<close>

lemma q_size_wraps:
  assumes "\<not> q_tracked opt t" and "fst (alloc t)" and "tn_q_size t = 252"
  shows "tn_q_size (t_set_rfc1143 opt us him t) = 0"
proof -
  obtain t1 where t1: "alloc t = (True, t1)" using assms(2) by (cases "alloc t") auto
  have "tn_q_size t1 = 252" using alloc_frame(3) [of t] t1 assms(3) by simp
  then show ?thesis
    using assms(1) t1 by (simp add: t_set_rfc1143_def q_scan_tracked [THEN iffD2])
qed

lemma q_get_empty: "tn_q_size t = 0 \<Longrightarrow> q_get t p = (Q_NO, Q_NO)"
  by (simp add: q_get_def t_get_rfc1143_def q_used_def)

text \<open>Recording a list of options, each in the state (WANTYES, NO) that \<^verbatim>\<open>telnet_negotiate\<close> gives.\<close>

definition q_record :: "byte list \<Rightarrow> telnet \<Rightarrow> telnet" where
  "q_record opts t = fold (\<lambda>opt. t_set_rfc1143 opt Q_WANTYES Q_NO) opts t"

lemma set_new_allocs:
  assumes "\<not> q_tracked opt t" and "tn_allocs t = []"
  shows "tn_allocs (t_set_rfc1143 opt us him t) = []"
  using assms by (simp add: t_set_rfc1143_def q_scan_tracked [THEN iffD2])

lemma q_record_size:
  assumes "distinct opts" and "0 \<notin> set opts" and "q_ok t" and "tn_allocs t = []"
    and "\<forall>opt \<in> set opts. \<not> q_tracked opt t"
    and "unat (tn_q_size t) + 4 * length opts \<le> 252"
  shows "unat (tn_q_size (q_record opts t)) = unat (tn_q_size t) + 4 * length opts \<and>
    tn_allocs (q_record opts t) = [] \<and>
    (\<forall>p. p \<noteq> 0 \<longrightarrow> q_tracked p (q_record opts t) \<longrightarrow> p \<in> set opts \<or> q_tracked p t)"
  using assms
proof (induction opts arbitrary: t)
  case Nil
  then show ?case by (simp add: q_record_def)
next
  case (Cons opt opts)
  let ?t = "t_set_rfc1143 opt Q_WANTYES Q_NO t"
  have ntr: "\<not> q_tracked opt t" and al: "fst (alloc t)" and sz: "unat (tn_q_size t) < 252"
    using Cons.prems by simp_all
  note sn = set_new [OF Cons.prems(3) ntr al sz, of Q_WANTYES Q_NO]
  have tr: "q_tracked p ?t \<longleftrightarrow> p = opt \<or> p = 0 \<or> q_tracked p t" for p
    by (auto simp: q_tracked_def sn(1) numeral_3_eq_3)
  have "unat (tn_q_size (q_record opts ?t)) = unat (tn_q_size ?t) + 4 * length opts \<and>
    tn_allocs (q_record opts ?t) = [] \<and>
    (\<forall>p. p \<noteq> 0 \<longrightarrow> q_tracked p (q_record opts ?t) \<longrightarrow> p \<in> set opts \<or> q_tracked p ?t)"
  proof (rule Cons.IH)
    show "\<forall>p \<in> set opts. \<not> q_tracked p ?t" using Cons.prems(1,2,5) tr by auto
  qed (use Cons.prems sn set_new_allocs [OF ntr Cons.prems(4)] in auto)
  then show ?case using sn(2) tr by (auto simp: q_record_def)
qed

lemma q_record_forgets:
  assumes "distinct opts" and "0 \<notin> set opts" and "length opts = 64"
    and "tn_q_size t = 0" and "tn_allocs t = []"
  shows "q_get (q_record opts t) p = (Q_NO, Q_NO)"
proof -
  obtain xs x where opts: "opts = xs @ [x]" using assms(3) by (cases opts rule: rev_cases) auto
  have len: "length xs = 63" using assms(3) opts by simp
  have emp: "\<not> q_tracked p t" for p using assms(4) by (simp add: q_tracked_def q_used_def)
  have h: "unat (tn_q_size (q_record xs t)) = 252" "tn_allocs (q_record xs t) = []"
    "\<not> q_tracked x (q_record xs t)"
    using q_record_size [of xs t] assms opts emp len by (auto simp: q_ok_def)
  then have "tn_q_size (q_record xs t) = 252" by (simp add: word_unat_eq_iff)
  then have "tn_q_size (q_record opts t) = 0"
    using q_size_wraps [of x "q_record xs t"] h by (simp add: q_record_def opts)
  then show ?thesis by (rule q_get_empty)
qed

end
