(* ===== verification/Telnet_Negotiation.thy ===== *)
theory Telnet_Negotiation
  imports Telnet_Options
begin

text \<open>
  Option negotiation: the receiving side \<^verbatim>\<open>_negotiate\<close> (one definition per switch case) and the
  application's request \<^verbatim>\<open>telnet_negotiate\<close>, with the state machine of RFC 1143 as their abstract
  specification.
\<close>

section \<open>The code\<close>

definition t_send_negotiate :: "byte \<Rightarrow> byte \<Rightarrow> telnet \<Rightarrow> telnet" where
  "t_send_negotiate cmd telopt t = t_send [TELNET_IAC, cmd, telopt] t"

definition t_proxy :: "telnet \<Rightarrow> bool" where
  "t_proxy t \<longleftrightarrow> tn_flags t AND TELNET_FLAG_PROXY \<noteq> 0"

definition t_proxy_negotiate :: "byte \<Rightarrow> telnet \<Rightarrow> telnet" where
  "t_proxy_negotiate telopt t =
     (case tn_state t of
        STATE_WILL \<Rightarrow> emit (EV_WILL telopt) t
      | STATE_WONT \<Rightarrow> emit (EV_WONT telopt) t
      | STATE_DO \<Rightarrow> emit (EV_DO telopt) t
      | STATE_DONT \<Rightarrow> emit (EV_DONT telopt) t
      | _ \<Rightarrow> t)"

definition t_protocol_warning :: "string \<Rightarrow> telnet \<Rightarrow> telnet" where
  "t_protocol_warning msg t = snd (t_error ''_negotiate'' TELNET_EPROTOCOL False msg t)"

definition negotiate_will :: "byte \<Rightarrow> telnet_rfc1143 \<Rightarrow> telnet \<Rightarrow> telnet" where
  "negotiate_will telopt q t =
     (if Q_HIM q = Q_NO then
        (if t_check_telopt t telopt False then
           (let t1 = t_set_rfc1143 telopt (Q_US q) Q_YES t;
                t2 = t_send_negotiate TELNET_DO telopt t1
            in emit (EV_WILL telopt) t2)
         else t_send_negotiate TELNET_DONT telopt t)
      else if Q_HIM q = Q_WANTNO then
        (let t1 = t_set_rfc1143 telopt (Q_US q) Q_NO t;
             t2 = emit (EV_WONT telopt) t1
         in t_protocol_warning ''DONT answered by WILL'' t2)
      else if Q_HIM q = Q_WANTNO_OP then
        (let t1 = t_set_rfc1143 telopt (Q_US q) Q_YES t;
             t2 = emit (EV_WILL telopt) t1
         in t_protocol_warning ''DONT answered by WILL'' t2)
      else if Q_HIM q = Q_WANTYES then
        emit (EV_WILL telopt) (t_set_rfc1143 telopt (Q_US q) Q_YES t)
      else if Q_HIM q = Q_WANTYES_OP then
        (let t1 = t_set_rfc1143 telopt (Q_US q) Q_WANTNO t;
             t2 = t_send_negotiate TELNET_DONT telopt t1
         in emit (EV_WILL telopt) t2)
      else t)"

definition negotiate_wont :: "byte \<Rightarrow> telnet_rfc1143 \<Rightarrow> telnet \<Rightarrow> telnet" where
  "negotiate_wont telopt q t =
     (if Q_HIM q = Q_YES then
        (let t1 = t_set_rfc1143 telopt (Q_US q) Q_NO t;
             t2 = t_send_negotiate TELNET_DONT telopt t1
         in emit (EV_WONT telopt) t2)
      else if Q_HIM q = Q_WANTNO then
        emit (EV_WONT telopt) (t_set_rfc1143 telopt (Q_US q) Q_NO t)
      else if Q_HIM q = Q_WANTNO_OP then
        emit (EV_DO telopt) (t_set_rfc1143 telopt (Q_US q) Q_WANTYES t)
      else if Q_HIM q = Q_WANTYES \<or> Q_HIM q = Q_WANTYES_OP then
        t_set_rfc1143 telopt (Q_US q) Q_NO t
      else t)"

definition negotiate_do :: "byte \<Rightarrow> telnet_rfc1143 \<Rightarrow> telnet \<Rightarrow> telnet" where
  "negotiate_do telopt q t =
     (if Q_US q = Q_NO then
        (if t_check_telopt t telopt True then
           (let t1 = t_set_rfc1143 telopt Q_YES (Q_HIM q) t;
                t2 = t_send_negotiate TELNET_WILL telopt t1
            in emit (EV_DO telopt) t2)
         else t_send_negotiate TELNET_WONT telopt t)
      else if Q_US q = Q_WANTNO then
        (let t1 = t_set_rfc1143 telopt Q_NO (Q_HIM q) t;
             t2 = emit (EV_DONT telopt) t1
         in t_protocol_warning ''WONT answered by DO'' t2)
      else if Q_US q = Q_WANTNO_OP then
        (let t1 = t_set_rfc1143 telopt Q_YES (Q_HIM q) t;
             t2 = emit (EV_DO telopt) t1
         in t_protocol_warning ''WONT answered by DO'' t2)
      else if Q_US q = Q_WANTYES then
        emit (EV_DO telopt) (t_set_rfc1143 telopt Q_YES (Q_HIM q) t)
      else if Q_US q = Q_WANTYES_OP then
        (let t1 = t_set_rfc1143 telopt Q_WANTNO (Q_HIM q) t;
             t2 = t_send_negotiate TELNET_WONT telopt t1
         in emit (EV_DO telopt) t2)
      else t)"

definition negotiate_dont :: "byte \<Rightarrow> telnet_rfc1143 \<Rightarrow> telnet \<Rightarrow> telnet" where
  "negotiate_dont telopt q t =
     (if Q_US q = Q_YES then
        (let t1 = t_set_rfc1143 telopt Q_NO (Q_HIM q) t;
             t2 = t_send_negotiate TELNET_WONT telopt t1
         in emit (EV_DONT telopt) t2)
      else if Q_US q = Q_WANTNO then
        emit (EV_WONT telopt) (t_set_rfc1143 telopt Q_NO (Q_HIM q) t)
      else if Q_US q = Q_WANTNO_OP then
        (let t1 = t_set_rfc1143 telopt Q_WANTYES (Q_HIM q) t;
             t2 = t_send_negotiate TELNET_WILL telopt t1
         in emit (EV_WILL telopt) t2)
      else if Q_US q = Q_WANTYES \<or> Q_US q = Q_WANTYES_OP then
        t_set_rfc1143 telopt Q_NO (Q_HIM q) t
      else t)"

definition t_negotiate :: "byte \<Rightarrow> telnet \<Rightarrow> telnet" where
  "t_negotiate telopt t =
     (if t_proxy t then t_proxy_negotiate telopt t
      else
        (let q = t_get_rfc1143 t telopt in
         case tn_state t of
           STATE_WILL \<Rightarrow> negotiate_will telopt q t
         | STATE_WONT \<Rightarrow> negotiate_wont telopt q t
         | STATE_DO \<Rightarrow> negotiate_do telopt q t
         | STATE_DONT \<Rightarrow> negotiate_dont telopt q t
         | _ \<Rightarrow> t))"

definition telnet_negotiate :: "byte \<Rightarrow> byte \<Rightarrow> telnet \<Rightarrow> telnet" where
  "telnet_negotiate cmd telopt t =
     (if t_proxy t then t_send [TELNET_IAC, cmd, telopt] t
      else
        (let q = t_get_rfc1143 t telopt; us = Q_US q; him = Q_HIM q in
         if cmd = TELNET_WILL then
           (if us = Q_NO then t_send_negotiate TELNET_WILL telopt (t_set_rfc1143 telopt Q_WANTYES him t)
            else if us = Q_WANTNO then t_set_rfc1143 telopt Q_WANTNO_OP him t
            else if us = Q_WANTYES_OP then t_set_rfc1143 telopt Q_WANTYES him t
            else t)
         else if cmd = TELNET_WONT then
           (if us = Q_YES then t_send_negotiate TELNET_WONT telopt (t_set_rfc1143 telopt Q_WANTNO him t)
            else if us = Q_WANTYES then t_set_rfc1143 telopt Q_WANTYES_OP him t
            else if us = Q_WANTNO_OP then t_set_rfc1143 telopt Q_WANTNO him t
            else t)
         else if cmd = TELNET_DO then
           (if him = Q_NO then t_send_negotiate TELNET_DO telopt (t_set_rfc1143 telopt us Q_WANTYES t)
            else if him = Q_WANTNO then t_set_rfc1143 telopt us Q_WANTNO_OP t
            else if him = Q_WANTYES_OP then t_set_rfc1143 telopt us Q_WANTYES t
            else t)
         else if cmd = TELNET_DONT then
           (if him = Q_YES then t_send_negotiate TELNET_DONT telopt (t_set_rfc1143 telopt us Q_WANTNO t)
            else if him = Q_WANTYES then t_set_rfc1143 telopt us Q_WANTYES_OP t
            else if him = Q_WANTNO_OP then t_set_rfc1143 telopt us Q_WANTNO t
            else t)
         else t))"

section \<open>RFC 1143\<close>

text \<open>
  The Q method, one side of one option. \<open>pos\<close> is the message that enables (WILL or DO), \<open>neg\<close> the
  one that disables; the reply, if any, is the message of the same polarity on our side.
\<close>

datatype qs = NO | YES | WANTNO | WANTYES | WANTNO_OP | WANTYES_OP

fun rfc_recv_pos :: "bool \<Rightarrow> qs \<Rightarrow> qs \<times> bool option" where
  "rfc_recv_pos agree NO = (if agree then (YES, Some True) else (NO, Some False))"
| "rfc_recv_pos agree YES = (YES, None)"
| "rfc_recv_pos agree WANTNO = (NO, None)"
| "rfc_recv_pos agree WANTNO_OP = (YES, None)"
| "rfc_recv_pos agree WANTYES = (YES, None)"
| "rfc_recv_pos agree WANTYES_OP = (WANTNO, Some False)"

fun rfc_recv_neg :: "qs \<Rightarrow> qs \<times> bool option" where
  "rfc_recv_neg NO = (NO, None)"
| "rfc_recv_neg YES = (NO, Some False)"
| "rfc_recv_neg WANTNO = (NO, None)"
| "rfc_recv_neg WANTNO_OP = (WANTYES, Some True)"
| "rfc_recv_neg WANTYES = (NO, None)"
| "rfc_recv_neg WANTYES_OP = (NO, None)"

fun rfc_ask_enable :: "qs \<Rightarrow> qs \<times> bool option" where
  "rfc_ask_enable NO = (WANTYES, Some True)"
| "rfc_ask_enable WANTNO = (WANTNO_OP, None)"
| "rfc_ask_enable WANTYES_OP = (WANTYES, None)"
| "rfc_ask_enable s = (s, None)"

fun rfc_ask_disable :: "qs \<Rightarrow> qs \<times> bool option" where
  "rfc_ask_disable YES = (WANTNO, Some False)"
| "rfc_ask_disable WANTYES = (WANTYES_OP, None)"
| "rfc_ask_disable WANTNO_OP = (WANTNO, None)"
| "rfc_ask_disable s = (s, None)"

definition q_abs :: "byte \<Rightarrow> qs" where
  "q_abs b = (if b = Q_NO then NO else if b = Q_YES then YES else if b = Q_WANTNO then WANTNO
     else if b = Q_WANTYES then WANTYES else if b = Q_WANTNO_OP then WANTNO_OP else WANTYES_OP)"

definition us_of :: "telnet \<Rightarrow> byte \<Rightarrow> qs" where
  "us_of t opt = q_abs (fst (q_get t opt))"

definition him_of :: "telnet \<Rightarrow> byte \<Rightarrow> qs" where
  "him_of t opt = q_abs (snd (q_get t opt))"

text \<open>The bytes an event list puts on the wire.\<close>

fun sent_bytes :: "telnet_event list \<Rightarrow> byte list" where
  "sent_bytes [] = []"
| "sent_bytes (EV_SEND bs # evs) = bs @ sent_bytes evs"
| "sent_bytes (_ # evs) = sent_bytes evs"

definition new_events :: "telnet \<Rightarrow> telnet \<Rightarrow> telnet_event list" where
  "new_events t t' = drop (length (tn_events t)) (tn_events t')"

definition reply_bytes :: "byte \<Rightarrow> byte \<Rightarrow> byte \<Rightarrow> bool option \<Rightarrow> byte list" where
  "reply_bytes pos neg opt r =
     (case r of None \<Rightarrow> [] | Some b \<Rightarrow> [TELNET_IAC, if b then pos else neg, opt])"

section \<open>Frame and invariant\<close>

lemma set_frame [simp]:
  "tn_telopts (t_set_rfc1143 opt us him t) = tn_telopts t"
  "tn_buffer (t_set_rfc1143 opt us him t) = tn_buffer t"
  "tn_buffer_size (t_set_rfc1143 opt us him t) = tn_buffer_size t"
  "tn_buffer_pos (t_set_rfc1143 opt us him t) = tn_buffer_pos t"
  "tn_state (t_set_rfc1143 opt us him t) = tn_state t"
  "tn_flags (t_set_rfc1143 opt us him t) = tn_flags t"
  "tn_sb_telopt (t_set_rfc1143 opt us him t) = tn_sb_telopt t"
  "tn_strerror (t_set_rfc1143 opt us him t) = tn_strerror t"
  by (auto simp: t_set_rfc1143_def t_error_def dest: alloc_eqD split: option.splits prod.splits)

lemma q_get_emit [simp]: "q_get (emit ev t) = q_get t"
  by (rule q_get_cong) simp_all

lemma q_ok_emit [simp]: "q_ok (emit ev t) = q_ok t"
  by (simp add: q_ok_def)

lemmas neg_emit_defs = t_send_negotiate_def t_send_def t_protocol_warning_def t_error_def
lemmas neg_case_defs = negotiate_will_def negotiate_wont_def negotiate_do_def negotiate_dont_def

lemma set_events_room: "q_room opt t \<Longrightarrow> tn_events (t_set_rfc1143 opt us him t) = tn_events t"
  using q_scan_tracked [of t opt]
  by (auto simp: t_set_rfc1143_def q_room_def dest: alloc_eqD split: option.splits prod.splits)

lemma q_byte_cases:
  assumes "(b :: byte) \<le> 5"
  obtains "b = 0" | "b = 1" | "b = 2" | "b = 3" | "b = 4" | "b = 5"
proof -
  have "unat b \<le> 5" using assms by (simp add: word_le_nat_alt)
  then have "unat b = 0 \<or> unat b = 1 \<or> unat b = 2 \<or> unat b = 3 \<or> unat b = 4 \<or> unat b = 5" by arith
  then show ?thesis using that by (auto simp: word_unat_eq_iff)
qed

lemma new_events_same [simp]: "new_events t t = []"
  by (simp add: new_events_def)

lemma sent_bytes_append: "sent_bytes (xs @ ys) = sent_bytes xs @ sent_bytes ys"
  by (induction xs rule: sent_bytes.induct) simp_all

lemma q_get_nibbles: "fst (q_get t opt) = Q_US (t_get_rfc1143 t opt)" "snd (q_get t opt) = Q_HIM (t_get_rfc1143 t opt)"
  by (simp_all add: q_get_def)

lemmas q_abs_simps [simp] = q_abs_def [of 0, simplified] q_abs_def [of 1, simplified]
  q_abs_def [of 2, simplified] q_abs_def [of 3, simplified] q_abs_def [of 4, simplified]
  q_abs_def [of 5, simplified]

text \<open>One write followed by events: what it does to the table and to the wire.\<close>

lemma him_write:
  assumes "q_room opt t" and "h < 16"
  shows "him_of (t_set_rfc1143 opt (Q_US (t_get_rfc1143 t opt)) h t) = (him_of t)(opt := q_abs h)"
    "us_of (t_set_rfc1143 opt (Q_US (t_get_rfc1143 t opt)) h t) = us_of t"
  using assms
  by (auto simp: him_of_def us_of_def rfc1143_table.get_put Q_nibbles fun_eq_iff q_get_nibbles)

lemma us_write:
  assumes "q_room opt t" and "u < 16"
  shows "us_of (t_set_rfc1143 opt u (Q_HIM (t_get_rfc1143 t opt)) t) = (us_of t)(opt := q_abs u)"
    "him_of (t_set_rfc1143 opt u (Q_HIM (t_get_rfc1143 t opt)) t) = him_of t"
  using assms
  by (auto simp: him_of_def us_of_def rfc1143_table.get_put Q_nibbles fun_eq_iff q_get_nibbles)

lemma him_of_emit [simp]: "him_of (emit ev t) = him_of t" "us_of (emit ev t) = us_of t"
  by (simp_all add: him_of_def us_of_def fun_eq_iff)

lemma him_of_at: "him_of t opt = q_abs (Q_HIM (t_get_rfc1143 t opt))"
  by (simp add: him_of_def q_get_nibbles)

lemma us_of_at: "us_of t opt = q_abs (Q_US (t_get_rfc1143 t opt))"
  by (simp add: us_of_def q_get_nibbles)

lemmas neg_refine_simps = t_negotiate_def neg_case_defs him_write us_write set_events_room
  neg_emit_defs Let_def new_events_def reply_bytes_def fun_upd_idem

section \<open>The code implements the Q method\<close>

definition q_valid :: "telnet \<Rightarrow> bool" where
  "q_valid t \<longleftrightarrow> (\<forall>opt. fst (q_get t opt) \<le> 5 \<and> snd (q_get t opt) \<le> 5)"

lemma recv_will_refines:
  assumes "\<not> t_proxy t" and "tn_state t = STATE_WILL" and "q_room opt t" and "q_valid t"
  defines "r \<equiv> rfc_recv_pos (t_check_telopt t opt False) (him_of t opt)"
  shows "him_of (t_negotiate opt t) = (him_of t)(opt := fst r) \<and> us_of (t_negotiate opt t) = us_of t \<and>
    sent_bytes (new_events t (t_negotiate opt t)) = reply_bytes TELNET_DO TELNET_DONT opt (snd r)"
proof -
  have "Q_HIM (t_get_rfc1143 t opt) \<le> 5" using assms(4) by (auto simp: q_valid_def q_get_nibbles)
  then show ?thesis
    by (rule q_byte_cases) (use assms(1-3) in \<open>simp_all add: r_def him_of_at neg_refine_simps\<close>)
qed

lemma recv_wont_refines:
  assumes "\<not> t_proxy t" and "tn_state t = STATE_WONT" and "q_room opt t" and "q_valid t"
  defines "r \<equiv> rfc_recv_neg (him_of t opt)"
  shows "him_of (t_negotiate opt t) = (him_of t)(opt := fst r) \<and> us_of (t_negotiate opt t) = us_of t \<and>
    (sent_bytes (new_events t (t_negotiate opt t)) =
       (if him_of t opt = WANTNO_OP then [] else reply_bytes TELNET_DO TELNET_DONT opt (snd r)))"
proof -
  have "Q_HIM (t_get_rfc1143 t opt) \<le> 5" using assms(4) by (auto simp: q_valid_def q_get_nibbles)
  then show ?thesis
    by (rule q_byte_cases) (use assms(1-3) in \<open>simp_all add: r_def him_of_at neg_refine_simps\<close>)
qed

lemma recv_do_refines:
  assumes "\<not> t_proxy t" and "tn_state t = STATE_DO" and "q_room opt t" and "q_valid t"
  defines "r \<equiv> rfc_recv_pos (t_check_telopt t opt True) (us_of t opt)"
  shows "us_of (t_negotiate opt t) = (us_of t)(opt := fst r) \<and> him_of (t_negotiate opt t) = him_of t \<and>
    sent_bytes (new_events t (t_negotiate opt t)) = reply_bytes TELNET_WILL TELNET_WONT opt (snd r)"
proof -
  have "Q_US (t_get_rfc1143 t opt) \<le> 5" using assms(4) by (auto simp: q_valid_def q_get_nibbles)
  then show ?thesis
    by (rule q_byte_cases) (use assms(1-3) in \<open>simp_all add: r_def us_of_at neg_refine_simps\<close>)
qed

lemma recv_dont_refines:
  assumes "\<not> t_proxy t" and "tn_state t = STATE_DONT" and "q_room opt t" and "q_valid t"
  defines "r \<equiv> rfc_recv_neg (us_of t opt)"
  shows "us_of (t_negotiate opt t) = (us_of t)(opt := fst r) \<and> him_of (t_negotiate opt t) = him_of t \<and>
    sent_bytes (new_events t (t_negotiate opt t)) = reply_bytes TELNET_WILL TELNET_WONT opt (snd r)"
proof -
  have "Q_US (t_get_rfc1143 t opt) \<le> 5" using assms(4) by (auto simp: q_valid_def q_get_nibbles)
  then show ?thesis
    by (rule q_byte_cases) (use assms(1-3) in \<open>simp_all add: r_def us_of_at neg_refine_simps\<close>)
qed

lemma ask_him_refines:
  assumes "\<not> t_proxy t" and "q_room opt t" and "q_valid t" and "cmd = (if on then TELNET_DO else TELNET_DONT)"
  defines "r \<equiv> (if on then rfc_ask_enable else rfc_ask_disable) (him_of t opt)"
  shows "him_of (telnet_negotiate cmd opt t) = (him_of t)(opt := fst r) \<and>
    us_of (telnet_negotiate cmd opt t) = us_of t \<and>
    sent_bytes (new_events t (telnet_negotiate cmd opt t)) = reply_bytes TELNET_DO TELNET_DONT opt (snd r)"
proof -
  have "Q_HIM (t_get_rfc1143 t opt) \<le> 5" using assms(3) by (auto simp: q_valid_def q_get_nibbles)
  then show ?thesis
    by (rule q_byte_cases; cases on)
      (use assms(1,2,4) in \<open>simp_all add: r_def him_of_at neg_refine_simps telnet_negotiate_def\<close>)
qed

lemma ask_us_refines:
  assumes "\<not> t_proxy t" and "q_room opt t" and "q_valid t" and "cmd = (if on then TELNET_WILL else TELNET_WONT)"
  defines "r \<equiv> (if on then rfc_ask_enable else rfc_ask_disable) (us_of t opt)"
  shows "us_of (telnet_negotiate cmd opt t) = (us_of t)(opt := fst r) \<and>
    him_of (telnet_negotiate cmd opt t) = him_of t \<and>
    sent_bytes (new_events t (telnet_negotiate cmd opt t)) = reply_bytes TELNET_WILL TELNET_WONT opt (snd r)"
proof -
  have "Q_US (t_get_rfc1143 t opt) \<le> 5" using assms(3) by (auto simp: q_valid_def q_get_nibbles)
  then show ?thesis
    by (rule q_byte_cases; cases on)
      (use assms(1,2,4) in \<open>simp_all add: r_def us_of_at neg_refine_simps telnet_negotiate_def\<close>)
qed

text \<open>The Q method as one function: a received command, our verdict on the option, both states.\<close>

definition rfc_receive :: "telnet_state \<Rightarrow> bool \<Rightarrow> byte \<Rightarrow> qs \<times> qs \<Rightarrow> (qs \<times> qs) \<times> byte list" where
  "rfc_receive cmd agree opt s =
     (case cmd of
        STATE_WILL \<Rightarrow> (let (h, r) = rfc_recv_pos agree (snd s)
                        in ((fst s, h), reply_bytes TELNET_DO TELNET_DONT opt r))
      | STATE_WONT \<Rightarrow> (let (h, r) = rfc_recv_neg (snd s)
                        in ((fst s, h), reply_bytes TELNET_DO TELNET_DONT opt r))
      | STATE_DO \<Rightarrow> (let (u, r) = rfc_recv_pos agree (fst s)
                      in ((u, snd s), reply_bytes TELNET_WILL TELNET_WONT opt r))
      | STATE_DONT \<Rightarrow> (let (u, r) = rfc_recv_neg (fst s)
                        in ((u, snd s), reply_bytes TELNET_WILL TELNET_WONT opt r))
      | _ \<Rightarrow> (s, []))"

definition neg_states :: "telnet \<Rightarrow> byte \<Rightarrow> qs \<times> qs" where
  "neg_states t opt = (us_of t opt, him_of t opt)"

definition is_neg_state :: "telnet_state \<Rightarrow> bool" where
  "is_neg_state st \<longleftrightarrow> st = STATE_WILL \<or> st = STATE_WONT \<or> st = STATE_DO \<or> st = STATE_DONT"

lemma negotiate_simulates:
  assumes "\<not> t_proxy t" and "is_neg_state (tn_state t)" and "q_room opt t" and "q_valid t"
    and "\<not> (tn_state t = STATE_WONT \<and> him_of t opt = WANTNO_OP)"
  defines "agree \<equiv> t_check_telopt t opt (tn_state t = STATE_DO)"
  shows "(neg_states (t_negotiate opt t) opt, sent_bytes (new_events t (t_negotiate opt t)))
      = rfc_receive (tn_state t) agree opt (neg_states t opt)"
    and "p \<noteq> opt \<Longrightarrow> neg_states (t_negotiate opt t) p = neg_states t p"
proof -
  note r = recv_will_refines [OF assms(1) _ assms(3,4)] recv_wont_refines [OF assms(1) _ assms(3,4)]
    recv_do_refines [OF assms(1) _ assms(3,4)] recv_dont_refines [OF assms(1) _ assms(3,4)]
  show "(neg_states (t_negotiate opt t) opt, sent_bytes (new_events t (t_negotiate opt t)))
      = rfc_receive (tn_state t) agree opt (neg_states t opt)"
    using assms(2,5) r unfolding is_neg_state_def
    by (elim disjE) (simp_all add: agree_def neg_states_def rfc_receive_def split: prod.splits)
  show "p \<noteq> opt \<Longrightarrow> neg_states (t_negotiate opt t) p = neg_states t p"
    using assms(2) r unfolding is_neg_state_def
    by (elim disjE) (simp_all add: neg_states_def)
qed

section \<open>The table stays well-formed\<close>

text \<open>A write either takes effect, fails for lack of memory, or wraps the array's length.\<close>

lemma set_outcomes:
  assumes "q_ok t" and "us < 16" and "him < 16"
  shows "q_ok (t_set_rfc1143 opt us him t) \<and>
    (q_get (t_set_rfc1143 opt us him t) = (q_get t)(opt := (us, him)) \<or>
     q_get (t_set_rfc1143 opt us him t) = q_get t \<or>
     q_get (t_set_rfc1143 opt us him t) = (\<lambda>_. (0, 0)))"
proof (cases "q_tracked opt t")
  case True
  then show ?thesis using assms q_get_set [of opt t us him] q_ok_set_tracked [of t opt us him]
    by (simp add: q_room_def)
next
  case ntr: False
  show ?thesis
  proof (cases "fst (alloc t)")
    case False
    then obtain t1 where t1: "alloc t = (False, t1)" by (cases "alloc t") auto
    have "t_set_rfc1143 opt us him t =
        emit (EV_WARNING ''_set_rfc1143'' (take 511 (''realloc() failed: '' @ tn_strerror t1))) t1"
      using ntr t1 by (simp add: t_set_rfc1143_def q_scan_tracked [THEN iffD2] t_error_def)
    moreover have "q_get t1 = q_get t" "q_ok t1 = q_ok t"
      using q_get_cong [OF alloc_eqD(2,3) [OF t1]] alloc_eqD(2,3) [OF t1] by (simp_all add: q_ok_def)
    ultimately show ?thesis using assms(1) by simp
  next
    case al: True
    show ?thesis
    proof (cases "unat (tn_q_size t) < 252")
      case True
      then show ?thesis using assms ntr al q_get_set [of opt t us him] set_new(3) [of t opt us him]
        by (simp add: q_room_def)
    next
      case False
      have "unat (tn_q_size t) < 256" using unsigned_less [of "tn_q_size t", where 'a = nat] by simp
      moreover have "4 dvd unat (tn_q_size t)" using assms(1) by (simp add: q_ok_def)
      ultimately have "unat (tn_q_size t) = 252" using False by presburger
      then have "tn_q_size t = 252" by (simp add: word_unat_eq_iff)
      then have "tn_q_size (t_set_rfc1143 opt us him t) = 0" using q_size_wraps ntr al by blast
      then show ?thesis by (auto simp: q_ok_def q_get_empty)
    qed
  qed
qed

definition q_inv :: "telnet \<Rightarrow> bool" where
  "q_inv t \<longleftrightarrow> q_ok t \<and> q_valid t"

lemma q_inv_emit [simp]: "q_inv (emit ev t) = q_inv t"
  by (simp add: q_inv_def q_valid_def)

lemma q_inv_set: "q_inv t \<Longrightarrow> us \<le> 5 \<Longrightarrow> him \<le> 5 \<Longrightarrow> q_inv (t_set_rfc1143 opt us him t)"
proof -
  assume a: "q_inv t" "us \<le> 5" "him \<le> 5"
  then have "us < 16" "him < 16" by (auto elim: q_byte_cases)
  from set_outcomes [of t us him opt, OF _ this] a show ?thesis
    unfolding q_inv_def q_valid_def by (elim conjE disjE) auto
qed

lemma q_inv_nibbles: "q_inv t \<Longrightarrow> Q_US (t_get_rfc1143 t opt) \<le> 5 \<and> Q_HIM (t_get_rfc1143 t opt) \<le> 5"
  by (auto simp: q_inv_def q_valid_def q_get_nibbles)

lemma q_inv_negotiate [inv_intros]: "q_inv t \<Longrightarrow> q_inv (t_negotiate opt t)"
  using q_inv_nibbles [of t opt]
  by (simp add: t_negotiate_def neg_case_defs neg_emit_defs Let_def t_proxy_negotiate_def q_inv_set
      split: telnet_state.split)

lemma q_inv_telnet_negotiate [inv_intros]: "q_inv t \<Longrightarrow> q_inv (telnet_negotiate cmd opt t)"
  using q_inv_nibbles [of t opt]
  by (simp add: telnet_negotiate_def neg_emit_defs Let_def q_inv_set)

end
