(* ===== verification/Telnet_Subneg.thy ===== *)
theory Telnet_Subneg
  imports Telnet_Types
begin

text \<open>
  Decoding of a finished subnegotiation (\<^verbatim>\<open>_subnegotiate\<close> and the four payload parsers). The ENVIRON
  and MSSP parsers unescape and NUL-terminate their strings inside the subnegotiation buffer itself;
  the model performs the same writes on the block, keeps the pointers as offsets and reads the
  strings from the final block, as the handler does. Each is then shown to compute what a decoder
  on plain lists computes.
\<close>

section \<open>ENVIRON and NEW-ENVIRON\<close>

text \<open>The counting loop, over the bytes after the command byte.\<close>

fun environ_count :: "byte list \<Rightarrow> nat" where
  "environ_count [] = 0"
| "environ_count (b # bs) =
     (if b = TELNET_ENVIRON_VAR \<or> b = TELNET_ENVIRON_USERVAR then Suc (environ_count bs)
      else if b = TELNET_ENVIRON_ESC then environ_count (drop 1 bs)
      else environ_count bs)"

definition environ_name_end :: "byte \<Rightarrow> bool" where
  "environ_name_end b \<longleftrightarrow>
     b = TELNET_ENVIRON_VAR \<or> b = TELNET_ENVIRON_VALUE \<or> b = TELNET_ENVIRON_USERVAR"

definition environ_value_end :: "byte \<Rightarrow> bool" where
  "environ_value_end b \<longleftrightarrow> b = TELNET_ENVIRON_VAR \<or> b = TELNET_ENVIRON_USERVAR"

text \<open>
  The inner copying loops: \<open>c\<close> reads, \<open>out\<close> writes, both inside \<open>mem\<close>; \<open>stop\<close> is the end-marker test.
\<close>

function environ_copy ::
    "(byte \<Rightarrow> bool) \<Rightarrow> byte list \<Rightarrow> nat \<Rightarrow> nat \<Rightarrow> nat \<Rightarrow> byte list \<times> nat \<times> nat" where
  "environ_copy stop mem c out sz =
     (if c < sz \<and> \<not> stop (mem ! c) then
        (let c' = (if mem ! c = TELNET_ENVIRON_ESC then c + 1 else c)
         in environ_copy stop (mem[out := mem ! c']) (c' + 1) (out + 1) sz)
      else (mem, c, out))"
  by pat_completeness auto
termination
  by (relation "measure (\<lambda>(stop, mem, c, out, sz). sz - c)") auto

declare environ_copy.simps [simp del]

text \<open>One entry of the \<^verbatim>\<open>values\<close> array, with \<^verbatim>\<open>var\<close> and \<^verbatim>\<open>value\<close> as offsets; no value is the literal "".\<close>

record environ_ptrs =
  ep_type :: byte
  ep_var :: nat
  ep_value :: "nat option"

text \<open>The outer loop, for the entries still to be filled.\<close>

fun environ_entries :: "nat \<Rightarrow> byte list \<Rightarrow> nat \<Rightarrow> nat \<Rightarrow> nat \<Rightarrow> byte list \<times> environ_ptrs list" where
  "environ_entries 0 mem c out sz = (mem, [])"
| "environ_entries (Suc n) mem c out sz =
     (let ty = mem ! c;
          (mem1, c1, out1) = environ_copy environ_name_end mem (c + 1) out sz;
          mem2 = mem1[out1 := 0];
          out2 = out1 + 1
      in if c1 < sz \<and> mem2 ! c1 = TELNET_ENVIRON_VALUE then
           (let (mem3, c3, out3) = environ_copy environ_value_end mem2 (c1 + 1) out2 sz;
                (mem4, es) = environ_entries n (mem3[out3 := 0]) c3 (out3 + 1) sz
            in (mem4, \<lparr>ep_type = ty, ep_var = out, ep_value = Some out2\<rparr> # es))
         else
           (let (mem4, es) = environ_entries n mem2 c1 out2 sz
            in (mem4, \<lparr>ep_type = ty, ep_var = out, ep_value = None\<rparr> # es)))"

definition environ_resolve :: "byte list \<Rightarrow> environ_ptrs \<Rightarrow> telnet_environ" where
  "environ_resolve mem e =
     \<lparr>env_type = ep_type e, env_var = Some (cstr mem (ep_var e)),
      env_value = Some (case ep_value e of None \<Rightarrow> [] | Some off \<Rightarrow> cstr mem off)\<rparr>"

definition environ_warn :: "byte \<Rightarrow> string \<Rightarrow> telnet \<Rightarrow> int \<times> telnet" where
  "environ_warn type msg t =
     (0, snd (t_error ''_environ_telnet'' TELNET_EPROTOCOL False
                (''telopt '' @ dec_nat (unat type) @ '' subneg '' @ msg) t))"

definition t_environ_telnet :: "byte \<Rightarrow> telnet \<Rightarrow> int \<times> telnet" where
  "t_environ_telnet type t =
     (let mem = tn_buffer t; sz = tn_buffer_pos t in
      if sz = 0 then (0, t)
      else if mem ! 0 \<noteq> TELNET_ENVIRON_SEND \<and> mem ! 0 \<noteq> TELNET_ENVIRON_IS \<and>
              mem ! 0 \<noteq> TELNET_ENVIRON_INFO then
        environ_warn type ''has invalid command'' t
      else if sz = 1 then (1, emit (EV_ENVIRON (mem ! 0) []) t)
      else if mem ! 1 \<noteq> TELNET_ENVIRON_VAR \<and> mem ! 1 \<noteq> TELNET_ENVIRON_USERVAR then
        environ_warn type ''missing variable type'' t
      else if mem ! (sz - 1) = TELNET_ENVIRON_ESC then
        environ_warn type ''ends with ESC'' t
      else
        (let count = environ_count (drop 1 (take sz mem));
             (ok, t1) = alloc t
         in if \<not> ok then
              (0, snd (t_error ''_environ_telnet'' TELNET_ENOMEM False
                         (''calloc() failed: '' @ tn_strerror t1) t1))
            else
              (let (mem', es) = environ_entries count mem 1 0 sz
               in (1, emit (EV_ENVIRON (mem ! 0) (map (environ_resolve mem') es))
                        (t1\<lparr>tn_buffer := mem'\<rparr>)))))"

section \<open>MSSP\<close>

definition mssp_marker :: "byte \<Rightarrow> bool" where
  "mssp_marker b \<longleftrightarrow> b = TELNET_MSSP_VAR \<or> b = TELNET_MSSP_VAL"

function mssp_copy :: "byte list \<Rightarrow> nat \<Rightarrow> nat \<Rightarrow> nat \<Rightarrow> byte list \<times> nat \<times> nat" where
  "mssp_copy mem c out sz =
     (if c < sz \<and> \<not> mssp_marker (mem ! c)
      then mssp_copy (mem[out := mem ! c]) (c + 1) (out + 1) sz
      else (mem, c, out))"
  by pat_completeness auto
termination
  by (relation "measure (\<lambda>(mem, c, out, sz). sz - c)") auto

declare mssp_copy.simps [simp del]

lemma mssp_copy_progress: "c \<le> fst (snd (mssp_copy mem c out sz))"
  by (induction mem c out sz rule: mssp_copy.induct) (subst mssp_copy.simps, auto)

text \<open>
  The main loop. \<open>vals\<close> is the zeroed array as offsets (\<open>None\<close> a NULL pointer); \<open>None\<close> as a result is
  the error return. The read \<^verbatim>\<open>next_type = *c++\<close> past the last byte is \<open>0\<close> here: its value is not used.
\<close>

function mssp_loop ::
    "byte list \<Rightarrow> nat \<Rightarrow> nat \<Rightarrow> nat \<Rightarrow> byte \<Rightarrow> nat option \<Rightarrow> nat \<Rightarrow> (nat \<times> nat) option list \<Rightarrow> nat
     \<Rightarrow> byte list \<times> (nat \<times> nat) option list option" where
  "mssp_loop mem c out lst next_type var i vals sz =
     (if c < sz then
        (let (mem1, c1, out1) = mssp_copy mem c out sz;
             mem2 = mem1[out1 := 0];
             out2 = out1 + 1;
             nt = (if c1 < sz then mem2 ! c1 else 0)
         in if next_type = TELNET_MSSP_VAR then
              mssp_loop mem2 (c1 + 1) out2 out2 nt (Some lst) i vals sz
            else
              (case var of
                 Some v \<Rightarrow>
                   (if next_type = TELNET_MSSP_VAL then
                      mssp_loop mem2 (c1 + 1) out2 out2 nt var (i + 1) (vals[i := Some (v, lst)]) sz
                    else (mem2, None))
               | None \<Rightarrow> (mem2, None)))
      else (mem, Some vals))"
  by pat_completeness auto
termination
proof (relation "measure (\<lambda>(mem, c, out, lst, nt, var, i, vals, sz). sz - c)", goal_cases)
  case 1
  show ?case by simp
next
  case (2 mem c out lst next_type var i vals sz x y mem1 c1 out1)
  then show ?case using mssp_copy_progress [of c mem out sz] by (auto simp: prod_eq_iff)
next
  case (3 mem c out lst next_type var i vals sz x y mem1 c1 out1)
  then show ?case using mssp_copy_progress [of c mem out sz] by (auto simp: prod_eq_iff)
qed

declare mssp_loop.simps [simp del]

definition mssp_resolve :: "byte list \<Rightarrow> (nat \<times> nat) option \<Rightarrow> telnet_environ" where
  "mssp_resolve mem p =
     \<lparr>env_type = 0, env_var = map_option (\<lambda>(v, w). cstr mem v) p,
      env_value = map_option (\<lambda>(v, w). cstr mem w) p\<rparr>"

definition mssp_warn :: "string \<Rightarrow> telnet \<Rightarrow> int \<times> telnet" where
  "mssp_warn msg t = (0, snd (t_error ''_mssp_telnet'' TELNET_EPROTOCOL False msg t))"

definition t_mssp_telnet :: "telnet \<Rightarrow> int \<times> telnet" where
  "t_mssp_telnet t =
     (let mem = tn_buffer t; sz = tn_buffer_pos t in
      if sz = 0 then (0, t)
      else if mem ! 0 \<noteq> TELNET_MSSP_VAR then mssp_warn ''MSSP subnegotiation has invalid data'' t
      else
        (let count = length (filter (\<lambda>b. b = TELNET_MSSP_VAL) (take sz mem));
             (ok, t1) = alloc t
         in if \<not> ok then
              (0, snd (t_error ''_mssp_telnet'' TELNET_ENOMEM False
                         (''calloc() failed: '' @ tn_strerror t1) t1))
            else
              (let (mem', r) = mssp_loop mem 1 0 0 (mem ! 0) None 0 (replicate count None) sz;
                   t2 = t1\<lparr>tn_buffer := mem'\<rparr>
               in case r of
                    None \<Rightarrow> mssp_warn ''invalid MSSP subnegotiation data'' t2
                  | Some vals \<Rightarrow> (0, emit (EV_MSSP (map (mssp_resolve mem') vals)) t2))))"

section \<open>ZMP\<close>

text \<open>Both loops step over one NUL-terminated string at a time: the first counts, the second keeps.\<close>

function zmp_count :: "byte list \<Rightarrow> nat" where
  "zmp_count bs = (if bs = [] then 0 else Suc (zmp_count (drop (length (cstr bs 0) + 1) bs)))"
  by pat_completeness auto
termination by (relation "measure length") auto

declare zmp_count.simps [simp del]

fun zmp_populate :: "nat \<Rightarrow> byte list \<Rightarrow> byte list list" where
  "zmp_populate 0 bs = []"
| "zmp_populate (Suc n) bs = cstr bs 0 # zmp_populate n (drop (length (cstr bs 0) + 1) bs)"

definition t_zmp_telnet :: "telnet \<Rightarrow> int \<times> telnet" where
  "t_zmp_telnet t =
     (let sz = tn_buffer_pos t; data = take sz (tn_buffer t) in
      if sz = 0 \<or> tn_buffer t ! (sz - 1) \<noteq> 0 then
        (0, snd (t_error ''_zmp_telnet'' TELNET_EPROTOCOL False ''incomplete ZMP frame'' t))
      else
        (let argc = zmp_count data;
             (ok, t1) = alloc t
         in if \<not> ok then
              (0, snd (t_error ''_zmp_telnet'' TELNET_ENOMEM False
                         (''calloc() failed: '' @ tn_strerror t1) t1))
            else (0, emit (EV_ZMP (zmp_populate argc data)) t1)))"

section \<open>TERMINAL-TYPE\<close>

definition t_ttype_telnet :: "telnet \<Rightarrow> int \<times> telnet" where
  "t_ttype_telnet t =
     (let sz = tn_buffer_pos t; mem = tn_buffer t in
      if sz = 0 then
        (0, snd (t_error ''_ttype_telnet'' TELNET_EPROTOCOL False ''incomplete TERMINAL-TYPE request'' t))
      else if mem ! 0 \<noteq> TELNET_TTYPE_IS \<and> mem ! 0 \<noteq> TELNET_TTYPE_SEND then
        (0, snd (t_error ''_ttype_telnet'' TELNET_EPROTOCOL False
                   ''TERMINAL-TYPE request has invalid type'' t))
      else if mem ! 0 = TELNET_TTYPE_IS then
        (let (ok, t1) = alloc t
         in if \<not> ok then
              (0, snd (t_error ''_ttype_telnet'' TELNET_ENOMEM False
                         (''malloc() failed: '' @ tn_strerror t1) t1))
            else
              (let name = drop 1 (take sz mem) @ [0]
               in (0, emit (EV_TTYPE TELNET_TTYPE_IS (Some (cstr name 0))) t1)))
      else (0, emit (EV_TTYPE TELNET_TTYPE_SEND None) t))"

section \<open>Dispatch\<close>

definition t_subnegotiate :: "telnet \<Rightarrow> int \<times> telnet" where
  "t_subnegotiate t =
     (let t1 = emit (EV_SUBNEGOTIATION (tn_sb_telopt t) (take (tn_buffer_pos t) (tn_buffer t))) t in
      if tn_sb_telopt t = TELNET_TELOPT_ZMP then t_zmp_telnet t1
      else if tn_sb_telopt t = TELNET_TELOPT_TTYPE then t_ttype_telnet t1
      else if tn_sb_telopt t = TELNET_TELOPT_ENVIRON \<or> tn_sb_telopt t = TELNET_TELOPT_NEW_ENVIRON
        then t_environ_telnet (tn_sb_telopt t) t1
      else if tn_sb_telopt t = TELNET_TELOPT_MSSP then t_mssp_telnet t1
      else (0, t1))"

section \<open>Frame\<close>

lemma length_environ_copy: "length (fst (environ_copy stop mem c out sz)) = length mem"
  by (induction stop mem c out sz rule: environ_copy.induct)
    (subst environ_copy.simps, auto simp: Let_def)

lemma length_environ_entries: "length (fst (environ_entries n mem c out sz)) = length mem"
proof (induction n mem c out sz rule: environ_entries.induct)
  case (2 n mem c out sz)
  obtain mem1 c1 out1 where e1: "environ_copy environ_name_end mem (c + 1) out sz = (mem1, c1, out1)"
    by (cases "environ_copy environ_name_end mem (c + 1) out sz") auto
  have l1: "length mem1 = length mem" using length_environ_copy e1 by (metis fst_conv)
  obtain mem3 c3 out3 where
    e3: "environ_copy environ_value_end (mem1[out1 := 0]) (c1 + 1) (out1 + 1) sz = (mem3, c3, out3)"
    by (cases "environ_copy environ_value_end (mem1[out1 := 0]) (c1 + 1) (out1 + 1) sz") auto
  have l3: "length mem3 = length mem" using length_environ_copy e3 l1 by (metis fst_conv length_list_update)
  show ?case
    using 2(1) [OF refl e1 [symmetric] refl refl refl refl] 2(2) [OF refl e1 [symmetric] refl refl refl refl]
      e1 e3 l1 l3
    by (auto simp: Let_def split: prod.splits)
qed simp

section \<open>The ENVIRON parser computes a list decoder\<close>

text \<open>Specification: read up to an end marker, dropping escapes; then the list of variables.\<close>

fun environ_text :: "(byte \<Rightarrow> bool) \<Rightarrow> byte list \<Rightarrow> byte list \<times> byte list" where
  "environ_text stop [] = ([], [])"
| "environ_text stop (b # bs) =
     (if stop b then ([], b # bs)
      else if b = TELNET_ENVIRON_ESC then
        (let (u, r) = environ_text stop (drop 1 bs) in (take 1 bs @ u, r))
      else (let (u, r) = environ_text stop bs in (b # u, r)))"

lemma environ_text_shrinks: "length (snd (environ_text stop bs)) \<le> length bs"
proof (induction stop bs rule: environ_text.induct)
  case (2 stop b bs)
  then show ?case by (auto split: prod.splits)
qed simp

function environ_decode :: "byte list \<Rightarrow> (byte \<times> byte list \<times> byte list option) list" where
  "environ_decode [] = []"
| "environ_decode (ty # bs) =
     (let (u, r) = environ_text environ_name_end bs in
      case r of
        [] \<Rightarrow> [(ty, u, None)]
      | m # r' \<Rightarrow>
          (if m = TELNET_ENVIRON_VALUE then
             (let (w, r2) = environ_text environ_value_end r' in (ty, u, Some w) # environ_decode r2)
           else (ty, u, None) # environ_decode r))"
  by pat_completeness auto
termination
proof (relation "measure length", goal_cases)
  case 1
  show ?case by simp
next
  case (2 ty bs x u r m r' y w r2)
  then show ?case
    using environ_text_shrinks [of environ_name_end bs] environ_text_shrinks [of environ_value_end r']
    by (auto simp: prod_eq_iff dest: arg_cong [of _ _ length])
next
  case (3 ty bs x u r m r')
  then show ?case using environ_text_shrinks [of environ_name_end bs] by (auto simp: prod_eq_iff)
qed

text \<open>No escape byte is left dangling at the end of the input.\<close>

fun environ_closed :: "byte list \<Rightarrow> bool" where
  "environ_closed [] = True"
| "environ_closed (b # bs) =
     (if b = TELNET_ENVIRON_ESC then bs \<noteq> [] \<and> environ_closed (drop 1 bs)
      else environ_closed bs)"

lemma environ_closed_last: "bs \<noteq> [] \<Longrightarrow> last bs \<noteq> TELNET_ENVIRON_ESC \<Longrightarrow> environ_closed bs"
proof (induction bs rule: environ_closed.induct)
  case (2 b bs)
  then show ?case by (cases bs) (auto split: if_splits)
qed simp

lemma environ_text_closed: "environ_closed bs \<Longrightarrow> \<not> stop TELNET_ENVIRON_ESC \<Longrightarrow>
   environ_closed (snd (environ_text stop bs))"
  by (induction stop bs rule: environ_text.induct) (auto split: prod.splits if_splits)

lemma environ_text_rest: "environ_text stop bs = (u, m # r) \<Longrightarrow> stop m"
proof (induction stop bs arbitrary: u rule: environ_text.induct)
  case (2 stop b bs)
  then show ?case by (auto split: prod.splits if_splits)
qed simp

text \<open>
  The block is \<open>pre\<close> (written), \<open>gap\<close> (read, not yet overwritten), \<open>bs\<close> (to be read), \<open>post\<close> (the unused
  rest). One more byte is read for each byte written, so the gap never closes.
\<close>

lemma environ_copy_step:
  assumes "\<not> stop b" and "k = (if b = TELNET_ENVIRON_ESC then [b, x] else [b])"
    and "b \<noteq> TELNET_ENVIRON_ESC \<Longrightarrow> x = b"
    and "sz = length pre + Suc (length gs) + length k + length bs"
  shows "environ_copy stop (pre @ (g # gs) @ k @ bs @ post) (length pre + Suc (length gs)) (length pre) sz =
    environ_copy stop ((pre @ [x]) @ (gs @ k) @ bs @ post) (length (pre @ [x]) + length (gs @ k))
      (length (pre @ [x])) sz"
proof -
  let ?mem = "pre @ (g # gs) @ k @ bs @ post"
  have n: "?mem ! (length pre + Suc (length gs)) = b"
    "b = TELNET_ENVIRON_ESC \<Longrightarrow> ?mem ! Suc (length pre + Suc (length gs)) = x"
    using assms(2) by (simp_all add: nth_append)
  have u: "?mem[length pre := x] = (pre @ [x]) @ (gs @ k) @ bs @ post" by simp
  show ?thesis
    using n u assms by (subst environ_copy.simps) (auto simp: Let_def)
qed

lemma environ_copy_correct:
  assumes "environ_text stop bs = (u, r)" and "environ_closed bs" and "\<not> stop TELNET_ENVIRON_ESC"
    and "gap \<noteq> []" and "sz = length pre + length gap + length bs"
  shows "\<exists>gap'. length gap \<le> length gap' \<and> sz = length pre + length u + length gap' + length r \<and>
    environ_copy stop (pre @ gap @ bs @ post) (length pre + length gap) (length pre) sz =
      (pre @ u @ gap' @ r @ post, length pre + length u + length gap', length pre + length u)"
  using assms
proof (induction stop bs arbitrary: pre gap u r rule: environ_text.induct)
  case (1 stop)
  then show ?case by (intro exI [of _ gap], subst environ_copy.simps) auto
next
  case (2 stop b bs)
  obtain g gs where gap: "gap = g # gs" using "2.prems"(4) by (cases gap) auto
  show ?case
  proof (cases "stop b")
    case True
    with "2.prems" show ?thesis
      by (intro exI [of _ gap], subst environ_copy.simps) (auto simp: nth_append)
  next
    case ns: False
    obtain x rest k where k: "k = (if b = TELNET_ENVIRON_ESC then [b, x] else [b])"
        "b \<noteq> TELNET_ENVIRON_ESC \<Longrightarrow> x = b" "b # bs = k @ rest" "environ_closed rest"
      and t: "environ_text stop rest = (tl u, r)" "u = x # tl u"
    proof (cases "b = TELNET_ENVIRON_ESC")
      case True
      with "2.prems"(2) obtain y ys where "bs = y # ys" "environ_closed ys" by (cases bs) auto
      with True ns "2.prems"(1) that [of "[b, y]" y ys] show ?thesis
        by (auto simp: Let_def split: prod.splits)
    next
      case False
      with ns "2.prems"(1,2) that [of "[b]" b bs] show ?thesis
        by (auto simp: Let_def split: prod.splits)
    qed
    have sz: "sz = length pre + Suc (length gs) + length k + length rest"
      using "2.prems"(5) gap arg_cong [OF k(3), of length] by simp
    have "\<exists>gap'. length (gs @ k) \<le> length gap' \<and>
        sz = length (pre @ [x]) + length (tl u) + length gap' + length r \<and>
        environ_copy stop ((pre @ [x]) @ (gs @ k) @ rest @ post) (length (pre @ [x]) + length (gs @ k))
          (length (pre @ [x])) sz =
        ((pre @ [x]) @ tl u @ gap' @ r @ post, length (pre @ [x]) + length (tl u) + length gap',
         length (pre @ [x]) + length (tl u))"
    proof (cases "b = TELNET_ENVIRON_ESC")
      case True
      then have "rest = drop 1 bs" using k(1,3) by auto
      then show ?thesis
        using "2.IH"(1) [OF ns True, of "tl u" r "gs @ k" "pre @ [x]"] k t(1) sz "2.prems"(3) True by simp
    next
      case False
      then have "rest = bs" using k(1,3) by auto
      then show ?thesis
        using "2.IH"(2) [OF ns False, of "tl u" r "gs @ k" "pre @ [x]"] k t(1) sz "2.prems"(3) False by simp
    qed
    then obtain gap' where g': "length (gs @ k) \<le> length gap'"
        "sz = length (pre @ [x]) + length (tl u) + length gap' + length r"
        "environ_copy stop ((pre @ [x]) @ (gs @ k) @ rest @ post) (length (pre @ [x]) + length (gs @ k))
          (length (pre @ [x])) sz =
        ((pre @ [x]) @ tl u @ gap' @ r @ post, length (pre @ [x]) + length (tl u) + length gap',
         length (pre @ [x]) + length (tl u))" by blast
    have mem: "pre @ gap @ (b # bs) @ post = pre @ (g # gs) @ k @ rest @ post"
      using k(3) gap by simp
    have "environ_copy stop (pre @ gap @ (b # bs) @ post) (length pre + length gap) (length pre) sz =
        ((pre @ [x]) @ tl u @ gap' @ r @ post, length (pre @ [x]) + length (tl u) + length gap',
         length (pre @ [x]) + length (tl u))"
      unfolding mem using environ_copy_step [of stop b k x sz pre gs rest g post] ns k(1,2) sz gap g'(3)
      by simp
    moreover have "length k \<ge> 1" using k(1) by simp
    ultimately show ?thesis
      using g'(1,2) gap t(2) by (intro exI [of _ gap'], cases u) simp_all
  qed
qed

lemma cstr_prefix: "take (length p + length u + 1) mem = p @ u @ [0] \<Longrightarrow> cstr mem (length p) = takeWhile (\<lambda>b. b \<noteq> 0) u"
proof -
  assume "take (length p + length u + 1) mem = p @ u @ [0]"
  then have "mem = (p @ u @ [0]) @ drop (length p + length u + 1) mem" by (metis append_take_drop_id)
  then have "drop (length p) mem = u @ 0 # drop (length p + length u + 1) mem"
    by (metis append.assoc append_Cons append_Nil append_eq_conv_conj)
  then show ?thesis by (simp add: cstr_def takeWhile_tail)
qed

definition environ_c :: "byte \<times> byte list \<times> byte list option \<Rightarrow> telnet_environ" where
  "environ_c e = (case e of (ty, u, w) \<Rightarrow>
     \<lparr>env_type = ty, env_var = Some (takeWhile (\<lambda>b. b \<noteq> 0) u),
      env_value = Some (takeWhile (\<lambda>b. b \<noteq> 0) (case w of None \<Rightarrow> [] | Some w' \<Rightarrow> w'))\<rparr>)"

definition environ_starts :: "byte list \<Rightarrow> bool" where
  "environ_starts bs \<longleftrightarrow> bs = [] \<or> environ_value_end (hd bs)"

text \<open>The copying loops with the byte that starts them moved into the gap.\<close>

lemma environ_pass:
  assumes "environ_closed bs" and "gap \<noteq> []" and "\<not> stop TELNET_ENVIRON_ESC"
    and "sz = length pre + length gap + Suc (length bs)" and "environ_text stop bs = (u, r)"
  shows "\<exists>g gs. gs \<noteq> [] \<and> sz = length pre + length u + Suc (length gs) + length r \<and>
    environ_copy stop (pre @ gap @ (m # bs) @ post) (length pre + length gap + 1) (length pre) sz =
      (pre @ u @ (g # gs) @ r @ post, length pre + length u + Suc (length gs), length pre + length u)"
proof -
  obtain gap' where h: "length (gap @ [m]) \<le> length gap'" "sz = length pre + length u + length gap' + length r"
    "environ_copy stop (pre @ (gap @ [m]) @ bs @ post) (length pre + length (gap @ [m])) (length pre) sz =
      (pre @ u @ gap' @ r @ post, length pre + length u + length gap', length pre + length u)"
    using environ_copy_correct [OF assms(5,1,3), of "gap @ [m]" sz pre post] assms(4) by auto
  then obtain g gs where "gap' = g # gs" by (cases gap') auto
  then show ?thesis using h assms(2) by (intro exI [of _ g] exI [of _ gs]) (cases gap, auto)
qed

text \<open>
  One pass of the outer loop: the decoder's first variable \<open>d\<close> is the new entry \<open>e\<close>, whatever the
  later passes write behind \<open>pre'\<close>.
\<close>

definition environ_pass_ok where
  "environ_pass_ok bs pre pre' gap' rest sz e d \<longleftrightarrow>
     environ_decode bs = d # environ_decode rest \<and> environ_closed rest \<and> environ_starts rest \<and>
     gap' \<noteq> [] \<and> sz = length pre' + length (gap' :: byte list) + length rest \<and> length rest < length bs \<and>
     (\<forall>mem. take (length pre') mem = pre' \<longrightarrow>
        take (length pre) mem = pre \<and> environ_resolve mem e = environ_c d)"

lemma environ_step_plain:
  assumes "environ_closed bs1" and "environ_value_end ty" and "gap \<noteq> []"
    and "sz = length pre + length gap + length (ty # bs1)"
    and "environ_text environ_name_end bs1 = (u, r)" and "r = [] \<or> hd r \<noteq> TELNET_ENVIRON_VALUE"
  shows "\<exists>pre' gap' e. environ_pass_ok (ty # bs1) pre pre' gap' r sz e (ty, u, None) \<and>
    environ_entries (Suc n) (pre @ gap @ (ty # bs1) @ post) (length pre + length gap) (length pre) sz =
      (let (m, es) = environ_entries n (pre' @ gap' @ r @ post) (length pre' + length gap') (length pre') sz
       in (m, e # es))"
proof -
  obtain g gs where h: "gs \<noteq> []" "sz = length pre + length u + Suc (length gs) + length r"
    "environ_copy environ_name_end (pre @ gap @ (ty # bs1) @ post) (length pre + length gap + 1) (length pre) sz =
      (pre @ u @ (g # gs) @ r @ post, length pre + length u + Suc (length gs), length pre + length u)"
    using environ_pass [OF assms(1,3) _ _ assms(5), of sz pre ty post] assms(4)
    by (auto simp: environ_name_end_def)
  let ?pre = "pre @ u @ [0]" and ?e = "\<lparr>ep_type = ty, ep_var = length pre, ep_value = None\<rparr>"
  have upd: "(pre @ u @ (g # gs) @ r @ post)[length pre + length u := 0] = ?pre @ gs @ r @ post"
    using list_update_append [of "pre @ u"] by simp
  have c: "\<not> (length pre + length u + Suc (length gs) < sz \<and>
      (?pre @ gs @ r @ post) ! (length pre + length u + Suc (length gs)) = TELNET_ENVIRON_VALUE)"
    using assms(6) h(2) by (cases r) (simp_all add: nth_append)
  have "environ_starts r" using environ_text_rest [of environ_name_end bs1 u] assms(5,6)
    by (cases r) (auto simp: environ_starts_def environ_name_end_def environ_value_end_def)
  moreover have "environ_closed r"
    using environ_text_closed [OF assms(1), of environ_name_end] assms(5) by (simp add: environ_name_end_def)
  moreover have "length r < length (ty # bs1)"
    using environ_text_shrinks [of environ_name_end bs1] assms(5) by simp
  moreover have "environ_decode (ty # bs1) = (ty, u, None) # environ_decode r"
    using assms(5,6) by (cases r) auto
  moreover have "take (length pre) mem = pre \<and> environ_resolve mem ?e = environ_c (ty, u, None)"
    if "take (length ?pre) mem = ?pre" for mem
    using cstr_prefix [of pre u mem] that take_eq_prefix [OF that]
    by (simp add: environ_resolve_def environ_c_def)
  ultimately have "environ_pass_ok (ty # bs1) pre ?pre gs r sz ?e (ty, u, None)"
    using h(1,2) by (simp add: environ_pass_ok_def)
  moreover have "environ_entries (Suc n) (pre @ gap @ (ty # bs1) @ post) (length pre + length gap) (length pre) sz =
      (let (m, es) = environ_entries n (?pre @ gs @ r @ post) (length ?pre + length gs) (length ?pre) sz
       in (m, ?e # es))"
    using h(3) upd c by (auto simp: Let_def nth_append split: prod.splits)
  ultimately show ?thesis by blast
qed

lemma environ_step_value:
  assumes "environ_closed bs1" and "environ_value_end ty" and "gap \<noteq> []"
    and "sz = length pre + length gap + length (ty # bs1)"
    and "environ_text environ_name_end bs1 = (u, TELNET_ENVIRON_VALUE # r)"
    and "environ_text environ_value_end r = (w, r2)"
  shows "\<exists>pre' gap' e. environ_pass_ok (ty # bs1) pre pre' gap' r2 sz e (ty, u, Some w) \<and>
    environ_entries (Suc n) (pre @ gap @ (ty # bs1) @ post) (length pre + length gap) (length pre) sz =
      (let (m, es) = environ_entries n (pre' @ gap' @ r2 @ post) (length pre' + length gap') (length pre') sz
       in (m, e # es))"
proof -
  let ?r = "TELNET_ENVIRON_VALUE # r"
  obtain g gs where h: "gs \<noteq> []" "sz = length pre + length u + Suc (length gs) + length ?r"
    "environ_copy environ_name_end (pre @ gap @ (ty # bs1) @ post) (length pre + length gap + 1) (length pre) sz =
      (pre @ u @ (g # gs) @ ?r @ post, length pre + length u + Suc (length gs), length pre + length u)"
    using environ_pass [OF assms(1,3) _ _ assms(5), of sz pre ty post] assms(4)
    by (auto simp: environ_name_end_def)
  have clr: "environ_closed r"
    using environ_text_closed [OF assms(1), of environ_name_end] assms(5) by (simp add: environ_name_end_def)
  let ?pre = "pre @ u @ [0]"
  obtain g' gs' where h': "gs' \<noteq> []" "sz = length ?pre + length w + Suc (length gs') + length r2"
    "environ_copy environ_value_end (?pre @ gs @ ?r @ post) (length ?pre + length gs + 1) (length ?pre) sz =
      (?pre @ w @ (g' # gs') @ r2 @ post, length ?pre + length w + Suc (length gs'), length ?pre + length w)"
    using environ_pass [OF clr h(1) _ _ assms(6), of sz ?pre TELNET_ENVIRON_VALUE post] h(2)
    by (auto simp: environ_value_end_def)
  let ?pre2 = "?pre @ w @ [0]"
  let ?e = "\<lparr>ep_type = ty, ep_var = length pre, ep_value = Some (length ?pre)\<rparr>"
  have upd: "(pre @ u @ (g # gs) @ ?r @ post)[length pre + length u := 0] = ?pre @ gs @ ?r @ post"
    using list_update_append [of "pre @ u"] by simp
  have upd': "(?pre @ w @ (g' # gs') @ r2 @ post)[length ?pre + length w := 0] = ?pre2 @ gs' @ r2 @ post"
    using list_update_append [of "?pre @ w"] by simp
  have "environ_starts r2" using environ_text_rest [of environ_value_end r w] assms(6)
    by (cases r2) (auto simp: environ_starts_def)
  moreover have "environ_closed r2"
    using environ_text_closed [OF clr, of environ_value_end] assms(6) by (simp add: environ_value_end_def)
  moreover have "length r2 < length (ty # bs1)"
    using environ_text_shrinks [of environ_name_end bs1] environ_text_shrinks [of environ_value_end r] assms(5,6)
    by simp
  moreover have "take (length pre) mem = pre \<and> environ_resolve mem ?e = environ_c (ty, u, Some w)"
    if m: "take (length ?pre2) mem = ?pre2" for mem
  proof -
    have p: "take (length ?pre) mem = ?pre" using m by (rule take_eq_prefix)
    have "take (length pre) mem = pre" using p by (rule take_eq_prefix)
    then show ?thesis
      using cstr_prefix [of pre u mem] cstr_prefix [of ?pre w mem] m p
      by (simp add: environ_resolve_def environ_c_def add.assoc)
  qed
  ultimately have "environ_pass_ok (ty # bs1) pre ?pre2 gs' r2 sz ?e (ty, u, Some w)"
    using h'(1,2) assms(5,6) by (simp add: environ_pass_ok_def)
  moreover have "environ_entries (Suc n) (pre @ gap @ (ty # bs1) @ post) (length pre + length gap) (length pre) sz =
      (let (m, es) = environ_entries n (?pre2 @ gs' @ r2 @ post) (length ?pre2 + length gs') (length ?pre2) sz
       in (m, ?e # es))"
    using h(2,3) h'(3) upd upd' by (auto simp: Let_def nth_append add.assoc split: prod.splits)
  ultimately show ?thesis by blast
qed

lemma environ_entries_correct:
  assumes "environ_closed bs" and "environ_starts bs" and "gap \<noteq> []"
    and "sz = length pre + length gap + length bs"
  shows "\<exists>mem' es. environ_entries (length (environ_decode bs)) (pre @ gap @ bs @ post)
      (length pre + length gap) (length pre) sz = (mem', es) \<and>
    take (length pre) mem' = pre \<and> map (environ_resolve mem') es = map environ_c (environ_decode bs)"
  using assms
proof (induction "length bs" arbitrary: bs pre gap rule: less_induct)
  case less
  show ?case
  proof (cases bs)
    case Nil
    then show ?thesis by simp
  next
    case (Cons ty bs1)
    have ty: "environ_value_end ty" using less.prems(2) Cons by (simp add: environ_starts_def)
    have cl: "environ_closed bs1" using less.prems(1) Cons ty
      by (auto simp: environ_value_end_def split: if_splits)
    obtain u r where ur: "environ_text environ_name_end bs1 = (u, r)"
      by (cases "environ_text environ_name_end bs1")
    have sz: "sz = length pre + length gap + length (ty # bs1)" using less.prems(4) Cons by simp
    obtain n where n: "length (environ_decode bs) = Suc n" if "environ_decode bs \<noteq> []"
      by (cases "environ_decode bs") auto
    have "\<exists>pre' gap' e rest d. environ_pass_ok bs pre pre' gap' rest sz e d \<and>
        environ_entries (Suc n) (pre @ gap @ bs @ post) (length pre + length gap) (length pre) sz =
          (let (m, es) = environ_entries n (pre' @ gap' @ rest @ post) (length pre' + length gap') (length pre') sz
           in (m, e # es))"
    proof (cases "r \<noteq> [] \<and> hd r = TELNET_ENVIRON_VALUE")
      case True
      obtain w r2 where "environ_text environ_value_end (tl r) = (w, r2)"
        by (cases "environ_text environ_value_end (tl r)")
      moreover have "environ_text environ_name_end bs1 = (u, TELNET_ENVIRON_VALUE # tl r)"
        using ur True by (cases r) auto
      ultimately show ?thesis
        using environ_step_value [OF cl ty less.prems(3) sz, of u "tl r" w r2 n post] unfolding Cons by blast
    next
      case False
      then show ?thesis
        using environ_step_plain [OF cl ty less.prems(3) sz ur, of n post] unfolding Cons by blast
    qed
    then obtain pre' gap' e rest d where p: "environ_pass_ok bs pre pre' gap' rest sz e d"
      and q: "environ_entries (Suc n) (pre @ gap @ bs @ post) (length pre + length gap) (length pre) sz =
          (let (m, es) = environ_entries n (pre' @ gap' @ rest @ post) (length pre' + length gap') (length pre') sz
           in (m, e # es))" by blast
    have n': "length (environ_decode bs) = Suc n" "n = length (environ_decode rest)"
      using p n by (auto simp: environ_pass_ok_def)
    obtain mem' es where "environ_entries (length (environ_decode rest)) (pre' @ gap' @ rest @ post)
        (length pre' + length gap') (length pre') sz = (mem', es)"
      "take (length pre') mem' = pre'" "map (environ_resolve mem') es = map environ_c (environ_decode rest)"
      using less.hyps [of rest gap' pre'] p by (auto simp: environ_pass_ok_def)
    then show ?thesis using p q n' by (auto simp: environ_pass_ok_def)
  qed
qed

text \<open>The counting loop finds one marker per decoded variable.\<close>

lemma environ_count_text:
  assumes "\<And>b. environ_value_end b \<Longrightarrow> stop b"
  shows "environ_count bs = environ_count (snd (environ_text stop bs))"
  using assms
proof (induction stop bs rule: environ_text.induct)
  case (2 stop b bs)
  have "stop TELNET_ENVIRON_VAR" "stop TELNET_ENVIRON_USERVAR"
    using "2.prems" by (simp_all add: environ_value_end_def)
  then show ?case using 2 by (auto split: prod.splits)
qed simp

lemma environ_count_decode: "environ_starts bs \<Longrightarrow> environ_count bs = length (environ_decode bs)"
proof (induction bs rule: environ_decode.induct)
  case (2 ty bs)
  obtain u r where ur: "environ_text environ_name_end bs = (u, r)" by (cases "environ_text environ_name_end bs")
  have c: "environ_count bs = environ_count r"
    using environ_count_text [of environ_name_end bs] ur
    by (auto simp: environ_name_end_def environ_value_end_def)
  have ty: "ty = TELNET_ENVIRON_VAR \<or> ty = TELNET_ENVIRON_USERVAR"
    using "2.prems" by (simp add: environ_starts_def environ_value_end_def)
  show ?case
  proof (cases r)
    case Nil
    then show ?thesis using c ty ur by auto
  next
    case (Cons m r')
    show ?thesis
    proof (cases "m = TELNET_ENVIRON_VALUE")
      case True
      obtain w r2 where wr: "environ_text environ_value_end r' = (w, r2)"
        by (cases "environ_text environ_value_end r'")
      have "environ_starts r2"
        using environ_text_rest [of environ_value_end r' w] wr by (cases r2) (auto simp: environ_starts_def)
      then have "environ_count r2 = length (environ_decode r2)"
        using "2.IH"(1) [OF ur [symmetric] refl Cons True wr [symmetric] refl] by simp
      moreover have "environ_count r' = environ_count r2"
        using environ_count_text [of environ_value_end r'] wr by simp
      ultimately show ?thesis using c ty ur Cons True wr by auto
    next
      case False
      have "environ_starts r"
        using environ_text_rest [of environ_name_end bs u m r'] ur Cons False
        by (auto simp: environ_starts_def environ_name_end_def environ_value_end_def)
      then have "environ_count r = length (environ_decode r)"
        using "2.IH"(2) [OF ur [symmetric] refl Cons False] by simp
      then show ?thesis using c ty ur Cons False by auto
    qed
  qed
qed simp

text \<open>A payload the parser accepts: a command byte, then variables, with no escape left open.\<close>

definition environ_payload_ok :: "byte list \<Rightarrow> bool" where
  "environ_payload_ok data \<longleftrightarrow> length data \<ge> 2 \<and>
     (data ! 0 = TELNET_ENVIRON_SEND \<or> data ! 0 = TELNET_ENVIRON_IS \<or> data ! 0 = TELNET_ENVIRON_INFO) \<and>
     environ_value_end (data ! 1) \<and> last data \<noteq> TELNET_ENVIRON_ESC"

lemma environ_telnet_decodes:
  assumes "tn_buffer t = data @ post" and "tn_buffer_pos t = length data"
    and "environ_payload_ok data" and "fst (alloc t)"
  shows "fst (t_environ_telnet type t) = 1 \<and>
    tn_events (snd (t_environ_telnet type t)) =
      tn_events t @ [EV_ENVIRON (data ! 0) (map environ_c (environ_decode (drop 1 data)))]"
proof -
  obtain cmd v rest where data: "data = cmd # v # rest"
    using assms(3) by (cases data rule: list.exhaust [case_product list.exhaust [of "tl data"]])
      (auto simp: environ_payload_ok_def)
  let ?bs = "v # rest"
  have ok: "environ_value_end v" "last data \<noteq> TELNET_ENVIRON_ESC"
    "cmd = TELNET_ENVIRON_SEND \<or> cmd = TELNET_ENVIRON_IS \<or> cmd = TELNET_ENVIRON_INFO"
    using assms(3) data by (simp_all add: environ_payload_ok_def)
  have st: "environ_starts ?bs" using ok(1) by (simp add: environ_starts_def)
  have cl: "environ_closed ?bs" using ok(2) data by (intro environ_closed_last) simp_all
  obtain mem' es where e: "environ_entries (length (environ_decode ?bs)) ([] @ [cmd] @ ?bs @ post)
      (length [] + length [cmd]) (length ([] :: byte list)) (length data) = (mem', es)"
    "map (environ_resolve mem') es = map environ_c (environ_decode ?bs)"
    using environ_entries_correct [OF cl st, of "[cmd]" "length data" "[]" post] data by auto
  have "(data @ post) ! (length data - 1) = last data" using data by (simp add: nth_append last_conv_nth)
  moreover obtain t1 where "alloc t = (True, t1)" using assms(4) by (cases "alloc t") auto
  ultimately show ?thesis
    using assms(1,2) ok e environ_count_decode [OF st] alloc_eqD(10) [of t True t1]
    by (auto simp: t_environ_telnet_def Let_def data environ_value_end_def split: prod.splits)
qed

section \<open>The MSSP parser computes a list decoder\<close>

text \<open>
  Specification: \<open>ty\<close> is the marker the text at the head of the list belongs to and \<open>v\<close> the variable
  name in force; each value text gives a pair. A marker that ends the payload has no text.
\<close>

function mssp_decode :: "byte \<Rightarrow> byte list \<Rightarrow> byte list \<Rightarrow> (byte list \<times> byte list) list" where
  "mssp_decode ty v bs =
     (if bs = [] then []
      else
        (let u = takeWhile (\<lambda>b. \<not> mssp_marker b) bs; r = dropWhile (\<lambda>b. \<not> mssp_marker b) bs in
         if ty = TELNET_MSSP_VAR then mssp_decode (hd (r @ [0])) u (drop 1 r)
         else (v, u) # mssp_decode (hd (r @ [0])) v (drop 1 r)))"
  by pat_completeness auto
termination
proof (relation "measure (\<lambda>(ty, v, bs). length bs)", goal_cases)
  case 1
  show ?case by simp
next
  case (2 ty v bs u r)
  then show ?case using length_dropWhile_le [of "\<lambda>b. \<not> mssp_marker b" bs]
    by (cases bs) (auto simp: le_imp_less_Suc diff_less_Suc le_less_trans)
next
  case (3 ty v bs u r)
  then show ?case using length_dropWhile_le [of "\<lambda>b. \<not> mssp_marker b" bs]
    by (cases bs) (auto simp: le_imp_less_Suc diff_less_Suc le_less_trans)
qed

declare mssp_decode.simps [simp del]

lemma mssp_copy_correct:
  assumes "gap \<noteq> []" and "sz = length pre + length gap + length bs"
  defines "u \<equiv> takeWhile (\<lambda>b. \<not> mssp_marker b) bs" and "r \<equiv> dropWhile (\<lambda>b. \<not> mssp_marker b) bs"
  shows "\<exists>g gs. length (g # gs) = length gap \<and>
    mssp_copy (pre @ gap @ bs @ post) (length pre + length gap) (length pre) sz =
      (pre @ u @ (g # gs) @ r @ post, length pre + length u + length (g # gs), length pre + length u)"
  using assms(1,2) unfolding u_def r_def
proof (induction bs arbitrary: pre gap)
  case Nil
  then show ?case by (subst mssp_copy.simps) (cases gap, auto)
next
  case (Cons b bs)
  obtain g gs where gap: "gap = g # gs" using Cons.prems(1) by (cases gap) auto
  show ?case
  proof (cases "mssp_marker b")
    case True
    then show ?thesis using gap by (subst mssp_copy.simps) (auto simp: nth_append)
  next
    case False
    have "mssp_copy (pre @ gap @ (b # bs) @ post) (length pre + length gap) (length pre) sz =
        mssp_copy ((pre @ [b]) @ (gs @ [b]) @ bs @ post) (length (pre @ [b]) + length (gs @ [b]))
          (length (pre @ [b])) sz"
      using False gap Cons.prems(2) by (subst mssp_copy.simps) (simp add: nth_append)
    then show ?thesis
      using Cons.IH [of "gs @ [b]" "pre @ [b]"] Cons.prems(2) gap False by auto
  qed
qed

definition mssp_c :: "byte list \<times> byte list \<Rightarrow> telnet_environ" where
  "mssp_c p = \<lparr>env_type = 0, env_var = Some (takeWhile (\<lambda>b. b \<noteq> 0) (fst p)),
     env_value = Some (takeWhile (\<lambda>b. b \<noteq> 0) (snd p))\<rparr>"

text \<open>An offset names a string of the already written part of the block.\<close>

definition names_text :: "byte list \<Rightarrow> nat \<Rightarrow> byte list \<Rightarrow> bool" where
  "names_text pre off v \<longleftrightarrow>
     (\<forall>mem. take (length pre) mem = pre \<longrightarrow> cstr mem off = takeWhile (\<lambda>b. b \<noteq> 0) v)"

lemma names_text_new: "names_text (pre @ u @ [0]) (length pre) u"
  using cstr_prefix [of pre u] by (simp add: names_text_def)

lemma names_text_mono: "names_text pre off v \<Longrightarrow> names_text (pre @ xs) off v"
  by (simp add: names_text_def) (metis take_eq_prefix)

lemma mssp_loop_done: "sz \<le> c \<Longrightarrow> mssp_loop mem c out lst ty var i vals sz = (mem, Some vals)"
  by (subst mssp_loop.simps) simp

lemma mssp_loop_step:
  assumes "c < sz" and "mssp_copy mem c out sz = (mem1, c1, out1)" and "mem1[out1 := 0] = mem2"
    and "(if c1 < sz then mem2 ! c1 else 0) = nt"
  shows "mssp_loop mem c out lst TELNET_MSSP_VAR var i vals sz =
      mssp_loop mem2 (c1 + 1) (out1 + 1) (out1 + 1) nt (Some lst) i vals sz"
    and "mssp_loop mem c out lst TELNET_MSSP_VAL (Some v) i vals sz =
      mssp_loop mem2 (c1 + 1) (out1 + 1) (out1 + 1) nt (Some v) (Suc i) (vals[i := Some (v, lst)]) sz"
  unfolding assms(4) [symmetric] assms(3) [symmetric]
  using assms(1,2)
  by (simp_all add: mssp_loop.simps [of mem c out lst _ _ i vals sz] Let_def del: if_split)

text \<open>
  The loop fills the array from position \<open>i\<close> with the decoded pairs and leaves the rest of it, and the
  strings already written, alone.
\<close>

definition mssp_filled where
  "mssp_filled pre i vals D res \<longleftrightarrow>
     (\<exists>mem' vals'. res = (mem', Some vals') \<and> take (length pre) mem' = pre \<and> length vals' = length vals \<and>
        take i vals' = take i vals \<and> map (mssp_resolve mem') (take (length D) (drop i vals')) = map mssp_c D \<and>
        drop (i + length D) vals' = drop (i + length D) vals)"

lemma mssp_filled_step:
  assumes "mssp_filled (pre @ xs) (Suc i) (vals[i := Some (off, off')]) D res" and "i < length vals"
    and "names_text (pre @ xs) off v" and "names_text (pre @ xs) off' u"
  shows "mssp_filled pre i vals ((v, u) # D) res"
proof -
  obtain mem' vals' where h: "res = (mem', Some vals')" "take (length (pre @ xs)) mem' = pre @ xs"
    "length vals' = length vals" "take (Suc i) vals' = take (Suc i) (vals[i := Some (off, off')])"
    "map (mssp_resolve mem') (take (length D) (drop (Suc i) vals')) = map mssp_c D"
    "drop (Suc i + length D) vals' = drop (Suc i + length D) (vals[i := Some (off, off')])"
    using assms(1) by (auto simp: mssp_filled_def)
  have i: "i < length vals'" using h(3) assms(2) by simp
  have "vals' ! i = take (Suc i) vals' ! i" by simp
  also have "\<dots> = Some (off, off')" using h(4) assms(2) by simp
  finally have vi: "vals' ! i = Some (off, off')" .
  have "mssp_resolve mem' (Some (off, off')) = mssp_c (v, u)"
    using assms(3,4) h(2) by (simp add: mssp_resolve_def mssp_c_def names_text_def)
  moreover have "drop i vals' = Some (off, off') # drop (Suc i) vals'"
    using vi i Cons_nth_drop_Suc by metis
  moreover have "take i vals' = take i vals"
    using arg_cong [OF h(4), of "take i"] assms(2) by (simp add: min_def)
  moreover have "take (length pre) mem' = pre" using h(2) by (rule take_eq_prefix)
  ultimately show ?thesis using h by (auto simp: mssp_filled_def)
qed

lemma mssp_filled_name: "mssp_filled (pre @ xs) i vals D res \<Longrightarrow> mssp_filled pre i vals D res"
  unfolding mssp_filled_def using take_eq_prefix by blast

lemma mssp_loop_correct:
  assumes "gap \<noteq> []" and "sz = length pre + length gap + length bs" and "mssp_marker ty"
    and "ty = TELNET_MSSP_VAL \<Longrightarrow> \<exists>off. var = Some off \<and> names_text pre off v"
    and "i + length (mssp_decode ty v bs) \<le> length vals"
  shows "mssp_filled pre i vals (mssp_decode ty v bs)
    (mssp_loop (pre @ gap @ bs @ post) (length pre + length gap) (length pre) (length pre) ty var i vals sz)"
  using assms
proof (induction "length bs" arbitrary: bs pre gap ty var i vals v rule: less_induct)
  case less
  show ?case
  proof (cases "bs = []")
    case True
    then show ?thesis using less.prems(2)
      by (simp add: mssp_loop_done mssp_decode.simps mssp_filled_def)
  next
    case False
    define u r where ur: "u = takeWhile (\<lambda>b. \<not> mssp_marker b) bs" "r = dropWhile (\<lambda>b. \<not> mssp_marker b) bs"
    obtain g gs where g: "length (g # gs) = length gap"
      "mssp_copy (pre @ gap @ bs @ post) (length pre + length gap) (length pre) sz =
        (pre @ u @ (g # gs) @ r @ post, length pre + length u + length (g # gs), length pre + length u)"
      using mssp_copy_correct [OF less.prems(1,2)] unfolding ur by blast
    have szr: "sz = length pre + length u + length (g # gs) + length r"
      using g(1) less.prems(2) arg_cong [OF takeWhile_dropWhile_id [of "\<lambda>b. \<not> mssp_marker b" bs], of length]
      unfolding ur length_append by linarith
    let ?pre = "pre @ u @ [0]" and ?nt = "hd (r @ [0])" and ?mem = "(pre @ u @ [0]) @ gs @ r @ post"
    have upd: "(pre @ u @ (g # gs) @ r @ post)[length pre + length u := 0] = ?mem"
      using list_update_append [of "pre @ u"] by simp
    let ?c = "length pre + length u + length (g # gs)"
    have lt: "length pre + length gap < sz" using less.prems(2) False by simp
    have nt: "(if ?c < sz then ?mem ! ?c else 0) = ?nt"
      using szr by (cases r) (simp_all add: nth_append)
    have rec: "mssp_filled ?pre j ws (mssp_decode ?nt w (drop 1 r))
        (mssp_loop ?mem (?c + 1) (length ?pre) (length ?pre) ?nt var' j ws sz)"
      if "\<exists>off. var' = Some off \<and> names_text ?pre off w"
        and "j + length (mssp_decode ?nt w (drop 1 r)) \<le> length ws" for w var' j ws
    proof (cases r)
      case Nil
      then show ?thesis using szr by (simp add: mssp_loop_done mssp_decode.simps mssp_filled_def)
    next
      case (Cons m r')
      have "mssp_marker m" using Cons ur(2) hd_dropWhile [of "\<lambda>b. \<not> mssp_marker b" bs] by auto
      moreover have "length r' < length bs"
        using Cons ur(2) length_dropWhile_le [of "\<lambda>b. \<not> mssp_marker b" bs] by simp
      ultimately show ?thesis
        using less.hyps [of r' "gs @ [m]" ?pre m var' w j ws] that Cons szr by simp
    qed
    show ?thesis
    proof (cases "ty = TELNET_MSSP_VAR")
      case True
      have d: "mssp_decode ty v bs = mssp_decode ?nt u (drop 1 r)"
        using True False by (subst mssp_decode.simps) (simp add: ur Let_def)
      have "mssp_filled ?pre i vals (mssp_decode ?nt u (drop 1 r))
          (mssp_loop ?mem (?c + 1) (length ?pre) (length ?pre) ?nt (Some (length pre)) i vals sz)"
        using rec names_text_new less.prems(5) d by auto
      moreover have "mssp_loop (pre @ gap @ bs @ post) (length pre + length gap) (length pre) (length pre) ty var i vals sz
          = mssp_loop ?mem (?c + 1) (length ?pre) (length ?pre) ?nt (Some (length pre)) i vals sz"
        using mssp_loop_step(1) [OF lt g(2) upd nt, of "length pre" var i vals] True by simp
      ultimately show ?thesis unfolding d using mssp_filled_name [of pre "u @ [0]"] by simp
    next
      case nv: False
      then have ty: "ty = TELNET_MSSP_VAL" using less.prems(3) by (simp add: mssp_marker_def)
      obtain off where off: "var = Some off" "names_text pre off v" using less.prems(4) ty by auto
      let ?ws = "vals[i := Some (off, length pre)]"
      have d: "mssp_decode ty v bs = (v, u) # mssp_decode ?nt v (drop 1 r)"
        using nv False by (subst mssp_decode.simps) (simp add: ur Let_def)
      have "mssp_filled ?pre (Suc i) ?ws (mssp_decode ?nt v (drop 1 r))
          (mssp_loop ?mem (?c + 1) (length ?pre) (length ?pre) ?nt var (Suc i) ?ws sz)"
        using rec off names_text_mono less.prems(5) d by auto
      then have "mssp_filled pre i vals ((v, u) # mssp_decode ?nt v (drop 1 r))
          (mssp_loop ?mem (?c + 1) (length ?pre) (length ?pre) ?nt var (Suc i) ?ws sz)"
        using mssp_filled_step [of pre "u @ [0]" i vals off "length pre"] names_text_mono [OF off(2)]
          names_text_new [of pre u] less.prems(5) d by simp
      moreover have "mssp_loop (pre @ gap @ bs @ post) (length pre + length gap) (length pre) (length pre) ty var i vals sz
          = mssp_loop ?mem (?c + 1) (length ?pre) (length ?pre) ?nt var (Suc i) ?ws sz"
        using mssp_loop_step(2) [OF lt g(2) upd nt, of "length pre" off i vals] ty off(1) by simp
      ultimately show ?thesis unfolding d by simp
    qed
  qed
qed

lemma mssp_text_VAL: "TELNET_MSSP_VAL \<notin> set (takeWhile (\<lambda>b. \<not> mssp_marker b) bs)"
  by (auto simp: mssp_marker_def dest: set_takeWhileD)

lemma count_VAL_split:
  "length (filter (\<lambda>b. b = TELNET_MSSP_VAL) bs) =
     length (filter (\<lambda>b. b = TELNET_MSSP_VAL) (dropWhile (\<lambda>b. \<not> mssp_marker b) bs))"
proof -
  let ?P = "\<lambda>b. \<not> mssp_marker b"
  have "filter (\<lambda>b. b = TELNET_MSSP_VAL) (takeWhile ?P bs) = []"
    using mssp_text_VAL [of bs] by (auto simp: filter_empty_conv)
  then show ?thesis
    using arg_cong [OF takeWhile_dropWhile_id [of ?P bs], of "filter (\<lambda>b. b = TELNET_MSSP_VAL)"]
    by (metis append_Nil filter_append)
qed

text \<open>Every VAL marker gives a pair, except one that ends the payload.\<close>

definition mssp_lost :: "byte \<Rightarrow> byte list \<Rightarrow> nat" where
  "mssp_lost ty bs = (if last (ty # bs) = TELNET_MSSP_VAL then 1 else 0)"

lemma length_mssp_decode:
  assumes "mssp_marker ty"
  shows "length (filter (\<lambda>b. b = TELNET_MSSP_VAL) (ty # bs)) = length (mssp_decode ty v bs) + mssp_lost ty bs"
  using assms
proof (induction "length bs" arbitrary: bs ty v rule: less_induct)
  case less
  show ?case
  proof (cases "bs = []")
    case True
    then show ?thesis by (simp add: mssp_decode.simps mssp_lost_def)
  next
    case False
    define r where r: "r = dropWhile (\<lambda>b. \<not> mssp_marker b) bs"
    have cnt: "length (filter (\<lambda>b. b = TELNET_MSSP_VAL) bs) = length (filter (\<lambda>b. b = TELNET_MSSP_VAL) r)"
      unfolding r by (rule count_VAL_split)
    have dec: "length (mssp_decode ty v bs) =
        (if ty = TELNET_MSSP_VAR then length (mssp_decode (hd (r @ [0])) (takeWhile (\<lambda>b. \<not> mssp_marker b) bs) (drop 1 r))
         else Suc (length (mssp_decode (hd (r @ [0])) v (drop 1 r))))"
      using False by (subst mssp_decode.simps) (simp add: r Let_def)
    show ?thesis
    proof (cases r)
      case Nil
      have "last bs \<noteq> TELNET_MSSP_VAL"
        using Nil False r by (auto simp: dropWhile_eq_Nil_conv mssp_marker_def dest: last_in_set)
      then show ?thesis using Nil cnt dec less.prems False
        by (auto simp: mssp_decode.simps mssp_lost_def mssp_marker_def)
    next
      case (Cons m r')
      have m: "mssp_marker m" using Cons r hd_dropWhile [of "\<lambda>b. \<not> mssp_marker b" bs] by auto
      have len: "length r' < length bs"
        using Cons r length_dropWhile_le [of "\<lambda>b. \<not> mssp_marker b" bs] by simp
      have lst: "last bs = last r"
        using Cons r takeWhile_dropWhile_id [of "\<lambda>b. \<not> mssp_marker b" bs] by (metis last_appendR list.discI)
      show ?thesis
        using less.hyps [OF len m, of v] less.hyps [OF len m, of "takeWhile (\<lambda>b. \<not> mssp_marker b) bs"]
          cnt dec Cons less.prems False lst
        by (auto simp: mssp_lost_def mssp_marker_def)
    qed
  qed
qed

definition mssp_null :: telnet_environ where
  "mssp_null = \<lparr>env_type = 0, env_var = None, env_value = None\<rparr>"

lemma mssp_telnet_decodes:
  assumes "tn_buffer t = (TELNET_MSSP_VAR # bs) @ post" and "tn_buffer_pos t = Suc (length bs)"
    and "fst (alloc t)"
  shows "fst (t_mssp_telnet t) = 0 \<and>
    tn_events (snd (t_mssp_telnet t)) = tn_events t @
      [EV_MSSP (map mssp_c (mssp_decode TELNET_MSSP_VAR [] bs) @
                replicate (mssp_lost TELNET_MSSP_VAR bs) mssp_null)]"
proof -
  let ?D = "mssp_decode TELNET_MSSP_VAR [] bs"
  let ?count = "length (filter (\<lambda>b. b = TELNET_MSSP_VAL) (TELNET_MSSP_VAR # bs))"
  have cnt: "?count = length ?D + mssp_lost TELNET_MSSP_VAR bs"
    by (rule length_mssp_decode) (simp add: mssp_marker_def)
  obtain mem' vals' where h:
    "mssp_loop (TELNET_MSSP_VAR # bs @ post) 1 0 0 TELNET_MSSP_VAR None 0 (replicate ?count None) (Suc (length bs))
      = (mem', Some vals')" "length vals' = ?count"
    "map (mssp_resolve mem') (take (length ?D) vals') = map mssp_c ?D"
    "drop (length ?D) vals' = replicate (mssp_lost TELNET_MSSP_VAR bs) None"
    using mssp_loop_correct [of "[TELNET_MSSP_VAR]" "Suc (length bs)" "[]" bs TELNET_MSSP_VAR None "[]" 0
        "replicate ?count None" post] cnt
    by (auto simp: mssp_filled_def mssp_marker_def)
  have "map (mssp_resolve mem') vals' =
      map (mssp_resolve mem') (take (length ?D) vals') @ map (mssp_resolve mem') (drop (length ?D) vals')"
    by (simp flip: map_append)
  then have r: "map (mssp_resolve mem') vals' = map mssp_c ?D @ replicate (mssp_lost TELNET_MSSP_VAR bs) mssp_null"
    using h(3,4) by (simp add: mssp_resolve_def mssp_null_def)
  obtain t1 where "alloc t = (True, t1)" using assms(3) by (cases "alloc t") auto
  then show ?thesis
    using assms(1,2) h(1) r alloc_eqD(10) [of t True t1] by (simp add: t_mssp_telnet_def Let_def)
qed

section \<open>ZMP arguments\<close>

lemma cstr_terminated: "0 \<notin> set a \<Longrightarrow> cstr (a @ 0 # bs) 0 = a"
  by (auto simp: cstr_def takeWhile_tail)

lemma zmp_split_args:
  assumes "\<forall>a \<in> set args. 0 \<notin> set a"
  shows "zmp_count (concat (map (\<lambda>a. a @ [0]) args)) = length args \<and>
    zmp_populate (length args) (concat (map (\<lambda>a. a @ [0]) args)) = args"
  using assms
proof (induction args)
  case Nil
  then show ?case by (simp add: zmp_count.simps)
next
  case (Cons a args)
  then have "cstr (concat (map (\<lambda>a. a @ [0]) (a # args))) 0 = a" by (simp add: cstr_terminated)
  with Cons show ?case by (subst zmp_count.simps) simp
qed

text \<open>A frame that passes the check splits into strings that spell it exactly.\<close>

lemma zmp_populate_spells:
  assumes "bs = [] \<or> last bs = 0"
  shows "concat (map (\<lambda>a. a @ [0]) (zmp_populate (zmp_count bs) bs)) = bs"
  using assms
proof (induction bs rule: zmp_count.induct)
  case (1 bs)
  show ?case
  proof (cases "bs = []")
    case True
    then show ?thesis by (simp add: zmp_count.simps)
  next
    case False
    define n where "n = length (cstr bs 0)"
    have "0 \<in> set bs" using False "1.prems" last_in_set by metis
    then have r: "dropWhile (\<lambda>b. b \<noteq> 0) bs \<noteq> []" by (auto simp: dropWhile_eq_Nil_conv)
    have h: "hd (dropWhile (\<lambda>b. b \<noteq> 0) bs) = 0" using hd_dropWhile [OF r] by simp
    have dn: "drop n bs = dropWhile (\<lambda>b. b \<noteq> 0) bs"
      by (simp add: n_def cstr_def dropWhile_eq_drop)
    have split: "bs = cstr bs 0 @ 0 # drop (n + 1) bs"
      using takeWhile_dropWhile_id [of "\<lambda>b. b \<noteq> 0" bs] r h dn
      by (metis cstr_def drop_0 drop_Suc tl_drop list.collapse Suc_eq_plus1)
    have "drop (n + 1) bs = [] \<or> last (drop (n + 1) bs) = 0"
      using "1.prems" False by (cases "drop (n + 1) bs = []") auto
    then have "concat (map (\<lambda>a. a @ [0]) (zmp_populate (zmp_count (drop (n + 1) bs)) (drop (n + 1) bs))) = drop (n + 1) bs"
      using "1.IH" [OF False] by (simp add: n_def)
    then show ?thesis using False split
      by (subst zmp_count.simps) (simp add: n_def)
  qed
qed

section \<open>What the parsers leave alone\<close>

lemma zmp_ttype_frame [simp]:
  "tn_state (snd (t_zmp_telnet t)) = tn_state t" "tn_state (snd (t_ttype_telnet t)) = tn_state t"
  by (auto simp: t_zmp_telnet_def t_ttype_telnet_def t_error_def Let_def
      dest: alloc_eqD split: prod.splits)

lemma environ_mssp_frame [simp]:
  "tn_state (snd (t_environ_telnet ty t)) = tn_state t" "tn_state (snd (t_mssp_telnet t)) = tn_state t"
  by (auto simp: t_environ_telnet_def t_mssp_telnet_def environ_warn_def mssp_warn_def t_error_def Let_def
      dest: alloc_eqD split: prod.splits option.splits)

lemma subnegotiate_state [simp]: "tn_state (snd (t_subnegotiate t)) = tn_state t"
  by (simp add: t_subnegotiate_def Let_def)

lemma subnegotiate_zero:
  "tn_sb_telopt t \<noteq> TELNET_TELOPT_ENVIRON \<Longrightarrow> tn_sb_telopt t \<noteq> TELNET_TELOPT_NEW_ENVIRON \<Longrightarrow>
   fst (t_subnegotiate t) = 0"
  by (auto simp: t_subnegotiate_def t_zmp_telnet_def t_ttype_telnet_def t_mssp_telnet_def mssp_warn_def
      Let_def split: prod.splits option.splits)

lemma length_mssp_copy: "length (fst (mssp_copy mem c out sz)) = length mem"
  by (induction mem c out sz rule: mssp_copy.induct) (subst mssp_copy.simps, auto)

lemma length_mssp_loop: "length (fst (mssp_loop mem c out lst ty var i vals sz)) = length mem"
proof (induction mem c out lst ty var i vals sz rule: mssp_loop.induct)
  case (1 mem c out lst ty var i vals sz)
  obtain mem1 c1 out1 where e: "mssp_copy mem c out sz = (mem1, c1, out1)"
    by (cases "mssp_copy mem c out sz") auto
  have l: "length mem1 = length mem" using length_mssp_copy e by (metis fst_conv)
  show ?case
  proof (cases "c < sz")
    case True
    note ih = "1.IH" [OF True e [symmetric] refl refl refl refl]
    show ?thesis
      using True e l ih by (subst mssp_loop.simps) (auto simp: Let_def split: option.split)
  next
    case False
    then show ?thesis by (subst mssp_loop.simps) simp
  qed
qed

lemmas parser_frame_defs = t_zmp_telnet_def t_ttype_telnet_def t_environ_telnet_def t_mssp_telnet_def
  environ_warn_def mssp_warn_def t_error_def Let_def

lemma parsers_frame:
  "tn_q (snd (t_zmp_telnet t)) = tn_q t" "tn_q_size (snd (t_zmp_telnet t)) = tn_q_size t"
  "tn_buffer_size (snd (t_zmp_telnet t)) = tn_buffer_size t" "tn_buffer_pos (snd (t_zmp_telnet t)) = tn_buffer_pos t"
  "length (tn_buffer (snd (t_zmp_telnet t))) = length (tn_buffer t)"
  "tn_q (snd (t_ttype_telnet t)) = tn_q t" "tn_q_size (snd (t_ttype_telnet t)) = tn_q_size t"
  "tn_buffer_size (snd (t_ttype_telnet t)) = tn_buffer_size t" "tn_buffer_pos (snd (t_ttype_telnet t)) = tn_buffer_pos t"
  "length (tn_buffer (snd (t_ttype_telnet t))) = length (tn_buffer t)"
  "tn_q (snd (t_environ_telnet ty t)) = tn_q t" "tn_q_size (snd (t_environ_telnet ty t)) = tn_q_size t"
  "tn_buffer_size (snd (t_environ_telnet ty t)) = tn_buffer_size t" "tn_buffer_pos (snd (t_environ_telnet ty t)) = tn_buffer_pos t"
  "length (tn_buffer (snd (t_environ_telnet ty t))) = length (tn_buffer t)"
  "tn_q (snd (t_mssp_telnet t)) = tn_q t" "tn_q_size (snd (t_mssp_telnet t)) = tn_q_size t"
  "tn_buffer_size (snd (t_mssp_telnet t)) = tn_buffer_size t" "tn_buffer_pos (snd (t_mssp_telnet t)) = tn_buffer_pos t"
  "length (tn_buffer (snd (t_mssp_telnet t))) = length (tn_buffer t)"
  by (simp_all add: parser_frame_defs split_beta length_environ_entries length_mssp_loop split: option.split)

end
