(* ===== verification/Telnet_Process.thy ===== *)
theory Telnet_Process
  imports Telnet_Negotiation Telnet_Subneg
begin

text \<open>
  The receiving side: the subnegotiation buffer (\<^verbatim>\<open>_buffer_byte\<close>), the protocol parser (\<^verbatim>\<open>_process\<close>) and
  \<^verbatim>\<open>telnet_recv\<close>. The parser is shown to behave like a machine that takes one byte at a time, so that
  the way the stream is cut into receive calls does not matter.
\<close>

section \<open>The subnegotiation buffer\<close>

definition buffer_sizes :: "nat list" where
  "buffer_sizes = [0, 512, 2048, 8192, 16384]"

fun size_index :: "nat list \<Rightarrow> nat \<Rightarrow> nat" where
  "size_index [] n = 0"
| "size_index (s # ss) n = (if s = n then 0 else Suc (size_index ss n))"

definition buffer_push :: "byte \<Rightarrow> telnet \<Rightarrow> telnet" where
  "buffer_push b t =
     t\<lparr>tn_buffer := (tn_buffer t)[tn_buffer_pos t := b], tn_buffer_pos := tn_buffer_pos t + 1\<rparr>"

definition t_buffer_byte :: "byte \<Rightarrow> telnet \<Rightarrow> telnet_error \<times> telnet" where
  "t_buffer_byte b t =
     (if tn_buffer_pos t = tn_buffer_size t then
        (let i = size_index buffer_sizes (tn_buffer_size t) in
         if i \<ge> length buffer_sizes - 1 then
           t_error ''_buffer_byte'' TELNET_EOVERFLOW False ''subnegotiation buffer size limit reached'' t
         else
           (let (ok, t1) = alloc t; n = buffer_sizes ! (i + 1)
            in if \<not> ok then t_error ''_buffer_byte'' TELNET_ENOMEM False ''realloc() failed'' t1
               else
                 (TELNET_EOK,
                  buffer_push b
                    (t1\<lparr>tn_buffer := tn_buffer t1 @ replicate (n - length (tn_buffer t1)) 0,
                        tn_buffer_size := n\<rparr>))))
      else (TELNET_EOK, buffer_push b t))"

section \<open>The parser\<close>

text \<open>
  A DATA event for the bytes from \<open>start\<close> up to \<open>i\<close>; its size is the \<^verbatim>\<open>size_t\<close> difference.
\<close>

definition ev_data :: "byte list \<Rightarrow> nat \<Rightarrow> nat \<Rightarrow> telnet_event" where
  "ev_data buf start i = EV_DATA (drop start (take i buf)) (of_nat i - of_nat start)"

text \<open>The byte after an IAC: the new tracker and the new value of \<open>start\<close>.\<close>

definition process_iac :: "byte \<Rightarrow> nat \<Rightarrow> nat \<Rightarrow> telnet \<Rightarrow> telnet \<times> nat" where
  "process_iac b i start t =
     (if b = TELNET_SB then (t\<lparr>tn_state := STATE_SB\<rparr>, start)
      else if b = TELNET_WILL then (t\<lparr>tn_state := STATE_WILL\<rparr>, start)
      else if b = TELNET_WONT then (t\<lparr>tn_state := STATE_WONT\<rparr>, start)
      else if b = TELNET_DO then (t\<lparr>tn_state := STATE_DO\<rparr>, start)
      else if b = TELNET_DONT then (t\<lparr>tn_state := STATE_DONT\<rparr>, start)
      else if b = TELNET_IAC then ((emit (EV_DATA [b] 1) t)\<lparr>tn_state := STATE_DATA\<rparr>, i + 1)
      else ((emit (EV_IAC b) t)\<lparr>tn_state := STATE_DATA\<rparr>, i + 1))"

definition t_sb_warning :: "byte \<Rightarrow> telnet \<Rightarrow> telnet" where
  "t_sb_warning b t = snd (t_error ''_process'' TELNET_EPROTOCOL False
     (''unexpected byte after IAC inside SB: '' @ dec_nat (unat b)) t)"

text \<open>
  \<^verbatim>\<open>_process\<close> from loop index \<open>i\<close> on. The re-entries through \<^verbatim>\<open>telnet_recv\<close> on the rest of the buffer are
  calls of the function itself, which is what \<^verbatim>\<open>telnet_recv\<close> does in this build.
\<close>

function t_process :: "telnet \<Rightarrow> byte list \<Rightarrow> nat \<Rightarrow> nat \<Rightarrow> telnet" where
  "t_process t buf i start =
     (if i < length buf then
        (let b = buf ! i in
         case tn_state t of
           STATE_DATA \<Rightarrow>
             (if b = TELNET_IAC then
                (let t1 = (if i \<noteq> start then emit (ev_data buf start i) t else t)
                 in t_process (t1\<lparr>tn_state := STATE_IAC\<rparr>) buf (i + 1) start)
              else t_process t buf (i + 1) start)
         | STATE_IAC \<Rightarrow>
             (let (t1, start1) = process_iac b i start t in t_process t1 buf (i + 1) start1)
         | STATE_SB \<Rightarrow>
             t_process (t\<lparr>tn_sb_telopt := b, tn_buffer_pos := 0, tn_state := STATE_SB_DATA\<rparr>)
               buf (i + 1) start
         | STATE_SB_DATA \<Rightarrow>
             (if b = TELNET_IAC then t_process (t\<lparr>tn_state := STATE_SB_DATA_IAC\<rparr>) buf (i + 1) start
              else if tn_sb_telopt t = TELNET_TELOPT_COMPRESS \<and> b = TELNET_WILL then
                t_process (t\<lparr>tn_state := STATE_DATA\<rparr>) buf (i + 1) (i + 2)
              else
                (let (e, t1) = t_buffer_byte b t in
                 if e \<noteq> TELNET_EOK then t_process (t1\<lparr>tn_state := STATE_DATA\<rparr>) buf (i + 1) (i + 1)
                 else t_process t1 buf (i + 1) start))
         | STATE_SB_DATA_IAC \<Rightarrow>
             (if b = TELNET_SE then
                (let (rc, t1) = t_subnegotiate (t\<lparr>tn_state := STATE_DATA\<rparr>) in
                 if rc \<noteq> 0 then t_process t1 (drop (i + 1) buf) 0 0
                 else t_process t1 buf (i + 1) (i + 1))
              else if b = TELNET_IAC then
                (let (e, t1) = t_buffer_byte TELNET_IAC t in
                 if e \<noteq> TELNET_EOK then t_process (t1\<lparr>tn_state := STATE_DATA\<rparr>) buf (i + 1) (i + 1)
                 else t_process (t1\<lparr>tn_state := STATE_SB_DATA\<rparr>) buf (i + 1) start)
              else
                (let t1 = t_sb_warning b t;
                     (rc, t2) = t_subnegotiate (t1\<lparr>tn_state := STATE_IAC\<rparr>) in
                 if rc \<noteq> 0 then t_process t2 (drop (i + 1) buf) 0 0
                 else t_process (t_process t2 [b] 0 0) buf (i + 1) (i + 1)))
         | _ \<Rightarrow> t_process ((t_negotiate b t)\<lparr>tn_state := STATE_DATA\<rparr>) buf (i + 1) (i + 1))
      else if tn_state t = STATE_DATA \<and> i \<noteq> start then emit (ev_data buf start i) t
      else t)"
  by pat_completeness auto
termination
proof (relation "measures [\<lambda>(t, buf, i, start). length buf - i,
    \<lambda>(t, buf, i, start). if tn_state t = STATE_SB_DATA_IAC then 1 else 0]", goal_cases)
  case 1
  show ?case by simp
qed (auto dest: arg_cong [of _ _ "tn_state \<circ> snd"])

declare t_process.simps [simp del]

definition telnet_recv :: "byte list \<Rightarrow> telnet \<Rightarrow> telnet" where
  "telnet_recv buf t = t_process t buf 0 0"

section \<open>Operations that only add events\<close>

text \<open>
  Nothing in the library reads the events it has reported: an operation acts on the tracker without
  them and puts its own at the end.
\<close>

definition after_events :: "telnet_event list \<Rightarrow> telnet \<Rightarrow> telnet" where
  "after_events E t = t\<lparr>tn_events := E @ tn_events t\<rparr>"

definition no_events :: "telnet \<Rightarrow> telnet" where
  "no_events t = t\<lparr>tn_events := []\<rparr>"

lemma no_events_fields [simp]:
  "tn_telopts (no_events t) = tn_telopts t" "tn_q (no_events t) = tn_q t"
  "tn_q_size (no_events t) = tn_q_size t" "tn_buffer (no_events t) = tn_buffer t"
  "tn_buffer_size (no_events t) = tn_buffer_size t" "tn_buffer_pos (no_events t) = tn_buffer_pos t"
  "tn_state (no_events t) = tn_state t" "tn_flags (no_events t) = tn_flags t"
  "tn_sb_telopt (no_events t) = tn_sb_telopt t" "tn_events (no_events t) = []"
  "tn_allocs (no_events t) = tn_allocs t" "tn_strerror (no_events t) = tn_strerror t"
  by (simp_all add: no_events_def)

lemma after_events_fields [simp]:
  "tn_telopts (after_events E t) = tn_telopts t" "tn_q (after_events E t) = tn_q t"
  "tn_q_size (after_events E t) = tn_q_size t" "tn_buffer (after_events E t) = tn_buffer t"
  "tn_buffer_size (after_events E t) = tn_buffer_size t" "tn_buffer_pos (after_events E t) = tn_buffer_pos t"
  "tn_state (after_events E t) = tn_state t" "tn_flags (after_events E t) = tn_flags t"
  "tn_sb_telopt (after_events E t) = tn_sb_telopt t" "tn_events (after_events E t) = E @ tn_events t"
  "tn_allocs (after_events E t) = tn_allocs t" "tn_strerror (after_events E t) = tn_strerror t"
  by (simp_all add: after_events_def)

lemma after_events_no_events [simp]: "after_events (tn_events t) (no_events t) = t"
  by (simp add: after_events_def no_events_def)

lemma after_events_append [simp]: "after_events E (after_events F t) = after_events (E @ F) t"
  by (simp add: after_events_def)

lemma no_events_after [simp]: "no_events (after_events E t) = no_events t"
  by (simp add: after_events_def no_events_def)

lemma no_events_idle: "tn_events t = [] \<Longrightarrow> no_events t = t"
  by (simp add: no_events_def)

lemma no_events_sent [simp]: "no_events (t\<lparr>tn_events := es\<rparr>) = no_events t"
  by (simp add: no_events_def)

lemma events_split: "t = after_events (tn_events t) (no_events t)"
  by simp

lemma emit_after [simp]: "emit ev (after_events E t) = after_events E (emit ev t)"
  by (simp add: emit_def after_events_def)

lemma updates_after [simp]:
  "tn_state_update f (after_events E t) = after_events E (tn_state_update f t)"
  "tn_sb_telopt_update g (after_events E t) = after_events E (tn_sb_telopt_update g t)"
  "tn_buffer_pos_update h (after_events E t) = after_events E (tn_buffer_pos_update h t)"
  "tn_buffer_size_update h (after_events E t) = after_events E (tn_buffer_size_update h t)"
  "tn_buffer_update k (after_events E t) = after_events E (tn_buffer_update k t)"
  "tn_q_update m (after_events E t) = after_events E (tn_q_update m t)"
  "tn_q_size_update g (after_events E t) = after_events E (tn_q_size_update g t)"
  by (simp_all add: after_events_def)

lemma alloc_after [simp]: "alloc (after_events E t) = (fst (alloc t), after_events E (snd (alloc t)))"
  by (simp add: alloc_def after_events_def split: list.split)

lemma reads_after [simp]:
  "q_used (after_events E t) = q_used t" "t_get_rfc1143 (after_events E t) = t_get_rfc1143 t"
  "t_check_telopt (after_events E t) = t_check_telopt t" "t_proxy (after_events E t) = t_proxy t"
  by (simp_all add: fun_eq_iff q_used_def t_get_rfc1143_def t_check_telopt_def t_proxy_def split: option.split)

lemma set_after [simp]: "t_set_rfc1143 opt us him (after_events E t) = after_events E (t_set_rfc1143 opt us him t)"
  by (simp add: t_set_rfc1143_def t_error_def split_beta Let_def split: option.split)

lemma negotiate_after [simp]: "t_negotiate opt (after_events E t) = after_events E (t_negotiate opt t)"
  by (simp add: t_negotiate_def t_proxy_negotiate_def neg_case_defs neg_emit_defs Let_def
      split: telnet_state.split)

lemma buffer_byte_after [simp]:
  "t_buffer_byte b (after_events E t) = (fst (t_buffer_byte b t), after_events E (snd (t_buffer_byte b t)))"
  by (simp add: t_buffer_byte_def t_error_def buffer_push_def split_beta Let_def)

lemma parsers_after [simp]:
  "t_zmp_telnet (after_events E t) = (fst (t_zmp_telnet t), after_events E (snd (t_zmp_telnet t)))"
  "t_ttype_telnet (after_events E t) = (fst (t_ttype_telnet t), after_events E (snd (t_ttype_telnet t)))"
  "t_environ_telnet ty (after_events E t) =
     (fst (t_environ_telnet ty t), after_events E (snd (t_environ_telnet ty t)))"
  "t_mssp_telnet (after_events E t) = (fst (t_mssp_telnet t), after_events E (snd (t_mssp_telnet t)))"
  by (simp_all add: t_zmp_telnet_def t_ttype_telnet_def t_environ_telnet_def t_mssp_telnet_def
      environ_warn_def mssp_warn_def t_error_def split_beta Let_def split: option.split)

lemma sb_warning_after [simp]: "t_sb_warning b (after_events E t) = after_events E (t_sb_warning b t)"
  by (simp add: t_sb_warning_def t_error_def)

lemma subnegotiate_after [simp]:
  "t_subnegotiate (after_events E t) = (fst (t_subnegotiate t), after_events E (snd (t_subnegotiate t)))"
  by (simp add: t_subnegotiate_def Let_def)

section \<open>The byte-at-a-time machine\<close>

definition feed :: "byte \<Rightarrow> telnet \<Rightarrow> telnet" where
  "feed b t =
     (case tn_state t of
        STATE_DATA \<Rightarrow> (if b = TELNET_IAC then t\<lparr>tn_state := STATE_IAC\<rparr> else emit (EV_DATA [b] 1) t)
      | STATE_IAC \<Rightarrow> fst (process_iac b 0 0 t)
      | STATE_SB \<Rightarrow> t\<lparr>tn_sb_telopt := b, tn_buffer_pos := 0, tn_state := STATE_SB_DATA\<rparr>
      | STATE_SB_DATA \<Rightarrow>
          (if b = TELNET_IAC then t\<lparr>tn_state := STATE_SB_DATA_IAC\<rparr>
           else if fst (t_buffer_byte b t) \<noteq> TELNET_EOK then (snd (t_buffer_byte b t))\<lparr>tn_state := STATE_DATA\<rparr>
           else snd (t_buffer_byte b t))
      | STATE_SB_DATA_IAC \<Rightarrow>
          (if b = TELNET_SE then snd (t_subnegotiate (t\<lparr>tn_state := STATE_DATA\<rparr>))
           else if b = TELNET_IAC then
             (snd (t_buffer_byte TELNET_IAC t))\<lparr>tn_state :=
                if fst (t_buffer_byte TELNET_IAC t) \<noteq> TELNET_EOK then STATE_DATA else STATE_SB_DATA\<rparr>
           else
             (let t1 = t_sb_warning b t;
                  (rc, t2) = t_subnegotiate (t1\<lparr>tn_state := STATE_IAC\<rparr>)
              in if rc \<noteq> 0 then t2 else fst (process_iac b 0 0 t2)))
      | _ \<Rightarrow> (t_negotiate b t)\<lparr>tn_state := STATE_DATA\<rparr>)"

text \<open>The start marker of MCCP version 1, which the parser treats apart: a WILL inside \<^verbatim>\<open>SB COMPRESS\<close>.\<close>

definition mccp1_marker :: "byte \<Rightarrow> telnet \<Rightarrow> bool" where
  "mccp1_marker b t \<longleftrightarrow>
     tn_state t = STATE_SB_DATA \<and> tn_sb_telopt t = TELNET_TELOPT_COMPRESS \<and> b = TELNET_WILL"

fun mccp1_free :: "telnet \<Rightarrow> byte list \<Rightarrow> bool" where
  "mccp1_free t [] = True"
| "mccp1_free t (b # bs) = (\<not> mccp1_marker b t \<and> mccp1_free (feed b t) bs)"

text \<open>Received data cut into single bytes, everything else as it is.\<close>

fun flat :: "telnet_event list \<Rightarrow> telnet_event list" where
  "flat [] = []"
| "flat (EV_DATA bs n # es) = map (\<lambda>b. EV_DATA [b] 1) bs @ flat es"
| "flat (e # es) = e # flat es"

text \<open>Two trackers in the same state, whose handlers saw the same events up to the cutting of data.\<close>

definition same_upto_cuts :: "telnet \<Rightarrow> telnet \<Rightarrow> bool" where
  "same_upto_cuts t u \<longleftrightarrow> no_events t = no_events u \<and> flat (tn_events t) = flat (tn_events u)"

lemma flat_append: "flat (xs @ ys) = flat xs @ flat ys"
  by (induction xs rule: flat.induct) simp_all

lemma process_iac_after [simp]:
  "process_iac b i s (after_events E t) = (after_events E (fst (process_iac b i s t)), snd (process_iac b i s t))"
  by (simp add: process_iac_def)

lemma feed_after [simp]: "feed b (after_events E t) = after_events E (feed b t)"
  by (simp add: feed_def split_beta Let_def split: telnet_state.split)

lemma mccp1_free_after [simp]: "mccp1_free (after_events E t) bs = mccp1_free t bs"
  by (induction bs arbitrary: t) (simp_all add: mccp1_marker_def)

lemma fold_feed_after: "fold feed bs (after_events E t) = after_events E (fold feed bs t)"
  by (induction bs arbitrary: t) simp_all

lemma same_refl [simp]: "same_upto_cuts t t"
  by (simp add: same_upto_cuts_def)

lemma same_sym: "same_upto_cuts t u \<Longrightarrow> same_upto_cuts u t"
  by (simp add: same_upto_cuts_def)

lemma same_trans [trans]: "same_upto_cuts t u \<Longrightarrow> same_upto_cuts u w \<Longrightarrow> same_upto_cuts t w"
  by (simp add: same_upto_cuts_def)

lemma same_appends:
  assumes f: "\<And>E t. f (after_events E t) = after_events E (f t)" and "same_upto_cuts t u"
  shows "same_upto_cuts (f t) (f u)"
proof -
  have "f t = after_events (tn_events t) (f (no_events t))" using f events_split [of t] by metis
  moreover have "f u = after_events (tn_events u) (f (no_events u))" using f events_split [of u] by metis
  ultimately show ?thesis using assms(2) by (simp add: same_upto_cuts_def flat_append)
qed

lemma same_fold_feed: "same_upto_cuts t u \<Longrightarrow> same_upto_cuts (fold feed bs t) (fold feed bs u)"
  by (rule same_appends) (simp add: fold_feed_after)

lemma same_mccp1_free: "same_upto_cuts t u \<Longrightarrow> mccp1_free t bs = mccp1_free u bs"
  using mccp1_free_after events_split by (metis same_upto_cuts_def)

section \<open>The parser refines it\<close>

text \<open>At the loop head in state DATA, the bytes from \<open>start\<close> to \<open>i\<close> are yet to be reported.\<close>

definition pending :: "telnet \<Rightarrow> byte list \<Rightarrow> nat \<Rightarrow> nat \<Rightarrow> telnet" where
  "pending t buf start i =
     (if tn_state t = STATE_DATA
      then t\<lparr>tn_events := tn_events t @ map (\<lambda>b. EV_DATA [b] 1) (drop start (take i buf))\<rparr> else t)"

lemma flat_singles: "flat (map (\<lambda>b. EV_DATA [b] 1) bs) = map (\<lambda>b. EV_DATA [b] 1) bs"
  by (induction bs) simp_all

lemma emit_pending:
  "tn_state t = STATE_DATA \<Longrightarrow> same_upto_cuts (emit (ev_data buf start i) t) (pending t buf start i)"
  by (simp add: same_upto_cuts_def pending_def ev_data_def emit_def no_events_def flat_append flat_singles)

lemma pending_same [simp]: "pending t buf i i = t"
  by (simp add: pending_def)

lemma pending_other: "tn_state t \<noteq> STATE_DATA \<Longrightarrow> pending t buf start i = t"
  by (simp add: pending_def)

lemma pending_snoc:
  assumes "tn_state t = STATE_DATA" and "start \<le> i" and "i < length buf" and "buf ! i \<noteq> TELNET_IAC"
  shows "pending t buf start (Suc i) = feed (buf ! i) (pending t buf start i)"
  using assms by (simp add: pending_def feed_def emit_def drop_take_snoc)

lemma process_iac_start:
  "tn_state (fst (process_iac b i s t)) = STATE_DATA \<Longrightarrow> tn_state t = STATE_IAC \<Longrightarrow> snd (process_iac b i s t) = i + 1"
  by (auto simp: process_iac_def split: if_splits)

lemma process_iac_fst: "fst (process_iac b i s t) = fst (process_iac b j s' t)"
  by (simp add: process_iac_def)

lemma process_single_iac:
  assumes "tn_state t = STATE_IAC"
  shows "t_process t [b] 0 0 = fst (process_iac b 0 0 t)"
proof -
  obtain t1 s1 where p: "process_iac b 0 0 t = (t1, s1)" by (cases "process_iac b 0 0 t")
  have "t_process t [b] 0 0 = t_process t1 [b] 1 s1"
    using assms p by (subst t_process.simps) simp
  also have "\<dots> = t1" using process_iac_start [of b 0 0 t] assms p by (subst t_process.simps) auto
  finally show ?thesis using p by simp
qed

text \<open>
  Outside of plain data one turn of the loop is one step of the machine; the loop then goes on, or
  starts afresh on the rest of the buffer.
\<close>

definition resumes :: "telnet \<Rightarrow> telnet \<Rightarrow> byte list \<Rightarrow> nat \<Rightarrow> bool" where
  "resumes res t buf i \<longleftrightarrow>
     (\<exists>start. res = t_process t buf (Suc i) start \<and> (tn_state t = STATE_DATA \<longrightarrow> start = Suc i)) \<or>
     res = t_process t (drop (Suc i) buf) 0 0"

lemma resumesI: "tn_state t = STATE_DATA \<longrightarrow> start = Suc i \<Longrightarrow> resumes (t_process t buf (Suc i) start) t buf i"
  by (auto simp: resumes_def)

lemma resumes_restart: "resumes (t_process t (drop (Suc i) buf) 0 0) t buf i"
  by (simp add: resumes_def)

lemma buffer_byte_state [simp]: "tn_state (snd (t_buffer_byte b t)) = tn_state t"
  by (auto simp: t_buffer_byte_def t_error_def buffer_push_def Let_def dest: alloc_eqD split: prod.splits)

lemma process_step_iac:
  assumes "i < length buf" and "tn_state t = STATE_IAC"
  shows "resumes (t_process t buf i start) (feed (buf ! i) t) buf i"
proof -
  obtain t1 s1 where p: "process_iac (buf ! i) i start t = (t1, s1)" by (cases "process_iac (buf ! i) i start t")
  have "t_process t buf i start = t_process t1 buf (i + 1) s1"
    using assms p by (subst t_process.simps) (simp add: Let_def)
  moreover have "feed (buf ! i) t = t1"
    using assms p process_iac_fst [of "buf ! i" 0 0 t i start] by (simp add: feed_def)
  moreover have "tn_state t1 = STATE_DATA \<longrightarrow> s1 = i + 1"
    using process_iac_start [of "buf ! i" i start t] assms p by auto
  ultimately show ?thesis by (simp add: resumesI)
qed

lemma process_step_neg:
  assumes "i < length buf" and "is_neg_state (tn_state t)"
  shows "resumes (t_process t buf i start) (feed (buf ! i) t) buf i"
proof -
  have "t_process t buf i start = t_process (feed (buf ! i) t) buf (i + 1) (i + 1)"
    using assms unfolding is_neg_state_def
    by (elim disjE) (subst t_process.simps, simp add: feed_def Let_def)+
  then show ?thesis by (simp add: resumes_def) blast
qed

lemma process_step_sb_data:
  assumes "i < length buf" and "tn_state t = STATE_SB_DATA" and "\<not> mccp1_marker (buf ! i) t"
  shows "resumes (t_process t buf i start) (feed (buf ! i) t) buf i"
proof -
  obtain e t1 where e: "t_buffer_byte (buf ! i) t = (e, t1)" by (cases "t_buffer_byte (buf ! i) t")
  have "\<exists>s. t_process t buf i start = t_process (feed (buf ! i) t) buf (i + 1) s \<and>
      (tn_state (feed (buf ! i) t) = STATE_DATA \<longrightarrow> s = i + 1)"
    using assms e buffer_byte_state [of "buf ! i" t]
    by (subst t_process.simps) (auto simp: feed_def Let_def mccp1_marker_def)
  then show ?thesis by (auto simp: resumes_def)
qed

lemma process_step_sb_iac:
  assumes "i < length buf" and "tn_state t = STATE_SB_DATA_IAC"
  shows "resumes (t_process t buf i start) (feed (buf ! i) t) buf i"
proof -
  let ?b = "buf ! i"
  consider "?b = TELNET_SE" | "?b = TELNET_IAC" | "?b \<noteq> TELNET_SE" "?b \<noteq> TELNET_IAC" by blast
  then show ?thesis
  proof cases
    case 1
    then have "t_process t buf i start =
        (if fst (t_subnegotiate (t\<lparr>tn_state := STATE_DATA\<rparr>)) \<noteq> 0
         then t_process (feed ?b t) (drop (i + 1) buf) 0 0 else t_process (feed ?b t) buf (i + 1) (i + 1))"
      using assms by (subst t_process.simps) (simp add: feed_def split_beta Let_def)
    then show ?thesis by (simp add: resumes_restart resumesI)
  next
    case 2
    obtain e t1 where e: "t_buffer_byte TELNET_IAC t = (e, t1)" by (cases "t_buffer_byte TELNET_IAC t")
    have "t_process t buf i start = t_process (feed ?b t) buf (i + 1) (if e \<noteq> TELNET_EOK then i + 1 else start)"
      using assms 2 e by (subst t_process.simps) (simp add: feed_def Let_def)
    moreover have "tn_state (feed ?b t) = (if e \<noteq> TELNET_EOK then STATE_DATA else STATE_SB_DATA)"
      using assms 2 e by (simp add: feed_def)
    ultimately show ?thesis by (auto intro: resumesI split: if_splits)
  next
    case 3
    let ?t1 = "t_sb_warning ?b t"
    obtain rc t2 where sub: "t_subnegotiate (?t1\<lparr>tn_state := STATE_IAC\<rparr>) = (rc, t2)"
      by (cases "t_subnegotiate (?t1\<lparr>tn_state := STATE_IAC\<rparr>)")
    have st: "tn_state t2 = STATE_IAC" using subnegotiate_state [of "?t1\<lparr>tn_state := STATE_IAC\<rparr>"] sub by simp
    have "t_process t buf i start =
        (if rc \<noteq> 0 then t_process (feed ?b t) (drop (i + 1) buf) 0 0
         else t_process (feed ?b t) buf (i + 1) (i + 1))"
      using assms 3 sub process_single_iac [OF st, of ?b]
      by (subst t_process.simps) (simp add: feed_def Let_def)
    then show ?thesis by (simp add: resumes_restart resumesI)
  qed
qed

lemma process_step:
  assumes "i < length buf" and "tn_state t \<noteq> STATE_DATA" and "\<not> mccp1_marker (buf ! i) t"
  shows "resumes (t_process t buf i start) (feed (buf ! i) t) buf i"
proof (cases "tn_state t")
  case STATE_SB
  then have "t_process t buf i start = t_process (feed (buf ! i) t) buf (i + 1) start"
    using assms(1) by (subst t_process.simps) (simp add: feed_def Let_def)
  moreover have "tn_state (feed (buf ! i) t) = STATE_SB_DATA" using STATE_SB by (simp add: feed_def)
  ultimately show ?thesis by (auto intro: resumesI)
qed (use assms process_step_iac process_step_neg process_step_sb_data process_step_sb_iac
     in \<open>simp_all add: is_neg_state_def\<close>)

lemma process_refines:
  assumes "tn_state t = STATE_DATA \<longrightarrow> start \<le> i" and "i \<le> length buf" and "mccp1_free t (drop i buf)"
  shows "same_upto_cuts (t_process t buf i start) (fold feed (drop i buf) (pending t buf start i))"
  using assms
proof (induction "length buf - i" arbitrary: t buf i start rule: less_induct)
  case less
  show ?case
  proof (cases "i < length buf")
    case False
    then have "drop i buf = []" by simp
    then show ?thesis
      using False emit_pending [of t buf start i] pending_other [of t buf start i]
      by (subst t_process.simps) auto
  next
    case True
    let ?b = "buf ! i"
    have d: "drop i buf = ?b # drop (i + 1) buf" using True by (simp add: Cons_nth_drop_Suc)
    have ih: "same_upto_cuts (t_process u buf (i + 1) s) (fold feed (drop (i + 1) buf) (pending u buf s (i + 1)))"
      if "tn_state u = STATE_DATA \<longrightarrow> s \<le> i + 1" "mccp1_free u (drop (i + 1) buf)" for u s
      using less.hyps [of buf "i + 1" u s] that True by simp
    show ?thesis
    proof (cases "tn_state t = STATE_DATA")
      case data: True
      show ?thesis
      proof (cases "?b = TELNET_IAC")
        case iac: True
        let ?t1 = "if i \<noteq> start then emit (ev_data buf start i) t else t"
        let ?u = "?t1\<lparr>tn_state := STATE_IAC\<rparr>"
        have "same_upto_cuts ?t1 (pending t buf start i)" using emit_pending data by simp
        then have s1: "same_upto_cuts ?u (feed ?b (pending t buf start i))"
          using same_appends [of "tn_state_update (\<lambda>_. STATE_IAC)"] data iac
          by (simp add: feed_def pending_def)
        have "mccp1_free (feed ?b t) (drop (i + 1) buf)" using less.prems(3) d by simp
        moreover have "?u = after_events (tn_events ?u) (no_events (feed ?b t))"
          using data iac by (simp add: feed_def after_events_def no_events_def emit_def)
        ultimately have "mccp1_free ?u (drop (i + 1) buf)"
          using mccp1_free_after events_split by metis
        then have "same_upto_cuts (t_process ?u buf (i + 1) start) (fold feed (drop (i + 1) buf) ?u)"
          using ih [of ?u start] by (simp add: pending_other)
        also have "same_upto_cuts \<dots> (fold feed (drop (i + 1) buf) (feed ?b (pending t buf start i)))"
          using s1 by (rule same_fold_feed)
        finally show ?thesis using True data iac d by (subst t_process.simps) (simp add: Let_def)
      next
        case plain: False
        have "mccp1_free t (drop (i + 1) buf)"
        proof -
          have "mccp1_free (feed ?b t) (drop (i + 1) buf)" using less.prems(3) d by simp
          moreover have "feed ?b t = after_events (tn_events (feed ?b t)) (no_events t)"
            using data plain by (simp add: feed_def emit_def after_events_def no_events_def)
          ultimately show ?thesis using mccp1_free_after events_split by metis
        qed
        then have "same_upto_cuts (t_process t buf (i + 1) start)
            (fold feed (drop (i + 1) buf) (pending t buf start (i + 1)))"
          using ih [of t start] less.prems(1) by auto
        then show ?thesis
          using True data plain d less.prems(1) pending_snoc [of t start i buf]
          by (subst t_process.simps) (simp add: Let_def)
      qed
    next
      case other: False
      have m: "\<not> mccp1_marker ?b t" "mccp1_free (feed ?b t) (drop (i + 1) buf)" using less.prems(3) d by simp_all
      have "same_upto_cuts (t_process (feed ?b t) buf (Suc i) s) (fold feed (drop (Suc i) buf) (feed ?b t))"
        if "tn_state (feed ?b t) = STATE_DATA \<longrightarrow> s = Suc i" for s
        using ih [of "feed ?b t" s] m(2) that
        by (cases "tn_state (feed ?b t) = STATE_DATA") (simp_all add: pending_other)
      moreover have "same_upto_cuts (t_process (feed ?b t) (drop (Suc i) buf) 0 0)
          (fold feed (drop (Suc i) buf) (feed ?b t))"
        using less.hyps [of "drop (Suc i) buf" 0 "feed ?b t" 0] m(2) True by simp
      ultimately have "same_upto_cuts (t_process t buf i start) (fold feed (drop (Suc i) buf) (feed ?b t))"
        using process_step [OF True other m(1), of start] unfolding resumes_def by metis
      then show ?thesis using d by (simp add: pending_other other)
    qed
  qed
qed

section \<open>Invariants of the tracker\<close>

text \<open>
  What a property of the tracker must satisfy so that no input can break it: the parser's own writes
  and each routine it calls keep it.
\<close>

locale tracker_invariant =
  fixes P :: "telnet \<Rightarrow> bool"
  assumes keeps_emit: "P t \<Longrightarrow> P (emit ev t)"
    and keeps_state: "P t \<Longrightarrow> P (t\<lparr>tn_state := s\<rparr>)"
    and keeps_sb: "P t \<Longrightarrow> P (t\<lparr>tn_sb_telopt := b, tn_buffer_pos := 0, tn_state := s\<rparr>)"
    and keeps_negotiate: "P t \<Longrightarrow> P (t_negotiate b t)"
    and keeps_buffer_byte: "P t \<Longrightarrow> P (snd (t_buffer_byte b t))"
    and keeps_subnegotiate: "P t \<Longrightarrow> P (snd (t_subnegotiate t))"
begin

lemma keeps_warning: "P t \<Longrightarrow> P (t_sb_warning b t)"
  by (simp add: t_sb_warning_def t_error_def keeps_emit)

lemma keeps_iac: "P t \<Longrightarrow> P (fst (process_iac b i s t))"
  by (simp add: process_iac_def keeps_emit keeps_state)

lemmas keeps = keeps_emit keeps_state keeps_sb keeps_negotiate keeps_buffer_byte keeps_subnegotiate
  keeps_warning keeps_iac

lemma keeps_feed: "P t \<Longrightarrow> P (feed b t)"
  by (simp add: feed_def keeps split_beta Let_def split: telnet_state.split)

lemma keeps_process: "P t \<Longrightarrow> P (t_process t buf i start)"
proof (induction "length buf - i" arbitrary: t buf i start rule: less_induct)
  case less
  show ?case
  proof (cases "i < length buf")
    case False
    then show ?thesis using less.prems by (subst t_process.simps) (simp add: keeps)
  next
    case True
    have ih: "P (t_process u buf (Suc i) s)" if "P u" for u s
      using less.hyps [of buf "Suc i" u s] that True by simp
    have restart: "P (t_process u (drop (Suc i) buf) 0 0)" if "P u" for u
      using less.hyps [of "drop (Suc i) buf" 0 u 0] that True by simp
    show ?thesis
    proof (cases "tn_state t = STATE_DATA \<or> mccp1_marker (buf ! i) t")
      case True
      then show ?thesis using \<open>i < length buf\<close> less.prems ih
        by (subst t_process.simps) (auto simp: mccp1_marker_def Let_def keeps)
    next
      case False
      then show ?thesis
        using process_step [OF True, of t start] keeps_feed [OF less.prems] ih restart
        unfolding resumes_def by metis
    qed
  qed
qed

lemma keeps_recv: "P t \<Longrightarrow> P (telnet_recv buf t)"
  by (simp add: telnet_recv_def keeps_process)

end

definition buffer_ok :: "telnet \<Rightarrow> bool" where
  "buffer_ok t \<longleftrightarrow> length (tn_buffer t) = tn_buffer_size t \<and> tn_buffer_pos t \<le> tn_buffer_size t \<and>
     tn_buffer_size t \<in> set buffer_sizes"

lemma size_index_less:
  "size_index ss n < length ss - 1 \<Longrightarrow>
   ss ! size_index ss n = n \<and> ss ! Suc (size_index ss n) \<in> set ss"
  by (induction ss n rule: size_index.induct) (auto simp: nth_Cons split: nat.splits if_splits)

lemma buffer_sizes_grow:
  "i < length buffer_sizes - 1 \<Longrightarrow> buffer_sizes ! i < buffer_sizes ! Suc i"
proof -
  assume "i < length buffer_sizes - 1"
  then consider "i = 0" | "i = 1" | "i = 2" | "i = 3" by (simp add: buffer_sizes_def) linarith
  then show ?thesis by cases (simp_all add: buffer_sizes_def)
qed

lemma buffer_ok_push: "buffer_ok t \<Longrightarrow> tn_buffer_pos t < tn_buffer_size t \<Longrightarrow> buffer_ok (buffer_push b t)"
  by (simp add: buffer_ok_def buffer_push_def)

lemma buffer_ok_byte: "buffer_ok t \<Longrightarrow> buffer_ok (snd (t_buffer_byte b t))"
proof -
  assume ok: "buffer_ok t"
  let ?i = "size_index buffer_sizes (tn_buffer_size t)"
  obtain al t1 where a: "alloc t = (al, t1)" by (cases "alloc t")
  note fr = alloc_eqD [OF a]
  show ?thesis
  proof (cases "tn_buffer_pos t = tn_buffer_size t \<and> ?i < length buffer_sizes - 1 \<and> al")
    case True
    then have g: "tn_buffer_size t < buffer_sizes ! Suc ?i" "buffer_sizes ! Suc ?i \<in> set buffer_sizes"
      using buffer_sizes_grow [of ?i] size_index_less [of buffer_sizes "tn_buffer_size t"] by auto
    have "buffer_ok (buffer_push b
        (t1\<lparr>tn_buffer := tn_buffer t1 @ replicate (buffer_sizes ! Suc ?i - length (tn_buffer t1)) 0,
            tn_buffer_size := buffer_sizes ! Suc ?i\<rparr>))"
      using ok g fr True by (intro buffer_ok_push) (simp_all add: buffer_ok_def)
    then show ?thesis using True a by (simp add: t_buffer_byte_def Let_def)
  next
    case False
    then show ?thesis
      using ok a fr buffer_ok_push [of t b]
      by (auto simp: t_buffer_byte_def t_error_def Let_def buffer_ok_def)
  qed
qed

text \<open>The negotiation table is well-formed and the buffer's bookkeeping agrees with its block.\<close>

definition tracker_ok :: "telnet \<Rightarrow> bool" where
  "tracker_ok t \<longleftrightarrow> q_inv t \<and> buffer_ok t"

lemma q_inv_cong: "tn_q t = tn_q u \<Longrightarrow> tn_q_size t = tn_q_size u \<Longrightarrow> q_inv t = q_inv u"
  using q_get_cong [of t u] by (simp add: q_inv_def q_valid_def q_ok_def)

lemma negotiate_buffer [simp]:
  "tn_buffer (t_negotiate b t) = tn_buffer t" "tn_buffer_pos (t_negotiate b t) = tn_buffer_pos t"
  "tn_buffer_size (t_negotiate b t) = tn_buffer_size t"
  by (simp_all add: t_negotiate_def t_proxy_negotiate_def neg_case_defs neg_emit_defs Let_def
      split: telnet_state.split)

lemma buffer_byte_q [simp]:
  "tn_q (snd (t_buffer_byte b t)) = tn_q t" "tn_q_size (snd (t_buffer_byte b t)) = tn_q_size t"
  by (auto simp: t_buffer_byte_def t_error_def buffer_push_def Let_def dest: alloc_eqD split: prod.splits)

lemma subnegotiate_q [simp]:
  "tn_q (snd (t_subnegotiate t)) = tn_q t" "tn_q_size (snd (t_subnegotiate t)) = tn_q_size t"
  "tn_buffer_size (snd (t_subnegotiate t)) = tn_buffer_size t"
  "tn_buffer_pos (snd (t_subnegotiate t)) = tn_buffer_pos t"
  "length (tn_buffer (snd (t_subnegotiate t))) = length (tn_buffer t)"
  by (simp_all add: t_subnegotiate_def Let_def parsers_frame)

lemma tracker_ok_emit [simp]: "tracker_ok (emit ev t) = tracker_ok t"
  by (simp add: tracker_ok_def buffer_ok_def)

lemma tracker_ok_fields:
  "tracker_ok t \<Longrightarrow> tracker_ok (t\<lparr>tn_state := s\<rparr>)"
  "tracker_ok t \<Longrightarrow> tracker_ok (t\<lparr>tn_sb_telopt := b, tn_buffer_pos := 0, tn_state := s\<rparr>)"
  using q_inv_cong [of "t\<lparr>tn_state := s\<rparr>" t]
    q_inv_cong [of "t\<lparr>tn_sb_telopt := b, tn_buffer_pos := 0, tn_state := s\<rparr>" t]
  by (simp_all add: tracker_ok_def buffer_ok_def)

interpretation tracker: tracker_invariant tracker_ok
proof unfold_locales
  fix t b assume "tracker_ok t"
  then show "tracker_ok (snd (t_buffer_byte b t))"
    using q_inv_cong [of "snd (t_buffer_byte b t)" t] buffer_ok_byte [of t b] by (simp add: tracker_ok_def)
next
  fix t assume "tracker_ok t"
  then show "tracker_ok (snd (t_subnegotiate t))"
    using q_inv_cong [of "snd (t_subnegotiate t)" t] by (simp add: tracker_ok_def buffer_ok_def)
qed (simp_all add: tracker_ok_fields, simp add: tracker_ok_def buffer_ok_def q_inv_negotiate)

section \<open>Sizes of data events\<close>

fun event_sized :: "telnet_event \<Rightarrow> bool" where
  "event_sized (EV_DATA bs n) = (bs \<noteq> [] \<and> n = of_nat (length bs))"
| "event_sized _ = True"

definition sized :: "telnet \<Rightarrow> bool" where
  "sized t \<longleftrightarrow> list_all event_sized (tn_events t)"

lemma sized_emit [simp]: "sized (emit ev t) \<longleftrightarrow> sized t \<and> event_sized ev"
  by (simp add: sized_def)

lemma sized_cong: "tn_events t = tn_events u \<Longrightarrow> sized t = sized u"
  by (simp add: sized_def)

lemma sized_alloc: "alloc t = (ok, t1) \<Longrightarrow> sized t1 = sized t"
  by (rule sized_cong) (simp add: alloc_eqD)

lemma sized_set [simp]: "sized (t_set_rfc1143 opt us him t) = sized t"
proof -
  obtain ok t1 where a: "alloc t = (ok, t1)" by (cases "alloc t")
  show ?thesis
    using sized_alloc [OF a] a
    by (auto simp: t_set_rfc1143_def t_error_def sized_def split: option.split)
qed

lemma sized_negotiate [simp]: "sized (t_negotiate opt t) = sized t"
  by (simp add: t_negotiate_def t_proxy_negotiate_def neg_case_defs neg_emit_defs Let_def
      split: telnet_state.split)

lemma sized_buffer_byte [simp]: "sized (snd (t_buffer_byte b t)) = sized t"
proof -
  obtain ok t1 where a: "alloc t = (ok, t1)" by (cases "alloc t")
  show ?thesis using sized_alloc [OF a] a
    by (auto simp: t_buffer_byte_def t_error_def buffer_push_def Let_def sized_def)
qed

lemma sized_update [simp]:
  "sized (tn_state_update f t) = sized t" "sized (tn_buffer_update g t) = sized t"
  "sized (tn_sb_telopt_update h t) = sized t" "sized (tn_buffer_pos_update k t) = sized t"
  by (simp_all add: sized_def)

lemma sized_alloc_snd [simp]: "sized (snd (alloc u)) = sized u"
  by (rule sized_cong) simp

lemma sized_parsers [simp]:
  "sized (snd (t_zmp_telnet t)) = sized t" "sized (snd (t_ttype_telnet t)) = sized t"
  by (simp_all add: t_zmp_telnet_def t_ttype_telnet_def t_error_def split_beta Let_def)

lemma sized_environ [simp]: "sized (snd (t_environ_telnet ty t)) = sized t"
  by (simp add: t_environ_telnet_def environ_warn_def t_error_def split_beta Let_def)

lemma sized_mssp [simp]: "sized (snd (t_mssp_telnet t)) = sized t"
  by (simp add: t_mssp_telnet_def mssp_warn_def t_error_def split_beta Let_def split: option.split)

lemma sized_subnegotiate [simp]: "sized (snd (t_subnegotiate t)) = sized t"
  by (simp add: t_subnegotiate_def Let_def)

lemma sized_feed [simp]: "sized (feed b t) = sized t"
  by (simp add: feed_def process_iac_def t_sb_warning_def t_error_def split_beta Let_def split: telnet_state.split)

lemma ev_data_sized: "start < i \<Longrightarrow> i \<le> length buf \<Longrightarrow> event_sized (ev_data buf start i)"
  by (simp add: ev_data_def of_nat_diff)

lemma process_sized:
  assumes "tn_state t = STATE_DATA \<longrightarrow> start \<le> i" and "i \<le> length buf" and "mccp1_free t (drop i buf)"
  shows "sized (t_process t buf i start) = sized t"
  using assms
proof (induction "length buf - i" arbitrary: t buf i start rule: less_induct)
  case less
  show ?case
  proof (cases "i < length buf")
    case False
    then show ?thesis using less.prems ev_data_sized [of start i buf] by (subst t_process.simps) auto
  next
    case True
    let ?b = "buf ! i"
    have m: "\<not> mccp1_marker ?b t" "mccp1_free (feed ?b t) (drop (Suc i) buf)"
      using less.prems(3) True by (simp_all add: Cons_nth_drop_Suc [symmetric])
    have ih: "sized (t_process u buf (Suc i) s) = sized u"
      if "tn_state u = STATE_DATA \<longrightarrow> s \<le> Suc i" "mccp1_free u (drop (Suc i) buf)" for u s
      using less.hyps [of buf "Suc i" u s] that True by simp
    have restart: "sized (t_process (feed ?b t) (drop (Suc i) buf) 0 0) = sized t"
      using less.hyps [of "drop (Suc i) buf" 0 "feed ?b t" 0] m(2) True by simp
    show ?thesis
    proof (cases "tn_state t = STATE_DATA")
      case data: True
      let ?u = "(if i \<noteq> start then emit (ev_data buf start i) t else t)\<lparr>tn_state := STATE_IAC\<rparr>"
      have eq: "no_events (if ?b = TELNET_IAC then ?u else t) = no_events (feed ?b t)"
        using data by (simp add: feed_def no_events_def emit_def)
      then have "mccp1_free (if ?b = TELNET_IAC then ?u else t) (drop (Suc i) buf)"
        using m(2) mccp1_free_after events_split by metis
      then show ?thesis
        using True data less.prems(1) ih [of ?u start] ih [of t start] ev_data_sized [of start i buf]
        by (subst t_process.simps) (auto simp: Let_def)
    next
      case other: False
      have "sized (t_process (feed ?b t) buf (Suc i) s) = sized t"
        if "tn_state (feed ?b t) = STATE_DATA \<longrightarrow> s = Suc i" for s
        using ih [of "feed ?b t" s] m(2) that by auto
      then show ?thesis
        using process_step [OF True other m(1), of start] restart unfolding resumes_def by metis
    qed
  qed
qed

section \<open>Receiving\<close>

lemma recv_refines_feed: "mccp1_free t buf \<Longrightarrow> same_upto_cuts (telnet_recv buf t) (fold feed buf t)"
  using process_refines [of t 0 0 buf] by (simp add: telnet_recv_def)

lemma mccp1_free_append: "mccp1_free t (xs @ ys) = (mccp1_free t xs \<and> mccp1_free (fold feed xs t) ys)"
  by (induction xs arbitrary: t) simp_all

lemma recv_chunks:
  assumes "mccp1_free t (xs @ ys)"
  shows "same_upto_cuts (telnet_recv ys (telnet_recv xs t)) (telnet_recv (xs @ ys) t)"
proof -
  have fx: "mccp1_free t xs" and fy: "mccp1_free (fold feed xs t) ys" using assms by (simp_all add: mccp1_free_append)
  have a: "same_upto_cuts (telnet_recv xs t) (fold feed xs t)" using fx by (rule recv_refines_feed)
  then have "mccp1_free (telnet_recv xs t) ys" using fy same_mccp1_free by blast
  then have "same_upto_cuts (telnet_recv ys (telnet_recv xs t)) (fold feed ys (telnet_recv xs t))"
    by (rule recv_refines_feed)
  also have "same_upto_cuts \<dots> (fold feed (xs @ ys) t)" using same_fold_feed [OF a] by simp
  also have "same_upto_cuts \<dots> (telnet_recv (xs @ ys) t)"
    using recv_refines_feed [OF assms] by (rule same_sym)
  finally show ?thesis .
qed

text \<open>A stream in any number of receive calls.\<close>

lemma recv_many_chunks:
  assumes "mccp1_free t (concat xss)"
  shows "same_upto_cuts (fold telnet_recv xss t) (telnet_recv (concat xss) t)"
  using assms
proof (induction xss arbitrary: t)
  case Nil
  then show ?case by (simp add: telnet_recv_def) (subst t_process.simps, simp)
next
  case (Cons xs xss)
  have fx: "mccp1_free t xs" using Cons.prems by (simp add: mccp1_free_append)
  have "mccp1_free (telnet_recv xs t) (concat xss)"
    using Cons.prems same_mccp1_free [OF recv_refines_feed [OF fx]] by (simp add: mccp1_free_append)
  then have "same_upto_cuts (fold telnet_recv xss (telnet_recv xs t)) (telnet_recv (concat xss) (telnet_recv xs t))"
    by (rule Cons.IH)
  also have "same_upto_cuts \<dots> (telnet_recv (xs @ concat xss) t)" using Cons.prems by (intro recv_chunks) simp
  finally show ?case by simp
qed

end
