(* ===== verification/Telnet_Send.thy ===== *)
theory Telnet_Send
  imports Telnet_Process
begin

text \<open>
  The sending side of the library: commands, escaped data, formatted output and the subnegotiations
  for TERMINAL-TYPE, NEW-ENVIRON and ZMP. What one tracker sends, another one that receives it
  reports back unchanged.
\<close>

section \<open>Data and commands\<close>

definition telnet_iac :: "byte \<Rightarrow> telnet \<Rightarrow> telnet" where
  "telnet_iac cmd t = t_send [TELNET_IAC, cmd] t"

text \<open>The bytes from \<open>l\<close> up to \<open>i\<close>, if there are any: the "dump prior text" of the send loops.\<close>

definition send_prior :: "byte list \<Rightarrow> nat \<Rightarrow> nat \<Rightarrow> telnet \<Rightarrow> telnet" where
  "send_prior buf l i t = (if i \<noteq> l then t_send (drop l (take i buf)) t else t)"

function send_loop :: "byte list \<Rightarrow> nat \<Rightarrow> nat \<Rightarrow> telnet \<Rightarrow> telnet" where
  "send_loop buf l i t =
     (if i < length buf then
        (if buf ! i = TELNET_IAC then
           send_loop buf (i + 1) (i + 1) (telnet_iac TELNET_IAC (send_prior buf l i t))
         else send_loop buf l (i + 1) t)
      else send_prior buf l i t)"
  by pat_completeness auto
termination by (relation "measure (\<lambda>(buf, l, i, t). length buf - i)") auto

declare send_loop.simps [simp del]

definition telnet_send :: "byte list \<Rightarrow> telnet \<Rightarrow> telnet" where
  "telnet_send buf t = send_loop buf 0 0 t"

definition telnet_begin_sb :: "byte \<Rightarrow> telnet \<Rightarrow> telnet" where
  "telnet_begin_sb telopt t = t_send [TELNET_IAC, TELNET_SB, telopt] t"

definition telnet_finish_sb :: "telnet \<Rightarrow> telnet" where
  "telnet_finish_sb t = telnet_iac TELNET_SE t"

definition telnet_subnegotiation :: "byte \<Rightarrow> byte list \<Rightarrow> telnet \<Rightarrow> telnet" where
  "telnet_subnegotiation telopt buf t =
     t_send [TELNET_IAC, TELNET_SE] (telnet_send buf (t_send [TELNET_IAC, TELNET_SB, telopt] t))"

section \<open>Formatted output\<close>

text \<open>
  \<open>out\<close> is the text that \<^verbatim>\<open>vsnprintf\<close> produces for the format and its arguments; a text that does not
  fit the 1024-byte local buffer is formatted again into allocated memory. The result is the length
  of the text, or -1 when that allocation fails.
\<close>

function printf_loop :: "byte list \<Rightarrow> nat \<Rightarrow> nat \<Rightarrow> telnet \<Rightarrow> telnet" where
  "printf_loop out l i t =
     (if i < length out then
        (if out ! i = TELNET_IAC \<or> out ! i = 13 \<or> out ! i = 10 then
           (let t1 = send_prior out l i t
            in printf_loop out (i + 1) (i + 1)
                 (if out ! i = TELNET_IAC then telnet_iac TELNET_IAC t1
                  else if out ! i = 13 then t_send [13, 0] t1
                  else t_send [13, 10] t1))
         else printf_loop out l (i + 1) t)
      else send_prior out l i t)"
  by pat_completeness auto
termination by (relation "measure (\<lambda>(out, l, i, t). length out - i)") auto

declare printf_loop.simps [simp del]

definition telnet_vprintf :: "byte list \<Rightarrow> telnet \<Rightarrow> int \<times> telnet" where
  "telnet_vprintf out t =
     (let (ok, t1) = (if length out \<ge> 1024 then alloc t else (True, t))
      in if \<not> ok then
           (-1, snd (t_error ''telnet_vprintf'' TELNET_ENOMEM False
                       (''malloc() failed: '' @ tn_strerror t1) t1))
         else (int (length out), printf_loop out 0 0 t1))"

definition telnet_raw_vprintf :: "byte list \<Rightarrow> telnet \<Rightarrow> int \<times> telnet" where
  "telnet_raw_vprintf out t =
     (let (ok, t1) = (if length out \<ge> 1024 then alloc t else (True, t))
      in if \<not> ok then
           (-1, snd (t_error ''telnet_raw_vprintf'' TELNET_ENOMEM False
                       (''malloc() failed: '' @ tn_strerror t1) t1))
         else (int (length out), telnet_send out t1))"

section \<open>Option subnegotiations\<close>

text \<open>A \<^verbatim>\<open>const char *\<close> argument is the block it points at; its text ends at the first NUL.\<close>

definition telnet_begin_newenviron :: "byte \<Rightarrow> telnet \<Rightarrow> telnet" where
  "telnet_begin_newenviron cmd t = telnet_send [cmd] (telnet_begin_sb TELNET_TELOPT_NEW_ENVIRON t)"

definition telnet_newenviron_value :: "byte \<Rightarrow> byte list option \<Rightarrow> telnet \<Rightarrow> telnet" where
  "telnet_newenviron_value type str t =
     (let t1 = telnet_send [type] t
      in case str of None \<Rightarrow> t1 | Some s \<Rightarrow> telnet_send (cstr s 0) t1)"

definition telnet_ttype_send :: "telnet \<Rightarrow> telnet" where
  "telnet_ttype_send t =
     t_send [TELNET_IAC, TELNET_SB, TELNET_TELOPT_TTYPE, TELNET_TTYPE_SEND, TELNET_IAC, TELNET_SE] t"

definition telnet_ttype_is :: "byte list \<Rightarrow> telnet \<Rightarrow> telnet" where
  "telnet_ttype_is ttype t =
     telnet_finish_sb (t_send (cstr ttype 0)
       (t_send [TELNET_IAC, TELNET_SB, TELNET_TELOPT_TTYPE, TELNET_TTYPE_IS] t))"

definition telnet_zmp_arg :: "byte list \<Rightarrow> telnet \<Rightarrow> telnet" where
  "telnet_zmp_arg arg t = telnet_send (cstr arg 0 @ [0]) t"

definition telnet_begin_zmp :: "byte list \<Rightarrow> telnet \<Rightarrow> telnet" where
  "telnet_begin_zmp cmd t = telnet_zmp_arg cmd (telnet_begin_sb TELNET_TELOPT_ZMP t)"

text \<open>With no argument at all the code reads past its array, so the result is undefined.\<close>

fun telnet_send_zmp :: "byte list list \<Rightarrow> telnet \<Rightarrow> telnet option" where
  "telnet_send_zmp [] t = None"
| "telnet_send_zmp (cmd # args) t =
     Some (telnet_finish_sb (fold telnet_zmp_arg args (telnet_begin_zmp cmd t)))"

definition telnet_send_vzmpv :: "byte list list \<Rightarrow> telnet \<Rightarrow> telnet" where
  "telnet_send_vzmpv va t =
     telnet_finish_sb (fold telnet_zmp_arg va (telnet_begin_sb TELNET_TELOPT_ZMP t))"

section \<open>What goes out\<close>

text \<open>The wire form of data: IAC is doubled, and in formatted text CR and LF are translated.\<close>

definition iac_escape :: "byte list \<Rightarrow> byte list" where
  "iac_escape bs = concat (map (\<lambda>b. if b = TELNET_IAC then [TELNET_IAC, TELNET_IAC] else [b]) bs)"

definition nvt_text :: "byte list \<Rightarrow> byte list" where
  "nvt_text bs = concat (map (\<lambda>b. if b = TELNET_IAC then [TELNET_IAC, TELNET_IAC]
                                  else if b = 13 then [13, 0] else if b = 10 then [13, 10] else [b]) bs)"

text \<open>
  \<open>sends bs t t'\<close>: from \<open>t\<close> to \<open>t'\<close> nothing happened but that the bytes \<open>bs\<close> went to the handler in SEND
  events, in one or more pieces.
\<close>

definition sends :: "byte list \<Rightarrow> telnet \<Rightarrow> telnet \<Rightarrow> bool" where
  "sends bs t t' \<longleftrightarrow>
     (\<exists>ps. t' = t\<lparr>tn_events := tn_events t @ map EV_SEND ps\<rparr> \<and> concat ps = bs)"

lemma sent_bytes_sends [simp]: "sent_bytes (map EV_SEND ps) = concat ps"
  by (induction ps) simp_all

lemma sends_sent: "sends bs t t' \<Longrightarrow> sent_bytes (new_events t t') = bs"
  by (auto simp: sends_def new_events_def)

named_theorems sends_intros

lemma sends_refl [sends_intros]: "sends [] t t"
  unfolding sends_def by (rule exI [of _ "[]"]) simp

lemma sends_trans: "sends a t u \<Longrightarrow> sends b u w \<Longrightarrow> sends (a @ b) t w"
proof -
  assume "sends a t u" "sends b u w"
  then obtain ps qs where "u = t\<lparr>tn_events := tn_events t @ map EV_SEND ps\<rparr>" "concat ps = a"
    "w = u\<lparr>tn_events := tn_events u @ map EV_SEND qs\<rparr>" "concat qs = b"
    by (auto simp: sends_def)
  then show ?thesis unfolding sends_def by (intro exI [of _ "ps @ qs"]) simp
qed

lemma sends_send [sends_intros]: "sends bs t (t_send bs t)"
  unfolding sends_def by (rule exI [of _ "[bs]"]) (simp add: t_send_def emit_def)

lemma sends_iac [sends_intros]: "sends [TELNET_IAC, c] t (telnet_iac c t)"
  by (simp add: telnet_iac_def sends_send)

lemma sends_prior: "sends (drop l (take i buf)) t (send_prior buf l i t)"
  by (cases "i = l") (simp_all add: send_prior_def sends_send sends_refl)

text \<open>
  Both send loops walk a buffer, hold back the plain bytes since \<open>l\<close> and replace each special byte.
  \<open>esc\<close> is the replacement; the loop that uses it sends the escaped rest.
\<close>

lemma iac_escape_simps [simp]:
  "iac_escape [] = []" "iac_escape (xs @ ys) = iac_escape xs @ iac_escape ys"
  "iac_escape [b] = (if b = TELNET_IAC then [TELNET_IAC, TELNET_IAC] else [b])"
  "TELNET_IAC \<notin> set xs \<Longrightarrow> iac_escape xs = xs"
  by (simp_all add: iac_escape_def) (induction xs; auto)

lemma iac_escape_Cons: "iac_escape (b # bs) = iac_escape [b] @ iac_escape bs"
  by (simp add: iac_escape_def)

lemma send_loop_sends:
  assumes "l \<le> i" and "i \<le> length buf"
  shows "sends (drop l (take i buf) @ iac_escape (drop i buf)) t (send_loop buf l i t)"
  using assms
proof (induction buf l i t rule: send_loop.induct)
  case (1 buf l i t)
  show ?case
  proof (cases "i < length buf")
    case False
    then show ?thesis using sends_prior [of l i buf t] by (subst send_loop.simps) simp
  next
    case True
    have e: "iac_escape (drop i buf) = iac_escape [buf ! i] @ iac_escape (drop (Suc i) buf)"
      using True by (simp flip: Cons_nth_drop_Suc iac_escape_simps(2) del: iac_escape_simps)
    show ?thesis
    proof (cases "buf ! i = TELNET_IAC")
      case iac: True
      have "sends (drop l (take i buf) @ [TELNET_IAC, TELNET_IAC] @ iac_escape (drop (Suc i) buf)) t
          (send_loop buf (Suc i) (Suc i) (telnet_iac TELNET_IAC (send_prior buf l i t)))"
        using "1.IH"(1) True iac sends_trans [OF sends_prior sends_trans [OF sends_iac]] by simp
      then show ?thesis using True iac e by (subst send_loop.simps) simp
    next
      case plain: False
      then show ?thesis using "1.IH"(2) "1.prems" True e
        by (subst send_loop.simps) (simp add: take_Suc_nth)
    qed
  qed
qed

lemma sends_telnet_send [sends_intros]: "sends (iac_escape buf) t (telnet_send buf t)"
  using send_loop_sends [of 0 0 buf t] by (simp add: telnet_send_def)

lemma nvt_text_simps [simp]:
  "nvt_text [] = []" "nvt_text (xs @ ys) = nvt_text xs @ nvt_text ys"
  by (simp_all add: nvt_text_def)

lemma printf_loop_sends:
  assumes "l \<le> i" and "i \<le> length buf"
  shows "sends (drop l (take i buf) @ nvt_text (drop i buf)) t (printf_loop buf l i t)"
  using assms
proof (induction buf l i t rule: printf_loop.induct)
  case (1 buf l i t)
  show ?case
  proof (cases "i < length buf")
    case False
    then show ?thesis using sends_prior [of l i buf t] by (subst printf_loop.simps) simp
  next
    case True
    let ?b = "buf ! i"
    have e: "nvt_text (drop i buf) = nvt_text [?b] @ nvt_text (drop (Suc i) buf)"
      using True by (simp flip: Cons_nth_drop_Suc nvt_text_simps(2) del: nvt_text_simps)
    show ?thesis
    proof (cases "?b = TELNET_IAC \<or> ?b = 13 \<or> ?b = 10")
      case special: True
      let ?out = "\<lambda>u. if ?b = TELNET_IAC then telnet_iac TELNET_IAC u
          else if ?b = 13 then t_send [13, 0] u else t_send [13, 10] u"
      have out: "sends (nvt_text [?b]) u (?out u)" for u
        using special by (auto simp: nvt_text_def sends_send sends_iac)
      have "sends (drop l (take i buf) @ nvt_text [?b] @ nvt_text (drop (Suc i) buf)) t
          (printf_loop buf (Suc i) (Suc i) (?out (send_prior buf l i t)))"
        using "1.IH"(1) [OF True special refl] True sends_trans [OF sends_prior sends_trans [OF out]]
        by simp
      then show ?thesis using True special e by (subst printf_loop.simps) (simp add: Let_def)
    next
      case plain: False
      then have "nvt_text [?b] = [?b]" by (simp add: nvt_text_def)
      then show ?thesis using "1.IH"(2) "1.prems" True e plain
        by (subst printf_loop.simps) (simp add: take_Suc_nth)
    qed
  qed
qed

lemma sends_printf: "sends (nvt_text buf) t (printf_loop buf 0 0 t)"
  using printf_loop_sends [of 0 0 buf t] by simp

lemma sends_begin_sb [sends_intros]: "sends [TELNET_IAC, TELNET_SB, opt] t (telnet_begin_sb opt t)"
  by (simp add: telnet_begin_sb_def sends_send)

lemma sends_finish_sb [sends_intros]: "sends [TELNET_IAC, TELNET_SE] t (telnet_finish_sb t)"
  by (simp add: telnet_finish_sb_def sends_iac)

text \<open>The wire form of a whole subnegotiation.\<close>

definition sb_frame :: "byte \<Rightarrow> byte list \<Rightarrow> byte list" where
  "sb_frame opt bs = [TELNET_IAC, TELNET_SB, opt] @ iac_escape bs @ [TELNET_IAC, TELNET_SE]"

lemma sends_subnegotiation: "sends (sb_frame opt bs) t (telnet_subnegotiation opt bs t)"
  unfolding sb_frame_def telnet_subnegotiation_def
  by (intro sends_trans [OF sends_send sends_trans [OF sends_telnet_send sends_send]])

lemma sends_zmp_args:
  "sends (iac_escape (concat (map (\<lambda>a. cstr a 0 @ [0]) args))) t (fold telnet_zmp_arg args t)"
proof (induction args arbitrary: t)
  case Nil
  then show ?case by (simp add: sends_refl)
next
  case (Cons a args)
  have "sends (iac_escape (cstr a 0 @ [0])) t (telnet_zmp_arg a t)"
    unfolding telnet_zmp_arg_def by (rule sends_telnet_send)
  from sends_trans [OF this Cons.IH] show ?case by (simp flip: iac_escape_simps(2))
qed

lemma sends_zmp:
  "telnet_send_zmp args t = Some t' \<Longrightarrow>
   sends (sb_frame TELNET_TELOPT_ZMP (concat (map (\<lambda>a. cstr a 0 @ [0]) args))) t t'"
proof (cases args)
  case (Cons cmd rest)
  assume "telnet_send_zmp args t = Some t'"
  then have t': "t' = telnet_finish_sb (fold telnet_zmp_arg args (telnet_begin_sb TELNET_TELOPT_ZMP t))"
    using Cons by (simp add: telnet_begin_zmp_def)
  show ?thesis unfolding t' sb_frame_def
    by (intro sends_trans [OF sends_begin_sb sends_trans [OF sends_zmp_args sends_finish_sb]])
qed simp

lemma sends_vzmpv:
  "sends (sb_frame TELNET_TELOPT_ZMP (concat (map (\<lambda>a. cstr a 0 @ [0]) va))) t (telnet_send_vzmpv va t)"
  unfolding telnet_send_vzmpv_def sb_frame_def
  by (intro sends_trans [OF sends_begin_sb sends_trans [OF sends_zmp_args sends_finish_sb]])

lemma sends_ttype_is:
  assumes "TELNET_IAC \<notin> set (cstr ttype 0)"
  shows "sends (sb_frame TELNET_TELOPT_TTYPE (TELNET_TTYPE_IS # cstr ttype 0)) t (telnet_ttype_is ttype t)"
proof -
  have "sends ([TELNET_IAC, TELNET_SB, TELNET_TELOPT_TTYPE, TELNET_TTYPE_IS] @
      cstr ttype 0 @ [TELNET_IAC, TELNET_SE]) t (telnet_ttype_is ttype t)"
    unfolding telnet_ttype_is_def
    by (intro sends_trans [OF sends_send sends_trans [OF sends_send sends_finish_sb]])
  then show ?thesis using assms by (simp add: sb_frame_def)
qed

lemma sends_ttype_send: "sends (sb_frame TELNET_TELOPT_TTYPE [TELNET_TTYPE_SEND]) t (telnet_ttype_send t)"
  using sends_send [of "sb_frame TELNET_TELOPT_TTYPE [TELNET_TTYPE_SEND]" t]
  by (simp add: telnet_ttype_send_def sb_frame_def)

section \<open>Receiving what was sent\<close>

lemma fold_feed_data:
  "tn_state r = STATE_DATA \<Longrightarrow>
   fold feed (iac_escape bs) r = r\<lparr>tn_events := tn_events r @ map (\<lambda>b. EV_DATA [b] 1) bs\<rparr>"
proof (induction bs arbitrary: r)
  case (Cons b bs)
  note e = iac_escape_Cons [of b bs]
  have "fold feed (iac_escape [b]) r = emit (EV_DATA [b] 1) r"
    using Cons.prems by (auto simp: feed_def process_iac_def emit_def)
  then show ?case using Cons e by (simp add: emit_def)
qed simp

lemma mccp1_free_data: "tn_state r = STATE_DATA \<Longrightarrow> mccp1_free r (iac_escape bs)"
proof (induction bs arbitrary: r)
  case (Cons b bs)
  note e = iac_escape_Cons [of b bs]
  have "fold feed (iac_escape [b]) r = emit (EV_DATA [b] 1) r"
    using Cons.prems by (auto simp: feed_def process_iac_def emit_def)
  moreover have "mccp1_free r (iac_escape [b])"
    using Cons.prems by (simp add: mccp1_marker_def feed_def)
  ultimately show ?case using Cons e by (simp add: mccp1_free_append)
qed simp

lemma recv_escaped:
  assumes "tn_state r = STATE_DATA"
  shows "same_upto_cuts (telnet_recv (iac_escape bs) r)
    (r\<lparr>tn_events := tn_events r @ [EV_DATA bs (of_nat (length bs))]\<rparr>)"
proof -
  have "same_upto_cuts (telnet_recv (iac_escape bs) r)
      (r\<lparr>tn_events := tn_events r @ map (\<lambda>b. EV_DATA [b] 1) bs\<rparr>)"
    using recv_refines_feed [OF mccp1_free_data [OF assms]] fold_feed_data [OF assms] by simp
  then show ?thesis by (simp add: same_upto_cuts_def no_events_def flat_append flat_singles)
qed


section \<open>Receiving a subnegotiation\<close>

text \<open>
  The receive buffer holds \<open>data\<close>, and the allocator will not fail. The limit of the buffer is the
  last of its sizes.
\<close>

definition holds :: "byte list \<Rightarrow> telnet \<Rightarrow> bool" where
  "holds data t \<longleftrightarrow> buffer_ok t \<and> tn_buffer_pos t = length data \<and>
     take (length data) (tn_buffer t) = data \<and> False \<notin> set (tn_allocs t)"

text \<open>A tracker without its buffer and the allocator: what buffering leaves alone.\<close>

definition no_buffer :: "telnet \<Rightarrow> telnet" where
  "no_buffer t = t\<lparr>tn_buffer := [], tn_buffer_size := 0, tn_buffer_pos := 0, tn_allocs := []\<rparr>"

lemma no_buffer_fields:
  assumes "no_buffer t = no_buffer u"
  shows "tn_state t = tn_state u" "tn_sb_telopt t = tn_sb_telopt u" "tn_events t = tn_events u"
    "tn_q t = tn_q u" "tn_q_size t = tn_q_size u" "tn_telopts t = tn_telopts u" "tn_flags t = tn_flags u"
  using arg_cong [OF assms, of tn_state] arg_cong [OF assms, of tn_sb_telopt] arg_cong [OF assms, of tn_events]
    arg_cong [OF assms, of tn_q] arg_cong [OF assms, of tn_q_size] arg_cong [OF assms, of tn_telopts]
    arg_cong [OF assms, of tn_flags]
  by (simp_all add: no_buffer_def)

lemma no_buffer_state: "no_buffer (t\<lparr>tn_state := s\<rparr>) = (no_buffer t)\<lparr>tn_state := s\<rparr>"
  by (cases t) (simp add: no_buffer_def)

lemma no_buffer_update:
  "no_buffer t = no_buffer u \<Longrightarrow> no_buffer (t\<lparr>tn_state := s\<rparr>) = no_buffer (u\<lparr>tn_state := s\<rparr>)"
  by (simp add: no_buffer_state)

lemma holds_state [simp]: "holds data (t\<lparr>tn_state := s\<rparr>) = holds data t"
  by (simp add: holds_def buffer_ok_def)

lemma buffer_push_holds:
  assumes "length (tn_buffer t) = tn_buffer_size t" and "tn_buffer_size t \<in> set buffer_sizes"
    and "tn_buffer_pos t = length data" and "take (length data) (tn_buffer t) = data"
    and "length data < tn_buffer_size t" and "False \<notin> set (tn_allocs t)"
  shows "holds (data @ [b]) (buffer_push b t)"
  using assms by (auto simp: holds_def buffer_ok_def buffer_push_def take_Suc_nth)

lemma buffer_size_next:
  assumes "n \<in> set buffer_sizes" and "n < 16384"
  shows "size_index buffer_sizes n < length buffer_sizes - 1"
    and "n < buffer_sizes ! Suc (size_index buffer_sizes n)"
    and "buffer_sizes ! Suc (size_index buffer_sizes n) \<in> set buffer_sizes"
  using assms by (auto simp: buffer_sizes_def)

lemma buffer_byte_holds:
  assumes h: "holds data t" and room: "length data < 16384"
  shows "fst (t_buffer_byte b t) = TELNET_EOK \<and> holds (data @ [b]) (snd (t_buffer_byte b t)) \<and>
    no_buffer (snd (t_buffer_byte b t)) = no_buffer t"
proof -
  let ?n = "buffer_sizes ! Suc (size_index buffer_sizes (tn_buffer_size t))"
  obtain ok t1 where a: "alloc t = (ok, t1)" by (cases "alloc t")
  have ok: "ok" and al: "False \<notin> set (tn_allocs t1)" and nb: "no_buffer t1 = no_buffer t"
    using a h by (auto simp: alloc_def holds_def no_buffer_def split: list.splits)
  note fr = alloc_eqD [OF a]
  have hp: "length (tn_buffer t) = tn_buffer_size t" "tn_buffer_size t \<in> set buffer_sizes"
    "tn_buffer_pos t = length data" "take (length data) (tn_buffer t) = data" "False \<notin> set (tn_allocs t)"
    "tn_buffer_pos t \<le> tn_buffer_size t"
    using h by (simp_all add: holds_def buffer_ok_def)
  show ?thesis
  proof (cases "tn_buffer_pos t = tn_buffer_size t")
    case True
    let ?u = "t1\<lparr>tn_buffer := tn_buffer t1 @ replicate (?n - length (tn_buffer t1)) 0, tn_buffer_size := ?n\<rparr>"
    note nx = buffer_size_next [OF hp(2)]
    have lt: "tn_buffer_size t < 16384" using True hp room by simp
    have "holds (data @ [b]) (buffer_push b ?u)"
      by (rule buffer_push_holds) (use True hp nx [OF lt] fr al in simp_all)
    moreover have "no_buffer (buffer_push b ?u) = no_buffer t"
      using nb by (simp add: no_buffer_def buffer_push_def)
    ultimately show ?thesis using True a ok nx(1) [OF lt] by (simp add: t_buffer_byte_def Let_def)
  next
    case False
    then show ?thesis
      using buffer_push_holds [of t data b] hp by (simp add: t_buffer_byte_def no_buffer_def buffer_push_def)
  qed
qed

lemma holds_reset:
  "holds data t \<Longrightarrow> holds [] (t\<lparr>tn_sb_telopt := opt, tn_buffer_pos := 0, tn_state := s\<rparr>)"
  by (simp add: holds_def buffer_ok_def)

lemma feed_sb_byte:
  assumes "holds data t" and "length data < 16384" and "tn_state t = STATE_SB_DATA"
  shows "holds (data @ [b]) (fold feed (iac_escape [b]) t) \<and>
    no_buffer (fold feed (iac_escape [b]) t) = no_buffer t"
proof (cases "b = TELNET_IAC")
  case False
  then show ?thesis using buffer_byte_holds [OF assms(1,2), of b] assms(3) by (simp add: feed_def)
next
  case True
  let ?t = "t\<lparr>tn_state := STATE_SB_DATA_IAC\<rparr>"
  have s: "no_buffer (?t\<lparr>tn_state := STATE_SB_DATA\<rparr>) = no_buffer t" using assms(3) by (simp add: no_buffer_def)
  show ?thesis
    using True buffer_byte_holds [of data ?t TELNET_IAC] assms s
      no_buffer_update [of "snd (t_buffer_byte TELNET_IAC ?t)" ?t STATE_SB_DATA]
    by (simp add: feed_def)
qed

lemma mccp1_free_sb_byte:
  assumes "tn_state t = STATE_SB_DATA" and "tn_sb_telopt t = TELNET_TELOPT_COMPRESS \<longrightarrow> b \<noteq> TELNET_WILL"
  shows "mccp1_free t (iac_escape [b])"
  using assms by (auto simp: mccp1_marker_def feed_def)

lemma feed_sb_data:
  assumes "holds data t" and "length data + length bs \<le> 16384" and "tn_state t = STATE_SB_DATA"
    and "tn_sb_telopt t = TELNET_TELOPT_COMPRESS \<longrightarrow> TELNET_WILL \<notin> set bs"
  shows "holds (data @ bs) (fold feed (iac_escape bs) t) \<and>
    no_buffer (fold feed (iac_escape bs) t) = no_buffer t \<and> mccp1_free t (iac_escape bs)"
  using assms
proof (induction bs arbitrary: data t)
  case (Cons b bs)
  let ?u = "fold feed (iac_escape [b]) t"
  have u: "holds (data @ [b]) ?u" "no_buffer ?u = no_buffer t"
    using feed_sb_byte [of data t b] Cons.prems by simp_all
  note f = no_buffer_fields [OF u(2)]
  have "holds (data @ b # bs) (fold feed (iac_escape bs) ?u) \<and>
      no_buffer (fold feed (iac_escape bs) ?u) = no_buffer ?u \<and> mccp1_free ?u (iac_escape bs)"
    using Cons.IH [OF u(1)] Cons.prems f by simp
  moreover have "mccp1_free t (iac_escape [b])" using Cons.prems by (intro mccp1_free_sb_byte) auto
  ultimately show ?case using u(2) iac_escape_Cons [of b bs] by (simp add: mccp1_free_append)
qed simp

text \<open>
  A whole frame arrives, in any number of pieces: the payload is in the buffer and is handed to
  \<^verbatim>\<open>_subnegotiate\<close>.
\<close>

lemma feed_sb_frame:
  assumes "tn_state r = STATE_DATA" and "holds old r" and "length bs \<le> 16384"
    and "opt = TELNET_TELOPT_COMPRESS \<longrightarrow> TELNET_WILL \<notin> set bs"
  obtains u where "fold feed (sb_frame opt bs) r = snd (t_subnegotiate u)" and "mccp1_free r (sb_frame opt bs)"
    and "holds bs u" and "no_buffer u = no_buffer (r\<lparr>tn_sb_telopt := opt\<rparr>)"
proof -
  let ?s = "r\<lparr>tn_sb_telopt := opt, tn_buffer_pos := 0, tn_state := STATE_SB_DATA\<rparr>"
  let ?w = "fold feed (iac_escape bs) ?s"
  let ?u = "?w\<lparr>tn_state := STATE_DATA\<rparr>"
  have start: "fold feed [TELNET_IAC, TELNET_SB, opt] r = ?s" "mccp1_free r [TELNET_IAC, TELNET_SB, opt]"
    using assms(1) by (simp_all add: feed_def process_iac_def mccp1_marker_def)
  have w: "holds bs ?w" "no_buffer ?w = no_buffer ?s" "mccp1_free ?s (iac_escape bs)"
    using feed_sb_data [of "[]" ?s bs] holds_reset [OF assms(2)] assms(3,4) by simp_all
  note f = no_buffer_fields [OF w(2)]
  have stop: "fold feed [TELNET_IAC, TELNET_SE] ?w = snd (t_subnegotiate ?u)"
    "mccp1_free ?w [TELNET_IAC, TELNET_SE]"
    using f by (simp_all add: feed_def mccp1_marker_def)
  have "mccp1_free r (sb_frame opt bs)"
    unfolding sb_frame_def mccp1_free_append start(1) using start(2) w(3) stop(2) by blast
  moreover have "fold feed (sb_frame opt bs) r = snd (t_subnegotiate ?u)"
    unfolding sb_frame_def fold_append comp_def using start(1) stop(1) by simp
  moreover have "no_buffer ?u = no_buffer (r\<lparr>tn_sb_telopt := opt\<rparr>)"
    using no_buffer_update [OF w(2), of STATE_DATA] assms(1) by (simp add: no_buffer_def)
  ultimately show ?thesis using that w(1) by simp
qed

lemma recv_sb_frame:
  assumes r: "tn_state r = STATE_DATA" "holds old r" "length bs \<le> 16384"
    "opt = TELNET_TELOPT_COMPRESS \<longrightarrow> TELNET_WILL \<notin> set bs" and wire: "concat xss = sb_frame opt bs"
  obtains u where "same_upto_cuts (fold telnet_recv xss r) (snd (t_subnegotiate u))"
    and "holds bs u" and "no_buffer u = no_buffer (r\<lparr>tn_sb_telopt := opt\<rparr>)"
proof -
  obtain u where u: "fold feed (concat xss) r = snd (t_subnegotiate u)" "mccp1_free r (concat xss)" "holds bs u"
    "no_buffer u = no_buffer (r\<lparr>tn_sb_telopt := opt\<rparr>)"
    using feed_sb_frame [OF r] unfolding wire by blast
  have "same_upto_cuts (fold telnet_recv xss r) (snd (t_subnegotiate u))"
    using same_trans [OF recv_many_chunks recv_refines_feed, OF u(2) u(2)] u(1) by simp
  then show ?thesis using that u(3,4) by blast
qed

text \<open>
  \<open>reports r evs r'\<close>: from \<open>r\<close> to \<open>r'\<close> the handler saw the events \<open>evs\<close> (data possibly in other pieces),
  and the parser's state and the negotiation table are the same.
\<close>

definition reports :: "telnet \<Rightarrow> telnet_event list \<Rightarrow> telnet \<Rightarrow> bool" where
  "reports r evs r' \<longleftrightarrow> flat (tn_events r') = flat (tn_events r @ evs) \<and> tn_state r' = tn_state r \<and>
     tn_q r' = tn_q r \<and> tn_q_size r' = tn_q_size r"

lemma same_fields:
  assumes "same_upto_cuts t u"
  shows "tn_state t = tn_state u" "tn_q t = tn_q u" "tn_q_size t = tn_q_size u"
    "flat (tn_events t) = flat (tn_events u)"
proof -
  have e: "no_events t = no_events u" "flat (tn_events t) = flat (tn_events u)"
    using assms by (simp_all add: same_upto_cuts_def)
  show "tn_state t = tn_state u" "tn_q t = tn_q u" "tn_q_size t = tn_q_size u"
    "flat (tn_events t) = flat (tn_events u)"
    using e(2) arg_cong [OF e(1), of tn_state] arg_cong [OF e(1), of tn_q] arg_cong [OF e(1), of tn_q_size]
    by simp_all
qed

text \<open>What \<^verbatim>\<open>_subnegotiate\<close> reports for a payload, by option.\<close>

lemma recv_sb_reports:
  assumes r: "tn_state r = STATE_DATA" "holds old r" and bs: "length bs \<le> 16384"
    "opt = TELNET_TELOPT_COMPRESS \<longrightarrow> TELNET_WILL \<notin> set bs" and wire: "concat xss = sb_frame opt bs"
    and parse: "\<And>u. holds bs u \<Longrightarrow> tn_sb_telopt u = opt \<Longrightarrow>
      tn_events (snd (t_subnegotiate u)) = tn_events u @ evs"
  shows "reports r evs (fold telnet_recv xss r)"
proof -
  obtain u where s: "same_upto_cuts (fold telnet_recv xss r) (snd (t_subnegotiate u))"
    and u: "holds bs u" and n: "no_buffer u = no_buffer (r\<lparr>tn_sb_telopt := opt\<rparr>)"
    using recv_sb_frame [OF r bs wire] by blast
  show ?thesis using same_fields [OF s] no_buffer_fields [OF n] parse [OF u]
    by (simp add: reports_def flat_append)
qed

lemma subnegotiate_plain:
  "tn_sb_telopt u = opt \<Longrightarrow> holds bs u \<Longrightarrow>
   opt \<notin> {TELNET_TELOPT_ZMP, TELNET_TELOPT_TTYPE, TELNET_TELOPT_ENVIRON, TELNET_TELOPT_NEW_ENVIRON,
           TELNET_TELOPT_MSSP} \<Longrightarrow>
   tn_events (snd (t_subnegotiate u)) = tn_events u @ [EV_SUBNEGOTIATION opt bs]"
  by (auto simp: t_subnegotiate_def holds_def)

lemma holds_alloc: "holds bs u \<Longrightarrow> fst (alloc u)"
  by (auto simp: holds_def alloc_def split: list.splits)

lemma holds_emit [simp]: "holds bs (emit ev u) = holds bs u"
  by (simp add: holds_def buffer_ok_def)

lemma subnegotiate_mssp:
  assumes "tn_sb_telopt u = TELNET_TELOPT_MSSP" and h: "holds (TELNET_MSSP_VAR # bs) u"
  shows "tn_events (snd (t_subnegotiate u)) = tn_events u @
    [EV_SUBNEGOTIATION TELNET_TELOPT_MSSP (TELNET_MSSP_VAR # bs),
     EV_MSSP (map mssp_c (mssp_decode TELNET_MSSP_VAR [] bs) @ replicate (mssp_lost TELNET_MSSP_VAR bs) mssp_null)]"
proof -
  let ?t = "emit (EV_SUBNEGOTIATION TELNET_TELOPT_MSSP (TELNET_MSSP_VAR # bs)) u"
  have "tn_buffer ?t = (TELNET_MSSP_VAR # bs) @ drop (Suc (length bs)) (tn_buffer u)"
    "tn_buffer_pos ?t = Suc (length bs)"
    using h append_take_drop_id [of "Suc (length bs)" "tn_buffer u"] by (simp_all add: holds_def)
  moreover have "fst (alloc ?t)" using h holds_alloc [of "TELNET_MSSP_VAR # bs" ?t] by simp
  ultimately show ?thesis
    using mssp_telnet_decodes [of ?t bs] assms(1) h by (simp add: t_subnegotiate_def Let_def holds_def)
qed

lemma subnegotiate_zmp:
  assumes "tn_sb_telopt u = TELNET_TELOPT_ZMP" and "args \<noteq> []" and "\<forall>a \<in> set args. 0 \<notin> set a"
    and h: "holds (concat (map (\<lambda>a. a @ [0]) args)) u"
  shows "tn_events (snd (t_subnegotiate u)) = tn_events u @
    [EV_SUBNEGOTIATION TELNET_TELOPT_ZMP (concat (map (\<lambda>a. a @ [0]) args)), EV_ZMP args]"
proof -
  let ?bs = "concat (map (\<lambda>a. a @ [0]) args)"
  have l: "?bs \<noteq> []" "last ?bs = 0"
    using assms(2) by (induction args) (auto simp: last_append)
  let ?t = "emit (EV_SUBNEGOTIATION TELNET_TELOPT_ZMP ?bs) u"
  have b: "tn_buffer u ! (length ?bs - 1) = 0"
    using h l last_conv_nth [OF l(1)] nth_take [of "length ?bs - 1" "length ?bs" "tn_buffer u"]
    by (simp add: holds_def)
  obtain t1 where a: "alloc ?t = (True, t1)" using holds_alloc [of ?bs ?t] h by (cases "alloc ?t") auto
  have f: "tn_sb_telopt u = TELNET_TELOPT_ZMP" "take (tn_buffer_pos u) (tn_buffer u) = ?bs"
    "tn_buffer_pos u = length ?bs" using assms(1) h by (simp_all add: holds_def)
  show ?thesis unfolding t_subnegotiate_def t_zmp_telnet_def Let_def
    using zmp_split_args [OF assms(3)] alloc_eqD(10) [OF a] l(1)
    by (simp only: f emit_frame take_all_iff) (use b a f in \<open>simp add: f(2)\<close>)
qed

lemma subnegotiate_ttype:
  assumes "tn_sb_telopt u = TELNET_TELOPT_TTYPE"
  shows "holds (TELNET_TTYPE_IS # name) u \<Longrightarrow> 0 \<notin> set name \<Longrightarrow>
      tn_events (snd (t_subnegotiate u)) = tn_events u @
        [EV_SUBNEGOTIATION TELNET_TELOPT_TTYPE (TELNET_TTYPE_IS # name),
         EV_TTYPE TELNET_TTYPE_IS (Some name)]"
    and "holds [TELNET_TTYPE_SEND] u \<Longrightarrow>
      tn_events (snd (t_subnegotiate u)) = tn_events u @
        [EV_SUBNEGOTIATION TELNET_TELOPT_TTYPE [TELNET_TTYPE_SEND], EV_TTYPE TELNET_TTYPE_SEND None]"
proof -
  have first: "tn_buffer u ! 0 = b" if "holds (b # bs) u" for b bs
    using that by (cases "tn_buffer u") (auto simp: holds_def)
  show "tn_events (snd (t_subnegotiate u)) = tn_events u @
      [EV_SUBNEGOTIATION TELNET_TELOPT_TTYPE [TELNET_TTYPE_SEND], EV_TTYPE TELNET_TTYPE_SEND None]"
    if h: "holds [TELNET_TTYPE_SEND] u"
    using assms first [OF h] h by (simp add: t_subnegotiate_def t_ttype_telnet_def Let_def holds_def)
  assume h: "holds (TELNET_TTYPE_IS # name) u" and n: "0 \<notin> set name"
  let ?t = "emit (EV_SUBNEGOTIATION TELNET_TELOPT_TTYPE (TELNET_TTYPE_IS # name)) u"
  obtain t1 where a: "alloc ?t = (True, t1)" using holds_alloc [of _ ?t] h by (cases "alloc ?t") auto
  have f: "take (Suc (length name)) (tn_buffer u) = 0 # name" "tn_buffer_pos u = Suc (length name)"
    using h by (simp_all add: holds_def)
  show "tn_events (snd (t_subnegotiate u)) = tn_events u @
      [EV_SUBNEGOTIATION TELNET_TELOPT_TTYPE (TELNET_TTYPE_IS # name), EV_TTYPE TELNET_TTYPE_IS (Some name)]"
    using assms first [OF h] f a n alloc_eqD(10) [OF a] cstr_terminated [of name "[]"]
    by (simp add: t_subnegotiate_def t_ttype_telnet_def Let_def)
qed

section \<open>NEW-ENVIRON\<close>

text \<open>
  A variable as the application sends it: its kind, its name and perhaps a value, one
  \<^verbatim>\<open>telnet_newenviron_value\<close> call for each text.
\<close>

type_synonym environ_var = "byte \<times> byte list \<times> byte list option"

fun newenviron_var :: "environ_var \<Rightarrow> telnet \<Rightarrow> telnet" where
  "newenviron_var (ty, name, None) t = telnet_newenviron_value ty (Some name) t"
| "newenviron_var (ty, name, Some v) t =
     telnet_newenviron_value TELNET_ENVIRON_VALUE (Some v) (telnet_newenviron_value ty (Some name) t)"

fun newenviron_payload :: "environ_var \<Rightarrow> byte list" where
  "newenviron_payload (ty, name, None) = ty # name"
| "newenviron_payload (ty, name, Some v) = ty # name @ TELNET_ENVIRON_VALUE # v"

definition environ_clean :: "byte list \<Rightarrow> bool" where
  "environ_clean s \<longleftrightarrow> (\<forall>b \<in> set s. 3 < b)"

fun environ_sendable :: "environ_var \<Rightarrow> bool" where
  "environ_sendable (ty, name, v) \<longleftrightarrow> (ty = TELNET_ENVIRON_VAR \<or> ty = TELNET_ENVIRON_USERVAR) \<and>
     environ_clean name \<and> (case v of None \<Rightarrow> True | Some w \<Rightarrow> environ_clean w)"

lemma environ_clean_simps [simp]:
  "environ_clean []" "environ_clean (b # s) \<longleftrightarrow> 3 < b \<and> environ_clean s"
  by (simp_all add: environ_clean_def)

lemma environ_clean_last: "environ_clean s \<Longrightarrow> s \<noteq> [] \<Longrightarrow> 3 < last s"
  by (simp add: environ_clean_def)

lemma environ_clean_cstr: "environ_clean s \<Longrightarrow> cstr s 0 = s"
  by (force simp: cstr_def environ_clean_def takeWhile_eq_all_conv)

lemma environ_clean_takeWhile: "environ_clean s \<Longrightarrow> takeWhile (\<lambda>b. b \<noteq> 0) s = s"
  using environ_clean_cstr [of s] by (simp add: cstr_def)

lemma sends_newenviron_value:
  "sends (iac_escape (ty # (case s of None \<Rightarrow> [] | Some x \<Rightarrow> cstr x 0))) t (telnet_newenviron_value ty s t)"
proof (cases s)
  case None
  then show ?thesis using sends_telnet_send [of "[ty]" t] by (simp add: telnet_newenviron_value_def)
next
  case (Some x)
  from sends_trans [OF sends_telnet_send [of "[ty]" t] sends_telnet_send [of "cstr x 0"]]
  show ?thesis using Some iac_escape_Cons [of ty] by (simp add: telnet_newenviron_value_def)
qed

lemma sends_newenviron_var:
  assumes "environ_sendable e"
  shows "sends (iac_escape (newenviron_payload e)) t (newenviron_var e t)"
proof -
  obtain ty name v where e: "e = (ty, name, v)" by (cases e)
  have n: "sends (iac_escape (ty # name)) t (telnet_newenviron_value ty (Some name) t)" for t
    using sends_newenviron_value [of ty "Some name" t] assms e by (simp add: environ_clean_cstr)
  show ?thesis
  proof (cases v)
    case None
    then show ?thesis using e n by simp
  next
    case (Some w)
    have "sends (iac_escape (TELNET_ENVIRON_VALUE # w)) u
        (telnet_newenviron_value TELNET_ENVIRON_VALUE (Some w) u)" for u
      using sends_newenviron_value [of _ "Some w" u] assms e Some by (simp add: environ_clean_cstr)
    from sends_trans [OF n this] show ?thesis using e Some by (simp flip: iac_escape_simps(2))
  qed
qed

lemma sends_newenviron_vars:
  "\<forall>e \<in> set es. environ_sendable e \<Longrightarrow>
   sends (iac_escape (concat (map newenviron_payload es))) t (fold newenviron_var es t)"
proof (induction es arbitrary: t)
  case (Cons e es)
  then have "sends (iac_escape (newenviron_payload e)) t (newenviron_var e t)"
    "sends (iac_escape (concat (map newenviron_payload es))) u (fold newenviron_var es u)" for u
    by (simp_all add: sends_newenviron_var)
  from sends_trans [OF this] show ?case by simp
qed (simp add: sends_refl)

lemma sends_newenviron:
  assumes "\<forall>e \<in> set es. environ_sendable e"
  shows "sends (sb_frame TELNET_TELOPT_NEW_ENVIRON (cmd # concat (map newenviron_payload es))) t
    (telnet_finish_sb (fold newenviron_var es (telnet_begin_newenviron cmd t)))"
proof -
  have b: "sends ([TELNET_IAC, TELNET_SB, TELNET_TELOPT_NEW_ENVIRON] @ iac_escape [cmd]) t
      (telnet_begin_newenviron cmd t)"
    unfolding telnet_begin_newenviron_def by (intro sends_trans [OF sends_begin_sb sends_telnet_send])
  from sends_trans [OF b sends_trans [OF sends_newenviron_vars [OF assms] sends_finish_sb]]
  show ?thesis using iac_escape_Cons [of cmd "concat (map newenviron_payload es)"] by (simp add: sb_frame_def)
qed

lemma environ_text_clean:
  "environ_clean s \<Longrightarrow> (\<And>b. 3 < b \<Longrightarrow> \<not> stop b) \<Longrightarrow> r = [] \<or> stop (hd r) \<Longrightarrow> environ_text stop (s @ r) = (s, r)"
  by (induction s) (cases r; force)+

lemma environ_ends:
  "environ_name_end b \<Longrightarrow> b \<le> 3" "environ_value_end b \<Longrightarrow> b \<le> 3"
  by (auto simp: environ_name_end_def environ_value_end_def)

lemma environ_decode_payload:
  assumes "\<forall>e \<in> set es. environ_sendable e"
  shows "environ_decode (concat (map newenviron_payload es)) = es \<and>
    (es = [] \<or> environ_value_end (hd (concat (map newenviron_payload es))))"
  using assms
proof (induction es)
  case (Cons e es)
  let ?r = "concat (map newenviron_payload es)"
  obtain ty name v where e: "e = (ty, name, v)" by (cases e)
  have r: "?r = [] \<or> environ_value_end (hd ?r)" and d: "environ_decode ?r = es" using Cons by auto
  have s: "environ_clean name" "ty = 0 \<or> ty = 3" using Cons.prems e by auto
  have ends: "environ_text environ_value_end (w @ ?r) = (w, ?r)" if "environ_clean w" for w
    using that r environ_ends by (intro environ_text_clean) force+
  show ?case
  proof (cases v)
    case None
    have h: "hd ?r \<noteq> TELNET_ENVIRON_VALUE \<and> environ_name_end (hd ?r)" if "?r \<noteq> []"
      using r that by (auto simp: environ_value_end_def environ_name_end_def)
    have "environ_text environ_name_end (name @ ?r) = (name, ?r)"
      using s h environ_ends by (intro environ_text_clean) force+
    then show ?thesis using e None d h s(2)
      by (cases ?r) (auto simp: environ_value_end_def)
  next
    case (Some w)
    have "environ_text environ_name_end (name @ TELNET_ENVIRON_VALUE # w @ ?r) = (name, TELNET_ENVIRON_VALUE # w @ ?r)"
      using s environ_ends by (intro environ_text_clean) (force simp: environ_name_end_def)+
    moreover have "environ_clean w" using Cons.prems e Some by simp
    ultimately show ?thesis using e Some d ends [of w] s(2) by (auto simp: environ_value_end_def)
  qed
qed simp

lemma newenviron_payload_ok:
  assumes "\<forall>e \<in> set es. environ_sendable e" and "es \<noteq> []" and "cmd \<le> 2"
  shows "environ_payload_ok (cmd # concat (map newenviron_payload es))"
proof -
  let ?r = "concat (map newenviron_payload es)"
  have ne: "newenviron_payload e \<noteq> []" for e by (cases e rule: newenviron_payload.cases) simp_all
  have l: "last (newenviron_payload e) \<noteq> TELNET_ENVIRON_ESC" if "environ_sendable e" for e
    using that by (cases e rule: newenviron_payload.cases) (auto dest: environ_clean_last split: if_splits)
  have "?r = concat (map newenviron_payload (butlast es)) @ newenviron_payload (last es)"
    by (subst append_butlast_last_id [OF assms(2), symmetric]) (simp del: append_butlast_last_id)
  then have r: "?r \<noteq> []" "environ_value_end (hd ?r)" "last ?r \<noteq> TELNET_ENVIRON_ESC"
    using environ_decode_payload [OF assms(1)] assms(1,2) l [of "last es"] ne by auto
  have "cmd = 0 \<or> cmd = 1 \<or> cmd = 2"
  proof -
    have "unat cmd \<le> 2" using assms(3) by (simp add: word_le_nat_alt)
    then have "unat cmd = unat (0 :: byte) \<or> unat cmd = unat (1 :: byte) \<or> unat cmd = unat (2 :: byte)" by auto
    then show ?thesis unfolding word_unat_eq_iff .
  qed
  then show ?thesis using r by (cases ?r) (auto simp: environ_payload_ok_def)
qed

lemma subnegotiate_newenviron:
  assumes "tn_sb_telopt u = TELNET_TELOPT_NEW_ENVIRON" and h: "holds data u" and ok: "environ_payload_ok data"
  shows "tn_events (snd (t_subnegotiate u)) = tn_events u @
    [EV_SUBNEGOTIATION TELNET_TELOPT_NEW_ENVIRON data,
     EV_ENVIRON (data ! 0) (map environ_c (environ_decode (drop 1 data)))]"
proof -
  let ?t = "emit (EV_SUBNEGOTIATION TELNET_TELOPT_NEW_ENVIRON data) u"
  have "tn_buffer ?t = data @ drop (length data) (tn_buffer u)" "tn_buffer_pos ?t = length data"
    using h append_take_drop_id [of "length data" "tn_buffer u"] by (simp_all add: holds_def)
  then have "tn_events (snd (t_environ_telnet TELNET_TELOPT_NEW_ENVIRON ?t)) =
      tn_events ?t @ [EV_ENVIRON (data ! 0) (map environ_c (environ_decode (drop 1 data)))]"
    using environ_telnet_decodes [OF _ _ ok] holds_alloc [of data ?t] h by simp
  then show ?thesis using assms(1) h by (simp add: t_subnegotiate_def Let_def holds_def)
qed

section \<open>Properties\<close>

text \<open>
  C22. Data sent by one tracker arrives unchanged at another: whatever the pieces in which the escaped
  bytes are received, the receiver reports exactly the bytes sent, and nothing else about it changes.
\<close>

theorem data_roundtrip:
  assumes "tn_state r = STATE_DATA" and "concat xss = sent_bytes (new_events t (telnet_send bs t))"
  shows "same_upto_cuts (fold telnet_recv xss r)
    (r\<lparr>tn_events := tn_events r @ [EV_DATA bs (of_nat (length bs))]\<rparr>)"
proof -
  have w: "concat xss = iac_escape bs" using assms(2) sends_sent [OF sends_telnet_send] by simp
  then have "mccp1_free r (concat xss)" using mccp1_free_data [OF assms(1)] by simp
  from recv_many_chunks [OF this] show ?thesis using recv_escaped [OF assms(1), of bs] w same_trans by metis
qed

lemma sent_fresh_data: "sent_bytes (new_events fresh (telnet_send [65, 255, 66] fresh)) = [65, 255, 255, 66]"
  using sends_sent [OF sends_telnet_send [of "[65, 255, 66]" fresh]] by (simp add: iac_escape_def)

theorem data_roundtrip_witness:
  "same_upto_cuts (fold telnet_recv [[65, 255], [255, 66]] fresh)
    (fresh\<lparr>tn_events := [EV_DATA [65, 255, 66] 3]\<rparr>)"
  using data_roundtrip [of fresh "[[65, 255], [255, 66]]" fresh "[65, 255, 66]"] sent_fresh_data by simp


lemma holds_fresh: "holds [] fresh"
  by (simp add: holds_def buffer_ok_def buffer_sizes_def)


text \<open>
  C24. A ZMP command sent with \<^verbatim>\<open>telnet_send_zmp\<close> is received as the same argument vector.
\<close>

theorem zmp_roundtrip:
  assumes "tn_state r = STATE_DATA" and "holds old r"
    and "sum_list (map (\<lambda>a. length (cstr a 0) + 1) args) \<le> 16384"
    and "telnet_send_zmp args t = Some t'" and "concat xss = sent_bytes (new_events t t')"
  shows "reports r [EV_SUBNEGOTIATION TELNET_TELOPT_ZMP (concat (map (\<lambda>a. cstr a 0 @ [0]) args)),
      EV_ZMP (map (\<lambda>a. cstr a 0) args)] (fold telnet_recv xss r)"
proof -
  let ?as = "map (\<lambda>a. cstr a 0) args"
  let ?bs = "concat (map (\<lambda>a. a @ [0]) ?as)"
  have bs: "?bs = concat (map (\<lambda>a. cstr a 0 @ [0]) args)" by (simp add: comp_def)
  have len: "length ?bs \<le> 16384" using assms(3) by (simp add: length_concat comp_def)
  have wire: "concat xss = sb_frame TELNET_TELOPT_ZMP ?bs"
    using sends_sent [OF sends_zmp [OF assms(4)]] assms(5) bs by simp
  have "args \<noteq> []" using assms(4) by auto
  then have "tn_events (snd (t_subnegotiate u)) = tn_events u @ [EV_SUBNEGOTIATION TELNET_TELOPT_ZMP ?bs, EV_ZMP ?as]"
    if "holds ?bs u" "tn_sb_telopt u = TELNET_TELOPT_ZMP" for u
    using that subnegotiate_zmp [of u ?as] cstr_no_nul by simp
  then show ?thesis using recv_sb_reports [OF assms(1,2) len _ wire] bs by simp
qed

theorem zmp_roundtrip_witness:
  "reports fresh [EV_SUBNEGOTIATION TELNET_TELOPT_ZMP [122, 0, 255, 0], EV_ZMP [[122], [255]]]
     (fold telnet_recv [[255, 250, 93, 122], [0, 255, 255, 0, 255, 240]] fresh)"
proof -
  obtain t' where t': "telnet_send_zmp [[122], [255, 0]] fresh = Some t'" by simp
  have "sent_bytes (new_events fresh t') = [255, 250, 93, 122, 0, 255, 255, 0, 255, 240]"
    using sends_sent [OF sends_zmp [OF t']] by (simp add: sb_frame_def iac_escape_def cstr_def)
  then show ?thesis
    using zmp_roundtrip [of fresh "[]" "[[122], [255, 0]]" fresh t' "[[255, 250, 93, 122], [0, 255, 255, 0, 255, 240]]"]
      t' holds_fresh by (simp add: cstr_def)
qed

text \<open>
  The terminal type announced with \<^verbatim>\<open>telnet_ttype_is\<close> is received as that name, as long as it has no
  byte 255: unlike every other sending function this one does not escape its text.
\<close>

theorem ttype_roundtrip:
  assumes "tn_state r = STATE_DATA" and "holds old r" and "length (cstr name 0) < 16384"
    and "TELNET_IAC \<notin> set (cstr name 0)" and "concat xss = sent_bytes (new_events t (telnet_ttype_is name t))"
  shows "reports r [EV_SUBNEGOTIATION TELNET_TELOPT_TTYPE (TELNET_TTYPE_IS # cstr name 0),
      EV_TTYPE TELNET_TTYPE_IS (Some (cstr name 0))] (fold telnet_recv xss r)"
  using recv_sb_reports [OF assms(1,2), of "TELNET_TTYPE_IS # cstr name 0" TELNET_TELOPT_TTYPE xss] assms(3,5)
    subnegotiate_ttype(1) cstr_no_nul sends_sent [OF sends_ttype_is [OF assms(4)]]
  by simp

theorem ttype_roundtrip_witness:
  "reports fresh [EV_SUBNEGOTIATION TELNET_TELOPT_TTYPE [0, 118, 116], EV_TTYPE TELNET_TTYPE_IS (Some [118, 116])]
     (fold telnet_recv [[255, 250, 24, 0, 118, 116, 255, 240]] fresh)"
proof -
  have "sent_bytes (new_events fresh (telnet_ttype_is [118, 116] fresh)) = [255, 250, 24, 0, 118, 116, 255, 240]"
    using sends_sent [OF sends_ttype_is [of "[118, 116]" fresh]] by (simp add: sb_frame_def iac_escape_def cstr_def)
  then show ?thesis
    using ttype_roundtrip [of fresh "[]" "[118, 116]" "[[255, 250, 24, 0, 118, 116, 255, 240]]" fresh] holds_fresh
    by (simp add: cstr_def)
qed

text \<open>
  Variables sent with the NEW-ENVIRON functions are received with their kinds, names and values,
  if the texts are free of the four marker bytes, which \<^verbatim>\<open>telnet_newenviron_value\<close> does not escape.
\<close>

theorem newenviron_roundtrip:
  assumes "tn_state r = STATE_DATA" and "holds old r" and "es \<noteq> []" and "cmd \<le> 2"
    and "\<forall>e \<in> set es. environ_sendable e" and "length (concat (map newenviron_payload es)) < 16384"
    and "concat xss =
      sent_bytes (new_events t (telnet_finish_sb (fold newenviron_var es (telnet_begin_newenviron cmd t))))"
  shows "reports r
      [EV_SUBNEGOTIATION TELNET_TELOPT_NEW_ENVIRON (cmd # concat (map newenviron_payload es)),
       EV_ENVIRON cmd (map (\<lambda>(ty, name, v). \<lparr>env_type = ty, env_var = Some name,
         env_value = Some (case v of None \<Rightarrow> [] | Some w \<Rightarrow> w)\<rparr>) es)] (fold telnet_recv xss r)"
proof -
  let ?bs = "cmd # concat (map newenviron_payload es)"
  have ok: "environ_payload_ok ?bs" using newenviron_payload_ok assms(3-5) by blast
  have wire: "concat xss = sb_frame TELNET_TELOPT_NEW_ENVIRON ?bs"
    using sends_sent [OF sends_newenviron [OF assms(5)]] assms(7) by simp
  have dec: "environ_decode (drop 1 ?bs) = es" using environ_decode_payload [OF assms(5)] by simp
  have c: "environ_c (ty, name, v) = \<lparr>env_type = ty, env_var = Some name,
      env_value = Some (case v of None \<Rightarrow> [] | Some w \<Rightarrow> w)\<rparr>" if "environ_sendable (ty, name, v)" for ty name v
    using that by (cases v) (simp_all add: environ_c_def environ_clean_takeWhile del: takeWhile_eq_all_conv)
  have "map environ_c es = map (\<lambda>(ty, name, v). \<lparr>env_type = ty, env_var = Some name,
      env_value = Some (case v of None \<Rightarrow> [] | Some w \<Rightarrow> w)\<rparr>) es"
    using assms(5) by (intro map_cong) (auto simp: c)
  then show ?thesis
    using recv_sb_reports [OF assms(1,2) _ _ wire] assms(6) subnegotiate_newenviron [OF _ _ ok] dec by simp
qed

theorem newenviron_roundtrip_witness:
  "reports fresh [EV_SUBNEGOTIATION TELNET_TELOPT_NEW_ENVIRON [0, 0, 85, 1, 112, 3, 88],
      EV_ENVIRON 0 [\<lparr>env_type = 0, env_var = Some [85], env_value = Some [112]\<rparr>,
                    \<lparr>env_type = 3, env_var = Some [88], env_value = Some []\<rparr>]]
     (fold telnet_recv [[255, 250, 39, 0, 0, 85, 1, 112, 3, 88, 255, 240]] fresh)"
proof -
  let ?es = "[(0, [85], Some [112]), (3, [88], None)] :: environ_var list"
  have "sent_bytes (new_events fresh (telnet_finish_sb (fold newenviron_var ?es (telnet_begin_newenviron 0 fresh)))) =
      [255, 250, 39, 0, 0, 85, 1, 112, 3, 88, 255, 240]"
    using sends_sent [OF sends_newenviron [of ?es 0 fresh]] by (simp add: sb_frame_def iac_escape_def)
  then show ?thesis
    using newenviron_roundtrip [of fresh "[]" ?es 0 "[[255, 250, 39, 0, 0, 85, 1, 112, 3, 88, 255, 240]]" fresh]
      holds_fresh by simp
qed


end
