(* ===== verification/Telnet_Properties.thy ===== *)
theory Telnet_Properties
  imports Telnet_Send
begin

text \<open>
  What an application may rely on when it drives a tracker: the calls of the library as a step
  relation, the invariant of every reachable tracker, option negotiation, and the parser on whole
  streams. The last section states where the library departs from its contract.
\<close>

section \<open>Reachable trackers\<close>

text \<open>
  One call of the library. The functions not listed (\<^verbatim>\<open>telnet_send_zmp\<close>, \<^verbatim>\<open>telnet_begin_newenviron\<close>, ...)
  are sequences of listed ones.
\<close>

inductive telnet_call :: "telnet \<Rightarrow> telnet \<Rightarrow> bool" where
  call_recv: "telnet_call t (telnet_recv buf t)"
| call_negotiate: "telnet_call t (telnet_negotiate cmd opt t)"
| call_iac: "telnet_call t (telnet_iac cmd t)"
| call_send: "telnet_call t (telnet_send buf t)"
| call_begin_sb: "telnet_call t (telnet_begin_sb opt t)"
| call_subnegotiation: "telnet_call t (telnet_subnegotiation opt buf t)"
| call_vprintf: "telnet_call t (snd (telnet_vprintf out t))"
| call_raw_vprintf: "telnet_call t (snd (telnet_raw_vprintf out t))"
| call_ttype_send: "telnet_call t (telnet_ttype_send t)"
| call_ttype_is: "telnet_call t (telnet_ttype_is name t)"
| call_newenviron_value: "telnet_call t (telnet_newenviron_value ty s t)"
| call_zmp_arg: "telnet_call t (telnet_zmp_arg arg t)"

inductive telnet_reached :: "telnet \<Rightarrow> bool" where
  reached_init: "telnet_init telopts flags allocs serr = Some t \<Longrightarrow> telnet_reached t"
| reached_call: "telnet_reached t \<Longrightarrow> telnet_call t t' \<Longrightarrow> telnet_reached t'"

lemma tracker_ok_init: "telnet_init telopts flags allocs serr = Some t \<Longrightarrow> tracker_ok t"
  by (auto simp: telnet_init_def tracker_ok_def buffer_ok_def buffer_sizes_def q_inv_def q_ok_def
      q_valid_def q_get_empty split: list.splits bool.splits)

lemma tracker_ok_events: "tracker_ok (t\<lparr>tn_events := es\<rparr>) = tracker_ok t"
  using q_inv_cong [of "t\<lparr>tn_events := es\<rparr>" t] by (simp add: tracker_ok_def buffer_ok_def)

lemma tracker_ok_sends: "sends bs t t' \<Longrightarrow> tracker_ok t' = tracker_ok t"
  by (auto simp: sends_def tracker_ok_events)

lemma tracker_ok_alloc: "alloc t = (ok, t1) \<Longrightarrow> tracker_ok t1 = tracker_ok t"
proof -
  assume a: "alloc t = (ok, t1)"
  show ?thesis using q_inv_cong [of t1 t] alloc_eqD [OF a] by (simp add: tracker_ok_def buffer_ok_def)
qed

lemma tracker_ok_negotiate: "tracker_ok t \<Longrightarrow> tracker_ok (telnet_negotiate cmd opt t)"
proof -
  have b: "tn_buffer (telnet_negotiate cmd opt t) = tn_buffer t"
    "tn_buffer_pos (telnet_negotiate cmd opt t) = tn_buffer_pos t"
    "tn_buffer_size (telnet_negotiate cmd opt t) = tn_buffer_size t"
    by (simp_all add: telnet_negotiate_def neg_emit_defs Let_def)
  show "tracker_ok t \<Longrightarrow> tracker_ok (telnet_negotiate cmd opt t)"
    using b q_inv_telnet_negotiate by (simp add: tracker_ok_def buffer_ok_def)
qed

lemma tracker_ok_vprintf:
  "tracker_ok (snd (telnet_vprintf out t)) = tracker_ok t"
  "tracker_ok (snd (telnet_raw_vprintf out t)) = tracker_ok t"
  using tracker_ok_alloc [of t] tracker_ok_sends [OF sends_printf] tracker_ok_sends [OF sends_telnet_send]
  by (auto simp: telnet_vprintf_def telnet_raw_vprintf_def t_error_def split: prod.splits)

lemma tracker_ok_sb_text:
  "tracker_ok (telnet_ttype_is name t) = tracker_ok t"
  "tracker_ok (telnet_zmp_arg arg t) = tracker_ok t"
  "tracker_ok (telnet_newenviron_value ty s t) = tracker_ok t"
  using tracker_ok_sends [OF sends_telnet_send] tracker_ok_sends [OF sends_newenviron_value]
  by (simp_all add: telnet_ttype_is_def telnet_finish_sb_def telnet_iac_def telnet_zmp_arg_def t_send_def)

lemma tracker_ok_call: "telnet_call t t' \<Longrightarrow> tracker_ok t \<Longrightarrow> tracker_ok t'"
  by (induction rule: telnet_call.induct)
    (simp_all add: tracker.keeps_recv tracker_ok_negotiate tracker_ok_vprintf tracker_ok_sb_text
      tracker_ok_sends [OF sends_iac] tracker_ok_sends [OF sends_telnet_send]
      tracker_ok_sends [OF sends_ttype_send] tracker_ok_sends [OF sends_begin_sb] tracker_ok_sends [OF sends_subnegotiation])

text \<open>
  C3. Every tracker that calls of the library can reach from \<^verbatim>\<open>telnet_init\<close> is well-formed, whatever
  the peer sends and whichever allocations fail: the option table holds states of the Q method only,
  its length is a multiple of four that the allocated array covers, and the subnegotiation buffer's
  position never exceeds its size, which is one of the five sizes the code allocates.
\<close>

theorem reached_tracker_ok: "telnet_reached t \<Longrightarrow> tracker_ok t"
  by (induction rule: telnet_reached.induct) (auto intro: tracker_ok_init tracker_ok_call)

theorem reached_tracker_ok_witness: "tracker_ok (telnet_recv [255, 251, 1, 255, 250, 31, 7] fresh)"
proof -
  have "telnet_reached fresh" by (rule reached_init [of None 0 "[]" "[]"]) (simp add: telnet_init_def fresh_def)
  then have "telnet_reached (telnet_recv [255, 251, 1, 255, 250, 31, 7] fresh)" by (rule reached_call) (rule call_recv)
  then show ?thesis by (rule reached_tracker_ok)
qed

section \<open>Option negotiation\<close>


lemma fresh_table:
  "q_room opt (fresh\<lparr>tn_state := s\<rparr>)" "q_valid (fresh\<lparr>tn_state := s\<rparr>)" "\<not> t_proxy (fresh\<lparr>tn_state := s\<rparr>)"
  "us_of (fresh\<lparr>tn_state := s\<rparr>) opt = NO" "him_of (fresh\<lparr>tn_state := s\<rparr>) opt = NO"
  "t_check_telopt (fresh\<lparr>tn_state := s\<rparr>) opt us = False"
  by (simp_all add: q_room_def q_ok_def q_valid_def q_get_empty t_proxy_def us_of_def him_of_def q_abs_def
      alloc_def t_check_telopt_def)




section \<open>Streams\<close>



text \<open>
  C32. On a stream without the MCCP version 1 marker every DATA event is non-empty and carries as its size
  the number of bytes it points at.
\<close>

theorem data_sizes_exact:
  assumes "mccp1_free t buf" and "list_all event_sized (tn_events t)"
  shows "list_all event_sized (tn_events (telnet_recv buf t))"
  using process_sized [of t 0 0 buf] assms by (simp add: telnet_recv_def sized_def)

theorem data_sizes_exact_witness: "list_all event_sized (tn_events (telnet_recv [65, 255, 241, 66] fresh))"
  using data_sizes_exact [of fresh "[65, 255, 241, 66]"] by (simp add: mccp1_marker_def feed_def process_iac_def)

text \<open>
  C25. A NEW-ENVIRON payload that starts with a command and a variable marker and does not end in an
  escape is reported as the list of variables that a direct decoding of the bytes gives, although
  the parser works in place: it unescapes, splits and NUL-terminates inside the receive buffer.
\<close>

theorem environ_parsed_in_place:
  assumes "tn_state r = STATE_DATA" and "holds old r" and "length data \<le> 16384" and "environ_payload_ok data"
    and "concat xss = sb_frame TELNET_TELOPT_NEW_ENVIRON data"
  shows "reports r [EV_SUBNEGOTIATION TELNET_TELOPT_NEW_ENVIRON data,
      EV_ENVIRON (data ! 0) (map environ_c (environ_decode (drop 1 data)))] (fold telnet_recv xss r)"
  using recv_sb_reports [OF assms(1-3) _ assms(5)] subnegotiate_newenviron [OF _ _ assms(4)] by simp

theorem environ_parsed_in_place_witness:
  "reports fresh [EV_SUBNEGOTIATION TELNET_TELOPT_NEW_ENVIRON [2, 0, 65, 2, 1, 1, 66],
      EV_ENVIRON 2 [\<lparr>env_type = 0, env_var = Some [65, 1], env_value = Some [66]\<rparr>]]
     (fold telnet_recv [[255, 250, 39, 2, 0, 65, 2, 1, 1, 66, 255, 240]] fresh)"
  using environ_parsed_in_place [of fresh "[]" "[2, 0, 65, 2, 1, 1, 66]" "[[255, 250, 39, 2, 0, 65, 2, 1, 1, 66, 255, 240]]"]
    holds_fresh
  by (simp add: environ_payload_ok_def environ_value_end_def environ_name_end_def sb_frame_def iac_escape_def environ_c_def)

text \<open>
  An MSSP payload is reported as the list of name and value pairs that a direct decoding gives,
  followed by one entry of null pointers for a VAL marker with nothing after it.
\<close>

theorem mssp_parsed_in_place:
  assumes "tn_state r = STATE_DATA" and "holds old r" and "length bs < 16384"
    and "concat xss = sb_frame TELNET_TELOPT_MSSP (TELNET_MSSP_VAR # bs)"
  shows "reports r [EV_SUBNEGOTIATION TELNET_TELOPT_MSSP (TELNET_MSSP_VAR # bs),
      EV_MSSP (map mssp_c (mssp_decode TELNET_MSSP_VAR [] bs) @
               replicate (mssp_lost TELNET_MSSP_VAR bs) mssp_null)] (fold telnet_recv xss r)"
  using recv_sb_reports [OF assms(1,2) _ _ assms(4)] assms(3) subnegotiate_mssp by simp

theorem mssp_parsed_in_place_witness:
  "reports fresh [EV_SUBNEGOTIATION TELNET_TELOPT_MSSP [1, 80, 2, 55, 2],
      EV_MSSP [\<lparr>env_type = 0, env_var = Some [80], env_value = Some [55]\<rparr>, mssp_null]]
     (fold telnet_recv [[255, 250, 70, 1, 80, 2, 55, 2], [255, 240]] fresh)"
  using mssp_parsed_in_place [of fresh "[]" "[80, 2, 55, 2]" "[[255, 250, 70, 1, 80, 2, 55, 2], [255, 240]]"]
    holds_fresh
  by (simp add: sb_frame_def iac_escape_def mssp_c_def mssp_marker_def mssp_lost_def mssp_decode.simps)

text \<open>
  A subnegotiation byte that does not fit the full buffer of 16384 bytes ends the subnegotiation: the
  handler gets one warning, the buffer is kept as it is and the parser reads data again.
\<close>

theorem sb_overflow:
  assumes "tn_state t = STATE_SB_DATA" and "holds data t" and "length data = 16384"
    and "b \<noteq> TELNET_IAC" and "\<not> mccp1_marker b t"
  shows "telnet_recv [b] t = (emit (EV_WARNING ''_buffer_byte'' ''subnegotiation buffer size limit reached'') t)
    \<lparr>tn_state := STATE_DATA\<rparr>"
proof -
  have "tn_buffer_pos t = 16384" "tn_buffer_size t = 16384"
    using assms(2,3) by (auto simp: holds_def buffer_ok_def buffer_sizes_def)
  then have "t_buffer_byte b t =
      (TELNET_EOVERFLOW, emit (EV_WARNING ''_buffer_byte'' ''subnegotiation buffer size limit reached'') t)"
    by (simp add: t_buffer_byte_def buffer_sizes_def t_error_def)
  then show ?thesis
    using assms(1,4,5) by (auto simp: telnet_recv_def t_process.simps mccp1_marker_def)
qed

lemma full_holds:
  "holds (replicate 16384 7) (fresh\<lparr>tn_state := STATE_SB_DATA, tn_buffer := replicate 16384 7,
     tn_buffer_size := 16384, tn_buffer_pos := 16384\<rparr>)"
  by (simp add: holds_def buffer_ok_def buffer_sizes_def)

theorem sb_overflow_witness:
  "tn_state (telnet_recv [8] (fresh\<lparr>tn_state := STATE_SB_DATA, tn_buffer := replicate 16384 7,
     tn_buffer_size := 16384, tn_buffer_pos := 16384\<rparr>)) = STATE_DATA"
  by (subst sb_overflow [OF _ full_holds]) (simp_all add: mccp1_marker_def)

section \<open>Where the library departs from its contract\<close>

text \<open>
  While we want an option off and then on again, a WONT moves to "wants it on" as the Q method says,
  but the DO that the method sends is never sent: the negotiation of the option is stuck.
\<close>

theorem wont_sends_no_request:
  assumes "\<not> t_proxy t" and "tn_state t = STATE_WONT" and "q_room opt t" and "q_valid t"
    and "him_of t opt = WANTNO_OP"
  shows "him_of (t_negotiate opt t) opt = WANTYES \<and> sent_bytes (new_events t (t_negotiate opt t)) = [] \<and>
    rfc_recv_neg (him_of t opt) = (WANTYES, Some True)"
  using recv_wont_refines [OF assms(1-4)] assms(5) by simp

theorem wont_sends_no_request_witness:
  "let t = fresh\<lparr>tn_state := STATE_WONT, tn_q := [\<lparr>q_telopt = 1, q_state = 64\<rparr>, \<lparr>q_telopt = 0, q_state = 0\<rparr>,
     \<lparr>q_telopt = 0, q_state = 0\<rparr>, \<lparr>q_telopt = 0, q_state = 0\<rparr>], tn_q_size := 4\<rparr> in
   him_of (t_negotiate 1 t) 1 = WANTYES \<and> sent_bytes (new_events t (t_negotiate 1 t)) = []"
proof -
  let ?t = "fresh\<lparr>tn_state := STATE_WONT, tn_q := [\<lparr>q_telopt = 1, q_state = 64\<rparr>, \<lparr>q_telopt = 0, q_state = 0\<rparr>,
     \<lparr>q_telopt = 0, q_state = 0\<rparr>, \<lparr>q_telopt = 0, q_state = 0\<rparr>], tn_q_size := 4\<rparr>"
  have g: "q_get ?t opt = (if opt = 1 then (0, 4) else (0, 0))" for opt
    by (auto simp: q_get_def t_get_rfc1143_def q_used_def Q_US_def Q_HIM_def)
  have "q_room 1 ?t" by (simp add: q_room_def q_ok_def q_tracked_def q_used_def)
  moreover have "q_valid ?t" "him_of ?t 1 = WANTNO_OP" by (simp_all add: q_valid_def g him_of_def q_abs_def)
  ultimately show ?thesis using wont_sends_no_request [of ?t 1] by (simp add: t_proxy_def)
qed

text \<open>
  The table's length is kept in eight bits: recording 64 options wraps it to zero, and the states
  of all of them are forgotten.
\<close>

theorem table_forgets:
  assumes "distinct opts" and "0 \<notin> set opts" and "length opts = 64" and "tn_q_size t = 0" and "tn_allocs t = []"
  shows "q_get (q_record opts t) p = (Q_NO, Q_NO)"
  using assms by (rule q_record_forgets)

theorem table_forgets_witness: "q_get (q_record (map of_nat [1..<65]) fresh) 1 = (Q_NO, Q_NO)"
  by (rule table_forgets) (simp_all add: upt_conv_Cons distinct_map)

text \<open>
  When a receive buffer ends with the MCCP version 1 marker, the start of the next data is set past
  the end of the buffer and the handler gets a DATA event whose size is the largest \<^verbatim>\<open>size_t\<close>.
\<close>

theorem mccp1_size_wraps:
  assumes "tn_state t = STATE_DATA"
  shows "tn_events (telnet_recv [TELNET_IAC, TELNET_SB, TELNET_TELOPT_COMPRESS, TELNET_WILL] t) =
    tn_events t @ [EV_DATA [] (- 1)]"
  using assms by (simp add: telnet_recv_def t_process.simps process_iac_def ev_data_def)

theorem mccp1_size_wraps_witness: "tn_events (telnet_recv [255, 250, 85, 251] fresh) = [EV_DATA [] (- 1)]"
  using mccp1_size_wraps [of fresh] by simp

end
