(* ===== verification/Telnet_Socket.thy ===== *)
theory Telnet_Socket
  imports Prelude
begin

text \<open>
  Stream sockets as the telnet tools use them: what \<^verbatim>\<open>send\<close> and \<^verbatim>\<open>recv\<close> answer is given with the socket,
  and the bytes it accepted are kept. \<open>sock_send\<close> is the loop \<^verbatim>\<open>_send\<close> that the proxy and the chat server
  share.
\<close>

section \<open>Answers of the system\<close>

datatype errno = EINTR | ECONNRESET | EOTHER

datatype send_result = Taken nat | SendError errno

datatype recv_result = Received "byte list" | Closed | RecvError errno

text \<open>The bytes a socket accepted, and the answers of the coming calls (when used up, all bytes are taken).\<close>

record socket =
  sock_out :: "byte list"
  sock_answers :: "send_result list"

section \<open>Sending all of it\<close>

function sock_send :: "byte list \<Rightarrow> socket \<Rightarrow> socket outcome" where
  "sock_send buf s =
     (if buf = [] then Go s
      else case sock_answers s of
        [] \<Rightarrow> Go (s\<lparr>sock_out := sock_out s @ buf\<rparr>)
      | SendError e # as \<Rightarrow>
          if e \<noteq> EINTR \<and> e \<noteq> ECONNRESET then Exit 1 (s\<lparr>sock_answers := as\<rparr>) else Go (s\<lparr>sock_answers := as\<rparr>)
      | Taken n # as \<Rightarrow>
          if n = 0 then Exit 1 (s\<lparr>sock_answers := as\<rparr>)
          else if n > length buf then Undefined
          else sock_send (drop n buf) (s\<lparr>sock_answers := as, sock_out := sock_out s @ take n buf\<rparr>))"
  by pat_completeness auto
termination by (relation "measure (\<lambda>(buf, s). length buf)") auto

declare sock_send.simps [simp del]

lemma sock_send_all: "sock_answers s = [] \<Longrightarrow> sock_send buf s = Go (s\<lparr>sock_out := sock_out s @ buf\<rparr>)"
  by (subst sock_send.simps) simp

lemma sock_send_goes: "goes (\<lambda>_. True) (sock_send buf s)"
proof (induction buf s rule: sock_send.induct)
  case (1 buf s)
  then show ?case by (subst sock_send.simps) (auto split: list.split send_result.split)
qed

end
