(* ===== verification/Telnet_Proxy.thy ===== *)
theory Telnet_Proxy
  imports Telnet_Send Telnet_Socket
begin

text \<open>
  The proxy \<^verbatim>\<open>libtelnet/util/telnet-proxy.c\<close>: two connections, each with a tracker in proxy mode; every event of one
  becomes a call on the other. Of what is printed only the null pointers that \<^verbatim>\<open>strlen\<close> would read are
  modelled. A call on a proxy-mode tracker does nothing but send, so the events of a received buffer
  can be handled after it was parsed.
\<close>

section \<open>Connections\<close>

record conn =
  conn_sock :: socket
  conn_telnet :: telnet

definition conn_write :: "byte list \<Rightarrow> conn \<Rightarrow> conn outcome" where
  "conn_write bs c = map_outcome (\<lambda>s. c\<lparr>conn_sock := s\<rparr>) (sock_send bs (conn_sock c))"

text \<open>A call on the tracker of a connection and the SEND events it makes; a proxy-mode call makes no other.\<close>

fun conn_events :: "telnet_event list \<Rightarrow> conn \<Rightarrow> conn outcome" where
  "conn_events [] c = Go c"
| "conn_events (EV_SEND bs # evs) c = and_then (conn_write bs c) (conn_events evs)"
| "conn_events (_ # evs) c = Undefined"

definition conn_call :: "(telnet \<Rightarrow> telnet) \<Rightarrow> conn \<Rightarrow> conn outcome" where
  "conn_call f c =
     (let t = f (no_events (conn_telnet c)) in conn_events (tn_events t) (c\<lparr>conn_telnet := no_events t\<rparr>))"

text \<open>
  \<^verbatim>\<open>_event_handler\<close> on the pair of the connection the event belongs to and its remote.
\<close>

definition proxy_handler :: "telnet_event \<Rightarrow> conn \<times> conn \<Rightarrow> (conn \<times> conn) outcome" where
  "proxy_handler ev p =
     (let (c, remote) = p; forward = (\<lambda>f. map_outcome (\<lambda>r. (c, r)) (conn_call f remote))
      in case ev of
           EV_DATA bs n \<Rightarrow> if n = of_nat (length bs) then forward (telnet_send bs) else Undefined
         | EV_SEND bs \<Rightarrow> map_outcome (\<lambda>c. (c, remote)) (conn_write bs c)
         | EV_IAC cmd \<Rightarrow> forward (telnet_iac cmd)
         | EV_WILL opt \<Rightarrow> forward (telnet_negotiate TELNET_WILL opt)
         | EV_WONT opt \<Rightarrow> forward (telnet_negotiate TELNET_WONT opt)
         | EV_DO opt \<Rightarrow> forward (telnet_negotiate TELNET_DO opt)
         | EV_DONT opt \<Rightarrow> forward (telnet_negotiate TELNET_DONT opt)
         | EV_SUBNEGOTIATION opt bs \<Rightarrow> forward (telnet_subnegotiation opt bs)
         | EV_MSSP vs \<Rightarrow> if list_all (\<lambda>v. env_var v \<noteq> None \<and> env_value v \<noteq> None) vs then Go p else Undefined
         | EV_ERROR func msg \<Rightarrow> Exit 1 p
         | _ \<Rightarrow> Go p)"

fun proxy_events :: "telnet_event list \<Rightarrow> conn \<times> conn \<Rightarrow> (conn \<times> conn) outcome" where
  "proxy_events [] p = Go p"
| "proxy_events (ev # evs) p = and_then (proxy_handler ev p) (proxy_events evs)"

definition proxy_recv :: "byte list \<Rightarrow> conn \<times> conn \<Rightarrow> (conn \<times> conn) outcome" where
  "proxy_recv buf p =
     (let t = telnet_recv buf (no_events (conn_telnet (fst p)))
      in proxy_events (tn_events t) ((fst p)\<lparr>conn_telnet := no_events t\<rparr>, snd p))"

section \<open>The loop\<close>

definition proxy_read :: "recv_result option \<Rightarrow> conn \<times> conn \<Rightarrow> (conn \<times> conn) outcome" where
  "proxy_read r p =
     (case r of
        None \<Rightarrow> Go p
      | Some (Received buf) \<Rightarrow> proxy_recv buf p
      | Some Closed \<Rightarrow> Leave p
      | Some (RecvError e) \<Rightarrow> if e \<noteq> EINTR \<and> e \<noteq> ECONNRESET then Exit 1 p else Go p)"

text \<open>
  One turn of the loop over the pair of server and client: first the server is read, then the client.
\<close>

definition proxy_turn :: "recv_result option \<times> recv_result option \<Rightarrow> conn \<times> conn \<Rightarrow> (conn \<times> conn) outcome" where
  "proxy_turn rs p =
     and_then (proxy_read (fst rs) p) (\<lambda>p. map_outcome prod.swap (proxy_read (snd rs) (prod.swap p)))"

fun proxy_loop :: "(recv_result option \<times> recv_result option) list \<Rightarrow> conn \<times> conn \<Rightarrow> (conn \<times> conn) outcome" where
  "proxy_loop [] p = Go p"
| "proxy_loop (rs # rounds) p = and_then (proxy_turn rs p) (proxy_loop rounds)"

text \<open>Both trackers are created in proxy mode without an option table.\<close>

definition proxy_tracker :: telnet where
  "proxy_tracker = the (telnet_init None TELNET_FLAG_PROXY [] '''')"

section \<open>What is forwarded\<close>

text \<open>The bytes that an event makes the remote side send.\<close>

fun forwarded :: "telnet_event \<Rightarrow> byte list" where
  "forwarded (EV_DATA bs n) = iac_escape bs"
| "forwarded (EV_IAC cmd) = [TELNET_IAC, cmd]"
| "forwarded (EV_WILL opt) = [TELNET_IAC, TELNET_WILL, opt]"
| "forwarded (EV_WONT opt) = [TELNET_IAC, TELNET_WONT, opt]"
| "forwarded (EV_DO opt) = [TELNET_IAC, TELNET_DO, opt]"
| "forwarded (EV_DONT opt) = [TELNET_IAC, TELNET_DONT, opt]"
| "forwarded (EV_SUBNEGOTIATION opt bs) = sb_frame opt bs"
| "forwarded _ = []"

definition forwards :: "telnet_event list \<Rightarrow> byte list" where
  "forwards evs = concat (map forwarded evs)"

lemma forwards_simps [simp]:
  "forwards [] = []" "forwards (e # es) = forwarded e @ forwards es" "forwards (xs @ ys) = forwards xs @ forwards ys"
  by (simp_all add: forwards_def)

lemma forwards_singles: "forwards (map (\<lambda>b. EV_DATA [b] 1) bs) = iac_escape bs"
  by (induction bs) (simp_all add: iac_escape_def)

lemma forwards_flat: "forwards (flat evs) = forwards evs"
  by (induction evs rule: flat.induct) (simp_all add: forwards_singles)

text \<open>A connection whose tracker is in proxy mode and whose socket takes everything.\<close>

definition proxy_conn :: "conn \<Rightarrow> bool" where
  "proxy_conn c \<longleftrightarrow> t_proxy (conn_telnet c) \<and> sock_answers (conn_sock c) = [] \<and> tn_events (conn_telnet c) = []"

definition wrote :: "byte list \<Rightarrow> conn \<Rightarrow> conn" where
  "wrote bs c = c\<lparr>conn_sock := (conn_sock c)\<lparr>sock_out := sock_out (conn_sock c) @ bs\<rparr>\<rparr>"

lemma wrote_simps [simp]: "wrote [] c = c" "wrote b (wrote a c) = wrote (a @ b) c" "proxy_conn (wrote bs c) = proxy_conn c"
  by (simp_all add: wrote_def proxy_conn_def)

lemma conn_write_all: "proxy_conn c \<Longrightarrow> conn_write bs c = Go (wrote bs c)"
  by (simp add: conn_write_def sock_send_all proxy_conn_def wrote_def)

lemma conn_events_sends: "proxy_conn c \<Longrightarrow> conn_events (map EV_SEND ps) c = Go (wrote (concat ps) c)"
  by (induction ps arbitrary: c) (auto simp: conn_write_all)

lemma conn_call_sends:
  assumes "proxy_conn c" and "\<And>t. t_proxy t \<Longrightarrow> sends bs t (f t)"
  shows "conn_call f c = Go (wrote bs c)"
proof -
  let ?t = "conn_telnet c"
  have i: "no_events ?t = ?t" "t_proxy ?t" "tn_events ?t = []"
    using assms(1) by (simp_all add: proxy_conn_def no_events_idle)
  obtain ps where ps: "f ?t = ?t\<lparr>tn_events := map EV_SEND ps\<rparr>" "concat ps = bs"
    using assms(2) [OF i(2)] i(3) by (auto simp: sends_def)
  have "conn_call f c = conn_events (map EV_SEND ps) (c\<lparr>conn_telnet := ?t\<rparr>)"
    unfolding conn_call_def Let_def i(1) ps(1) by (simp add: i(1))
  then show ?thesis using conn_events_sends [OF assms(1)] ps(2) by simp
qed

lemma sends_proxy_negotiate: "t_proxy t \<Longrightarrow> sends [TELNET_IAC, cmd, opt] t (telnet_negotiate cmd opt t)"
  by (simp add: telnet_negotiate_def sends_send)

lemmas conn_calls = conn_call_sends [OF _ sends_telnet_send] conn_call_sends [OF _ sends_iac]
  conn_call_sends [OF _ sends_proxy_negotiate] conn_call_sends [OF _ sends_subnegotiation]

text \<open>Events that the handler gets through without exiting or reading where it must not.\<close>

fun relayable :: "telnet_event \<Rightarrow> bool" where
  "relayable (EV_DATA bs n) = (n = of_nat (length bs))"
| "relayable (EV_SEND bs) = False"
| "relayable (EV_ERROR func msg) = False"
| "relayable (EV_MSSP vs) = list_all (\<lambda>v. env_var v \<noteq> None \<and> env_value v \<noteq> None) vs"
| "relayable _ = True"

lemma proxy_handler_forwards:
  assumes "proxy_conn r" and "relayable ev"
  shows "proxy_handler ev (c, r) = Go (c, wrote (forwarded ev) r)"
  using assms by (cases ev) (simp_all add: proxy_handler_def conn_calls)

lemma proxy_events_forward:
  "proxy_conn r \<Longrightarrow> list_all relayable evs \<Longrightarrow> proxy_events evs (c, r) = Go (c, wrote (forwards evs) r)"
  by (induction evs arbitrary: r) (auto simp: proxy_handler_forwards)

lemma proxy_events_stuck:
  assumes "proxy_conn r" and "list_all relayable evs" and "\<And>p. proxy_handler ev p = Undefined"
  shows "proxy_events (evs @ ev # evs') (c, r) = Undefined"
  using assms by (induction evs arbitrary: r) (auto simp: proxy_handler_forwards)

section \<open>One received buffer\<close>

text \<open>The tracker of a connection after some bytes, and the events they gave.\<close>

definition fed :: "byte list \<Rightarrow> conn \<Rightarrow> conn" where
  "fed bs c = c\<lparr>conn_telnet := no_events (fold feed bs (conn_telnet c))\<rparr>"

definition fed_events :: "byte list \<Rightarrow> conn \<Rightarrow> telnet_event list" where
  "fed_events bs c = tn_events (fold feed bs (no_events (conn_telnet c)))"

text \<open>The bytes from here on hold no MCCP1 marker and nothing that stops the handler.\<close>

definition relayed :: "byte list \<Rightarrow> conn \<Rightarrow> bool" where
  "relayed bs c \<longleftrightarrow> mccp1_free (conn_telnet c) bs \<and> list_all relayable (fed_events bs c)"

lemma fold_feed_no_events: "no_events (fold feed bs (no_events t)) = no_events (fold feed bs t)"
  using fold_feed_after [of bs "tn_events t" "no_events t"] by (metis after_events_no_events no_events_after)

lemma no_events_twice [simp]: "no_events (no_events t) = no_events t"
  by (simp add: no_events_def)

lemma mccp1_free_no_events [simp]: "mccp1_free (no_events t) bs = mccp1_free t bs"
  by (metis mccp1_free_after after_events_no_events)

lemma fed_append: "fed (xs @ ys) c = fed ys (fed xs c)"
  by (simp add: fed_def fold_feed_no_events)

lemma fed_events_append: "fed_events (xs @ ys) c = fed_events xs c @ fed_events ys (fed xs c)"
proof -
  let ?t = "fold feed xs (no_events (conn_telnet c))"
  have "fold feed ys ?t = after_events (tn_events ?t) (fold feed ys (no_events ?t))"
    using fold_feed_after [of ys "tn_events ?t" "no_events ?t"] by simp
  then show ?thesis by (simp add: fed_events_def fed_def fold_feed_no_events)
qed

lemma relayed_append: "relayed (xs @ ys) c \<longleftrightarrow> relayed xs c \<and> relayed ys (fed xs c)"
  by (auto simp: relayed_def fed_events_append mccp1_free_append fed_def)

lemma fed_Nil: "proxy_conn c \<Longrightarrow> fed [] c = c \<and> fed_events [] c = []"
  by (simp add: fed_def fed_events_def proxy_conn_def no_events_idle)

lemma relayable_flat: "list_all event_sized evs \<Longrightarrow> list_all relayable (flat evs) \<Longrightarrow> list_all relayable evs"
  by (induction evs rule: flat.induct) auto

lemma relayable_flat_conv: "list_all relayable evs \<Longrightarrow> list_all relayable (flat evs)"
  by (induction evs rule: flat.induct) (auto simp: list_all_iff)

lemma proxy_recv_relays:
  assumes r: "proxy_conn r" and bs: "relayed bs c"
  shows "proxy_recv bs (c, r) = Go (fed bs c, wrote (forwards (fed_events bs c)) r)"
proof -
  let ?t = "no_events (conn_telnet c)" let ?u = "telnet_recv bs ?t"
  have free: "mccp1_free ?t bs" using bs by (simp add: relayed_def)
  note s = recv_refines_feed [OF free, unfolded same_upto_cuts_def]
  have f: "flat (tn_events ?u) = flat (fed_events bs c)" using s by (simp add: fed_events_def)
  have "list_all event_sized (tn_events ?u)"
    using process_sized [of ?t 0 0 bs] free by (simp add: telnet_recv_def sized_def)
  then have "list_all relayable (tn_events ?u)"
    using relayable_flat [of "tn_events ?u"] relayable_flat_conv [of "fed_events bs c"] bs f by (simp add: relayed_def)
  then have "proxy_recv bs (c, r) = Go (c\<lparr>conn_telnet := no_events ?u\<rparr>, wrote (forwards (tn_events ?u)) r)"
    using proxy_events_forward [OF r] by (simp add: proxy_recv_def Let_def)
  moreover have "forwards (tn_events ?u) = forwards (fed_events bs c)" using f forwards_flat by metis
  moreover have "c\<lparr>conn_telnet := no_events ?u\<rparr> = fed bs c" using s by (simp add: fed_def fold_feed_no_events)
  ultimately show ?thesis by simp
qed

section \<open>Both directions\<close>

text \<open>
  What the loop needs of a tracker: proxy mode, a sound buffer and memory. No input can break it.
\<close>

definition proxying :: "telnet \<Rightarrow> bool" where
  "proxying t \<longleftrightarrow> t_proxy t \<and> buffer_ok t \<and> False \<notin> set (tn_allocs t)"

lemma proxying_frame:
  assumes "tn_flags u = tn_flags t" and "set (tn_allocs u) \<subseteq> set (tn_allocs t)" and "buffer_ok t \<Longrightarrow> buffer_ok u"
  shows "proxying t \<Longrightarrow> proxying u"
  using assms by (auto simp: proxying_def t_proxy_def)

lemma alloc_allocs: "set (tn_allocs (snd (alloc t))) \<subseteq> set (tn_allocs t)"
  by (auto simp: alloc_def split: list.split)

lemma alloc_allocsD: "alloc t = (ok, t1) \<Longrightarrow> set (tn_allocs t1) \<subseteq> set (tn_allocs t)"
  using alloc_allocs [of t] by simp

lemma parser_allocs:
  "set (tn_allocs (snd (t_zmp_telnet t))) \<subseteq> set (tn_allocs t)" "tn_flags (snd (t_zmp_telnet t)) = tn_flags t"
  "set (tn_allocs (snd (t_ttype_telnet t))) \<subseteq> set (tn_allocs t)" "tn_flags (snd (t_ttype_telnet t)) = tn_flags t"
  "set (tn_allocs (snd (t_environ_telnet ty t))) \<subseteq> set (tn_allocs t)" "tn_flags (snd (t_environ_telnet ty t)) = tn_flags t"
  "set (tn_allocs (snd (t_mssp_telnet t))) \<subseteq> set (tn_allocs t)" "tn_flags (snd (t_mssp_telnet t)) = tn_flags t"
  using alloc_allocs [of t] by (simp_all add: parser_frame_defs split_beta split: option.split)

lemma subnegotiate_allocs:
  "set (tn_allocs (snd (t_subnegotiate t))) \<subseteq> set (tn_allocs t)" "tn_flags (snd (t_subnegotiate t)) = tn_flags t"
  by (simp_all add: t_subnegotiate_def Let_def parser_allocs(2,4,6,8) parser_allocs(1,3,5,7) [THEN order_trans])

lemma buffer_byte_allocs:
  "set (tn_allocs (snd (t_buffer_byte b t))) \<subseteq> set (tn_allocs t)" "tn_flags (snd (t_buffer_byte b t)) = tn_flags t"
  using alloc_allocs [of t] by (simp_all add: t_buffer_byte_def t_error_def buffer_push_def split_beta Let_def)

interpretation proxying: tracker_invariant proxying
proof unfold_locales
  fix t b assume p: "proxying t"
  show "proxying (t_negotiate b t)"
    using p by (simp add: t_negotiate_def t_proxy_negotiate_def proxying_def buffer_ok_def t_proxy_def split: telnet_state.split)
  show "proxying (snd (t_buffer_byte b t))"
    using p proxying_frame [OF buffer_byte_allocs(2,1) buffer_ok_byte] by simp
next
  fix t assume "proxying t"
  then show "proxying (snd (t_subnegotiate t))"
    using proxying_frame [OF subnegotiate_allocs(2,1), of t] by (simp add: buffer_ok_def)
qed (simp_all add: proxying_def buffer_ok_def t_proxy_def)

lemma proxying_fold: "proxying t \<Longrightarrow> proxying (fold feed bs t)"
  by (induction bs arbitrary: t) (simp_all add: proxying.keeps_feed)

definition proxy_live :: "conn \<Rightarrow> bool" where
  "proxy_live c \<longleftrightarrow> proxying (conn_telnet c) \<and> tn_events (conn_telnet c) = [] \<and> sock_answers (conn_sock c) = []"

lemma proxy_live_conn: "proxy_live c \<Longrightarrow> proxy_conn c"
  by (simp add: proxy_live_def proxy_conn_def proxying_def)

lemma proxying_no_events [simp]: "proxying (no_events t) = proxying t"
  by (simp add: proxying_def buffer_ok_def t_proxy_def)

lemma proxy_live_fed [simp]: "proxy_live c \<Longrightarrow> proxy_live (fed bs c)"
  by (simp add: proxy_live_def fed_def proxying_fold)

lemma proxy_live_wrote [simp]: "proxy_live (wrote bs c) = proxy_live c"
  by (simp add: proxy_live_def wrote_def)

lemma fed_wrote: "fed bs (wrote out c) = wrote out (fed bs c)" "fed_events bs (wrote out c) = fed_events bs c"
  "relayed bs (wrote out c) = relayed bs c"
  by (simp_all add: fed_def wrote_def fed_events_def relayed_def)

text \<open>A read that keeps the connection, and the bytes it brings.\<close>

fun keeps_open :: "recv_result option \<Rightarrow> bool" where
  "keeps_open (Some Closed) = False"
| "keeps_open (Some (RecvError e)) = (e = EINTR \<or> e = ECONNRESET)"
| "keeps_open _ = True"

fun received :: "recv_result option \<Rightarrow> byte list" where
  "received (Some (Received bs)) = bs"
| "received _ = []"

lemma proxy_read_relays:
  assumes "proxy_live c" and "proxy_live r" and "keeps_open x" and "relayed (received x) c"
  shows "proxy_read x (c, r) = Go (fed (received x) c, wrote (forwards (fed_events (received x) c)) r)"
  using assms proxy_recv_relays [of r] fed_Nil [of c]
  by (cases x rule: received.cases) (auto simp: proxy_read_def proxy_live_conn)

lemma proxy_turn_relays:
  assumes live: "proxy_live s" "proxy_live c" and keep: "keeps_open x" "keeps_open y"
    and relayed: "relayed (received x) s" "relayed (received y) c"
  shows "proxy_turn (x, y) (s, c) =
    Go (wrote (forwards (fed_events (received y) c)) (fed (received x) s),
        wrote (forwards (fed_events (received x) s)) (fed (received y) c))"
  using proxy_read_relays [OF live keep(1) relayed(1)]
    proxy_read_relays [of "wrote (forwards (fed_events (received x) s)) c" "fed (received x) s" y] assms
  by (simp add: proxy_turn_def fed_wrote)

lemma proxy_loop_relays:
  assumes "proxy_live s" and "proxy_live c" and "\<forall>(x, y) \<in> set rounds. keeps_open x \<and> keeps_open y"
    and "relayed (concat (map (received \<circ> fst) rounds)) s" and "relayed (concat (map (received \<circ> snd) rounds)) c"
  shows "proxy_loop rounds (s, c) =
    Go (wrote (forwards (fed_events (concat (map (received \<circ> snd) rounds)) c)) (fed (concat (map (received \<circ> fst) rounds)) s),
        wrote (forwards (fed_events (concat (map (received \<circ> fst) rounds)) s)) (fed (concat (map (received \<circ> snd) rounds)) c))"
  using assms
proof (induction rounds arbitrary: s c)
  case Nil
  then show ?case by (simp add: fed_Nil proxy_live_conn)
next
  case (Cons round rounds)
  obtain x y where xy: "round = (x, y)" by (cases round)
  have "proxy_turn (x, y) (s, c) =
    Go (wrote (forwards (fed_events (received y) c)) (fed (received x) s),
        wrote (forwards (fed_events (received x) s)) (fed (received y) c))"
    by (rule proxy_turn_relays) (use Cons.prems xy in \<open>simp_all add: relayed_append\<close>)
  then show ?case
    using Cons.IH [of "wrote (forwards (fed_events (received y) c)) (fed (received x) s)"
        "wrote (forwards (fed_events (received x) s)) (fed (received y) c)"] Cons.prems xy
    by (simp add: relayed_append fed_append fed_events_append fed_wrote)
qed

section \<open>Telnet streams\<close>

text \<open>A stream as a sender writes it: data, commands, option requests and subnegotiations.\<close>

datatype item = Data "byte list" | Cmd byte | Neg byte byte | Sub byte "byte list"

fun wire :: "item \<Rightarrow> byte list" where
  "wire (Data bs) = iac_escape bs"
| "wire (Cmd c) = [TELNET_IAC, c]"
| "wire (Neg cmd opt) = [TELNET_IAC, cmd, opt]"
| "wire (Sub opt bs) = sb_frame opt bs"

definition neg_commands :: "byte set" where
  "neg_commands = {TELNET_WILL, TELNET_WONT, TELNET_DO, TELNET_DONT}"

fun item_ok :: "item \<Rightarrow> bool" where
  "item_ok (Data bs) = True"
| "item_ok (Cmd c) = (c \<notin> neg_commands \<and> c \<noteq> TELNET_SB \<and> c \<noteq> TELNET_IAC)"
| "item_ok (Neg cmd opt) = (cmd \<in> neg_commands)"
| "item_ok (Sub opt bs) = (length bs \<le> 16384 \<and> (opt = TELNET_TELOPT_COMPRESS \<longrightarrow> TELNET_WILL \<notin> set bs) \<and>
     (opt = TELNET_TELOPT_MSSP \<longrightarrow> bs \<noteq> [] \<longrightarrow> hd bs = TELNET_MSSP_VAR \<longrightarrow> mssp_lost TELNET_MSSP_VAR (tl bs) = 0))"

lemma proxying_holds: "proxying t \<Longrightarrow> holds (take (tn_buffer_pos t) (tn_buffer t)) t"
  by (auto simp: proxying_def holds_def buffer_ok_def)

text \<open>After the generic report of a subnegotiation the parsers add at most reports that are not forwarded.\<close>

fun not_forwarded :: "telnet_event \<Rightarrow> bool" where
  "not_forwarded (EV_ZMP args) = True"
| "not_forwarded (EV_TTYPE cmd name) = True"
| "not_forwarded (EV_ENVIRON cmd vars) = True"
| "not_forwarded (EV_MSSP vars) = relayable (EV_MSSP vars)"
| "not_forwarded (EV_WARNING func msg) = True"
| "not_forwarded _ = False"

lemma not_forwarded_relayable: "not_forwarded ev \<Longrightarrow> relayable ev \<and> forwarded ev = []"
  by (cases ev) simp_all

lemma not_forwarded_all: "list_all not_forwarded evs \<Longrightarrow> list_all relayable evs \<and> forwards evs = []"
  by (induction evs) (auto dest: not_forwarded_relayable)

lemma parser_events:
  "\<exists>evs. tn_events (snd (t_zmp_telnet t)) = tn_events t @ evs \<and> list_all not_forwarded evs"
  "\<exists>evs. tn_events (snd (t_ttype_telnet t)) = tn_events t @ evs \<and> list_all not_forwarded evs"
  "\<exists>evs. tn_events (snd (t_environ_telnet ty t)) = tn_events t @ evs \<and> list_all not_forwarded evs"
  by (auto simp: t_zmp_telnet_def t_ttype_telnet_def t_environ_telnet_def environ_warn_def t_error_def split_beta Let_def)

lemma mssp_c_complete: "env_var (mssp_c p) \<noteq> None \<and> env_value (mssp_c p) \<noteq> None"
  by (cases p) (simp add: mssp_c_def)

lemma mssp_events:
  assumes "tn_sb_telopt u = TELNET_TELOPT_MSSP" and "holds bs u"
    and "bs \<noteq> [] \<longrightarrow> hd bs = TELNET_MSSP_VAR \<longrightarrow> mssp_lost TELNET_MSSP_VAR (tl bs) = 0"
  shows "\<exists>evs. tn_events (snd (t_subnegotiate u)) = tn_events u @ EV_SUBNEGOTIATION TELNET_TELOPT_MSSP bs # evs \<and>
    list_all not_forwarded evs"
proof (cases "bs \<noteq> [] \<and> hd bs = TELNET_MSSP_VAR")
  case True
  then obtain rest where r: "bs = TELNET_MSSP_VAR # rest" by (cases bs) auto
  then show ?thesis
    using subnegotiate_mssp [of u rest] assms mssp_c_complete by (auto simp: list_all_iff)
next
  case False
  have b: "tn_buffer_pos u = length bs" "take (length bs) (tn_buffer u) = bs" using assms(2) by (simp_all add: holds_def)
  have "tn_buffer u ! 0 = hd bs" if "bs \<noteq> []"
    using b(2) that by (metis hd_conv_nth length_greater_0_conv nth_take)
  then show ?thesis using False b assms(1)
    by (auto simp: t_subnegotiate_def t_mssp_telnet_def mssp_warn_def t_error_def Let_def)
qed

lemma subnegotiate_events:
  assumes "tn_sb_telopt u = opt" and "holds bs u" and "item_ok (Sub opt bs)"
  shows "\<exists>evs. tn_events (snd (t_subnegotiate u)) = tn_events u @ EV_SUBNEGOTIATION opt bs # evs \<and>
    list_all not_forwarded evs"
proof (cases "opt = TELNET_TELOPT_MSSP")
  case True
  then show ?thesis using mssp_events [of u bs] assms by simp
next
  case False
  then show ?thesis
    using assms(1,2) parser_events [where t = "emit (EV_SUBNEGOTIATION opt bs) u"]
    by (auto simp: t_subnegotiate_def Let_def holds_def)
qed

text \<open>One item: the bytes the other side writes are the bytes that came in.\<close>

lemma item_feeds:
  assumes t: "tn_state t = STATE_DATA" "proxying t" "tn_events t = []" and ok: "item_ok it"
  shows "mccp1_free t (wire it) \<and> list_all relayable (tn_events (fold feed (wire it) t)) \<and>
    forwards (tn_events (fold feed (wire it) t)) = wire it \<and> tn_state (fold feed (wire it) t) = STATE_DATA"
proof (cases it)
  case (Data bs)
  then show ?thesis
    using t fold_feed_data [OF t(1), of bs] mccp1_free_data [OF t(1), of bs]
    by (simp add: list_all_iff forwards_singles)
next
  case (Cmd c)
  then show ?thesis using t ok
    by (simp add: feed_def process_iac_def mccp1_marker_def neg_commands_def)
next
  case (Neg cmd opt)
  have "cmd = TELNET_WILL \<or> cmd = TELNET_WONT \<or> cmd = TELNET_DO \<or> cmd = TELNET_DONT"
    using ok Neg by (auto simp: neg_commands_def)
  then show ?thesis using t Neg
    by (elim disjE) (simp_all add: feed_def process_iac_def mccp1_marker_def t_negotiate_def t_proxy_negotiate_def
        proxying_def t_proxy_def)
next
  case (Sub opt bs)
  obtain u where u: "fold feed (sb_frame opt bs) t = snd (t_subnegotiate u)" "mccp1_free t (sb_frame opt bs)"
    "holds bs u" "no_buffer u = no_buffer (t\<lparr>tn_sb_telopt := opt\<rparr>)"
    using feed_sb_frame [OF t(1) proxying_holds [OF t(2)], of bs opt] ok Sub by auto
  note f = no_buffer_fields [OF u(4)]
  obtain evs where e: "tn_events (snd (t_subnegotiate u)) = EV_SUBNEGOTIATION opt bs # evs" "list_all not_forwarded evs"
    using subnegotiate_events [of u opt bs] u(3) f ok Sub t(3) by auto
  then show ?thesis using u f t(1) Sub not_forwarded_all [OF e(2)] by simp
qed

lemma item_relayed:
  assumes "proxy_live c" and "tn_state (conn_telnet c) = STATE_DATA" and "item_ok it"
  shows "relayed (wire it) c \<and> forwards (fed_events (wire it) c) = wire it \<and>
    tn_state (conn_telnet (fed (wire it) c)) = STATE_DATA"
  using item_feeds [of "conn_telnet c" it] assms
  by (simp add: proxy_live_def relayed_def fed_events_def fed_def no_events_idle)

lemma items_relayed:
  assumes "proxy_live c" and "tn_state (conn_telnet c) = STATE_DATA" and "list_all item_ok its"
  shows "relayed (concat (map wire its)) c \<and> forwards (fed_events (concat (map wire its)) c) = concat (map wire its) \<and>
    tn_state (conn_telnet (fed (concat (map wire its)) c)) = STATE_DATA"
  using assms
proof (induction its arbitrary: c)
  case Nil
  then show ?case using fed_Nil [of c] by (simp add: proxy_live_conn relayed_def)
next
  case (Cons it its)
  note i = item_relayed [of c it] and ih = Cons.IH [of "fed (wire it) c"]
  show ?case using i ih Cons.prems by (simp add: relayed_append fed_append fed_events_append)
qed

definition proxy_ready :: "conn \<Rightarrow> bool" where
  "proxy_ready c \<longleftrightarrow> proxy_live c \<and> tn_state (conn_telnet c) = STATE_DATA"

lemma sock_out_wrote [simp]: "sock_out (conn_sock (wrote bs c)) = sock_out (conn_sock c) @ bs"
  by (simp add: wrote_def)

lemma sock_out_fed [simp]: "conn_sock (fed bs c) = conn_sock c"
  by (simp add: fed_def)

lemma proxy_ready_fed:
  "proxy_ready c \<Longrightarrow> list_all item_ok its \<Longrightarrow> proxy_ready (wrote bs (fed (concat (map wire its)) c))"
  using items_relayed [of c its] by (simp add: proxy_ready_def) (simp add: wrote_def)


definition proxy_fresh :: conn where
  "proxy_fresh = \<lparr>conn_sock = \<lparr>sock_out = [], sock_answers = []\<rparr>, conn_telnet = proxy_tracker\<rparr>"

lemma proxy_fresh_ready: "proxy_ready proxy_fresh"
  by (simp add: proxy_ready_def proxy_live_def proxying_def proxy_fresh_def proxy_tracker_def telnet_init_def
      buffer_ok_def buffer_sizes_def t_proxy_def)


section \<open>A null pointer from the network\<close>

lemma flat_id: "list_all event_sized evs \<Longrightarrow> flat evs = es \<Longrightarrow> (\<forall>bs n. EV_DATA bs n \<notin> set es) \<Longrightarrow> evs = es"
proof (induction evs arbitrary: es rule: flat.induct)
  case (2 bs n evs)
  then obtain b bs' where "bs = b # bs'" by (cases bs) auto
  then have "EV_DATA [b] 1 \<in> set es" using "2.prems"(2) by auto
  then show ?case using "2.prems"(3) by blast
qed auto

text \<open>
  An MSSP report whose last value is empty is one the parser answers with null pointers, and the
  proxy passes them to \<^verbatim>\<open>strlen\<close> when it prints the event: a peer can make the proxy read address zero.
\<close>

theorem proxy_mssp_null:
  assumes "proxy_ready c" and "proxy_ready r" and "length bs < 16384" and "mssp_lost TELNET_MSSP_VAR bs > 0"
  shows "proxy_recv (sb_frame TELNET_TELOPT_MSSP (TELNET_MSSP_VAR # bs)) (c, r) = Undefined"
proof -
  let ?t = "conn_telnet c" let ?w = "sb_frame TELNET_TELOPT_MSSP (TELNET_MSSP_VAR # bs)"
  have t: "tn_state ?t = STATE_DATA" "proxying ?t" "no_events ?t = ?t" "tn_events ?t = []"
    using assms(1) by (simp_all add: proxy_ready_def proxy_live_def no_events_idle)
  obtain u where u: "fold feed ?w ?t = snd (t_subnegotiate u)" "mccp1_free ?t ?w" "holds (TELNET_MSSP_VAR # bs) u"
    "no_buffer u = no_buffer (?t\<lparr>tn_sb_telopt := TELNET_TELOPT_MSSP\<rparr>)"
    using feed_sb_frame [OF t(1) proxying_holds [OF t(2)], of "TELNET_MSSP_VAR # bs" TELNET_TELOPT_MSSP] assms(3) by auto
  note f = no_buffer_fields [OF u(4)]
  let ?vs = "map mssp_c (mssp_decode TELNET_MSSP_VAR [] bs) @ replicate (mssp_lost TELNET_MSSP_VAR bs) mssp_null"
  let ?evs = "[EV_SUBNEGOTIATION TELNET_TELOPT_MSSP (TELNET_MSSP_VAR # bs)] @ EV_MSSP ?vs # []"
  have "flat (tn_events (telnet_recv ?w ?t)) = ?evs"
    using recv_refines_feed [OF u(2)] u(1) subnegotiate_mssp [OF _ u(3)] f t(4) by (simp add: same_upto_cuts_def)
  then have e: "tn_events (telnet_recv ?w ?t) = ?evs"
    by (rule flat_id [rotated]) (use process_sized [of ?t 0 0 ?w] u(2) t(4) in \<open>simp_all add: telnet_recv_def sized_def\<close>)
  have stuck: "proxy_handler (EV_MSSP ?vs) p = Undefined" for p
    using assms(4) by (simp add: proxy_handler_def split_beta Let_def mssp_null_def list_all_iff)
  have "proxy_conn r" using assms(2) by (simp add: proxy_ready_def proxy_live_conn)
  then have "proxy_events ?evs (d, r) = Undefined" for d
    by (rule proxy_events_stuck) (use stuck in simp_all)
  then show ?thesis unfolding proxy_recv_def Let_def fst_conv snd_conv t(3) e by blast
qed

theorem proxy_mssp_null_witness:
  "proxy_recv [255, 250, 70, 1, 80, 2, 255, 240] (proxy_fresh, proxy_fresh) = Undefined"
  using proxy_mssp_null [of proxy_fresh proxy_fresh "[80, 2]"] proxy_fresh_ready
  by (simp add: sb_frame_def iac_escape_def mssp_lost_def)

end
