(* ===== verification/Telnet_Cut.thy ===== *)
theory Telnet_Cut
  imports Telnet_Process
begin

text \<open>
  A handler that calls back into the tracker whose input is being parsed changes what the rest of the
  buffer meets. This theory cuts a received buffer into the pieces after which the handler runs, so
  that a program can act between them, and shows that the cutting itself changes nothing: the same
  events, in the same pieces, and the same tracker.
\<close>

section \<open>Cutting\<close>

text \<open>
  The length of the next piece: a run of data, the marker of MCCP1 with the byte it skips, or one byte.
\<close>

definition next_cut :: "telnet \<Rightarrow> byte list \<Rightarrow> nat" where
  "next_cut t buf =
     (if tn_state t = STATE_DATA \<and> hd buf \<noteq> TELNET_IAC then length (takeWhile (\<lambda>b. b \<noteq> TELNET_IAC) buf)
      else if mccp1_marker (hd buf) t \<and> length buf > 1 \<and> buf ! 1 \<noteq> TELNET_IAC then 2
      else 1)"

text \<open>The tracker is part of a larger state, which \<open>deliver\<close> changes with each piece.\<close>

function recv_cut :: "('s \<Rightarrow> telnet option) \<Rightarrow> (byte list \<Rightarrow> 's \<Rightarrow> 's outcome) \<Rightarrow> byte list \<Rightarrow> 's \<Rightarrow> 's outcome" where
  "recv_cut tracker deliver buf s =
     (if buf = [] then Go s
      else case tracker s of
        None \<Rightarrow> Undefined
      | Some t \<Rightarrow> and_then (deliver (take (next_cut t buf) buf) s)
                     (recv_cut tracker deliver (drop (next_cut t buf) buf)))"
  by pat_completeness auto
termination
proof (relation "measure (\<lambda>(tracker, deliver, buf, s). length buf)", goal_cases)
  case (2 tracker deliver buf s t u)
  then have "next_cut t buf > 0" by (cases buf) (auto simp: next_cut_def)
  then show ?case using 2 by simp
qed simp

declare recv_cut.simps [simp del]

lemma recv_cut_goes:
  "P s \<Longrightarrow> (\<And>bs s. P s \<Longrightarrow> goes P (deliver bs s)) \<Longrightarrow> goes P (recv_cut tracker deliver buf s)"
proof (induction tracker deliver buf s rule: recv_cut.induct)
  case (1 tracker deliver buf s)
  show ?case
    using 1 by (subst recv_cut.simps) (auto split: option.split intro!: goes_and_then [of P])
qed

section \<open>Nothing depends on what was parsed before\<close>

lemma ev_data_shift: "length pre \<le> s \<Longrightarrow>
   ev_data (pre @ buf) s (length pre + i) = ev_data buf (s - length pre) i"
  by (simp add: ev_data_def)

text \<open>The start mark matters in state DATA only, and positions are relative.\<close>

definition marks_agree :: "telnet \<Rightarrow> byte list \<Rightarrow> nat \<Rightarrow> nat \<Rightarrow> bool" where
  "marks_agree t pre s s' \<longleftrightarrow> (tn_state t = STATE_DATA \<longrightarrow> s = length pre + s')"

lemma process_shift:
  assumes "marks_agree t pre s s'"
  shows "t_process t (pre @ buf) (length pre + i) s = t_process t buf i s'"
  using assms
proof (induction "length buf - i" arbitrary: t i s s' rule: less_induct)
  case less
  have m: "tn_state t = STATE_DATA \<Longrightarrow> s = length pre + s'" using less.prems by (simp add: marks_agree_def)
  show ?case
  proof (cases "i < length buf")
    case False
    then show ?thesis using m by (subst (1 2) t_process.simps) (auto simp: ev_data_shift)
  next
    case True
    have ih: "t_process u (pre @ buf) (Suc (length pre + i)) a = t_process u buf (Suc i) a'" if "marks_agree u pre a a'" for u a a'
      using less.hyps [of "Suc i" u a a'] that True by simp
    have n: "(pre @ buf) ! (length pre + i) = buf ! i" by simp
    have d: "drop (Suc (length pre + i)) (pre @ buf) = drop (Suc i) buf" by simp
    have p: "marks_agree (fst (process_iac b j a t)) pre (snd (process_iac b (length pre + j) a t)) (snd (process_iac b j a' t))"
      if "tn_state t = STATE_IAC" for b j a a'
      using that by (auto simp: process_iac_def marks_agree_def)
    note eqs = t_process.simps [of t "pre @ buf" "length pre + i" s] t_process.simps [of t buf i s']
    show ?thesis
    proof (cases "tn_state t")
      case STATE_DATA
      then show ?thesis using True n m ih by (subst eqs(1), subst eqs(2)) (auto simp: Let_def marks_agree_def ev_data_shift)
    next
      case STATE_IAC
      then show ?thesis
        using True n ih [OF p [OF STATE_IAC, of "buf ! i" i s s']]
          process_iac_fst [of "buf ! i" "length pre + i" s t i s] process_iac_fst [of "buf ! i" i s' t i s]
        by (subst eqs(1), subst eqs(2)) (auto simp: Let_def split_beta)
    next
      case STATE_SB_DATA
      then show ?thesis using True n ih
        by (subst eqs(1), subst eqs(2)) (auto simp: Let_def marks_agree_def split_beta)
    next
      case STATE_SB_DATA_IAC
      then show ?thesis using True n d ih
        by (subst eqs(1), subst eqs(2)) (auto simp: Let_def marks_agree_def split_beta)
    qed (use True n ih in \<open>subst eqs(1), subst eqs(2), auto simp: Let_def marks_agree_def\<close>)+
  qed
qed

lemma recv_restart: "tn_state t \<noteq> STATE_DATA \<or> s = length pre \<Longrightarrow> t_process t (pre @ buf) (length pre) s = telnet_recv buf t"
  using process_shift [of t pre s 0 buf 0] by (auto simp: marks_agree_def telnet_recv_def)

section \<open>One piece\<close>

lemma process_run:
  "tn_state t = STATE_DATA \<Longrightarrow> TELNET_IAC \<notin> set run \<Longrightarrow> s \<le> length pre \<Longrightarrow>
   t_process t (pre @ run @ buf) (length pre) s = t_process t (pre @ run @ buf) (length (pre @ run)) s"
proof (induction run arbitrary: pre)
  case (Cons b run)
  have "t_process t (pre @ (b # run) @ buf) (length pre) s = t_process t ((pre @ [b]) @ run @ buf) (length (pre @ [b])) s"
    using Cons.prems by (subst t_process.simps) simp
  then show ?case using Cons.IH [of "pre @ [b]"] Cons.prems by simp
qed simp

lemma recv_data_run:
  assumes "tn_state t = STATE_DATA" and "TELNET_IAC \<notin> set run" and "run \<noteq> []"
  shows "telnet_recv run t = emit (EV_DATA run (of_nat (length run))) t"
  using process_run [OF assms(1,2), of 0 "[]" "[]"] assms
  by (simp add: telnet_recv_def) (subst t_process.simps, simp add: ev_data_def)

lemma recv_run:
  assumes "tn_state t = STATE_DATA" and "TELNET_IAC \<notin> set run" and "run \<noteq> []" and "rest = [] \<or> hd rest = TELNET_IAC"
  shows "telnet_recv (run @ rest) t = telnet_recv rest (telnet_recv run t)"
proof (cases rest)
  case Nil
  have "telnet_recv [] u = u" if "tn_state u = STATE_DATA" for u
    using that by (simp add: telnet_recv_def) (subst t_process.simps, simp)
  then show ?thesis using Nil assms by (simp add: recv_data_run)
next
  case (Cons b bs)
  let ?u = "(emit (EV_DATA run (of_nat (length run))) t)\<lparr>tn_state := STATE_IAC\<rparr>"
  have b: "b = TELNET_IAC" using assms(4) Cons by simp
  have "telnet_recv (run @ rest) t = t_process t (run @ rest) (length run) 0"
    using process_run [OF assms(1,2), of 0 "[]" rest] by (simp add: telnet_recv_def)
  also have "\<dots> = t_process ?u ((run @ [b]) @ bs) (length (run @ [b])) 0"
    using assms(1,3) Cons b by (subst t_process.simps) (simp add: ev_data_def)
  also have "\<dots> = telnet_recv bs ?u" by (rule recv_restart) simp
  also have "\<dots> = t_process ?u ([b] @ bs) (length [b]) 0" by (rule recv_restart [symmetric]) simp
  also have "\<dots> = telnet_recv rest (telnet_recv run t)"
    using assms(1) Cons b recv_data_run [OF assms(1-3)]
    by (simp add: telnet_recv_def) (subst (2) t_process.simps, simp)
  finally show ?thesis .
qed

lemma recv_one:
  assumes "tn_state t \<noteq> STATE_DATA" and "\<not> mccp1_marker b t"
  shows "telnet_recv (b # rest) t = telnet_recv rest (feed b t)"
proof -
  have "resumes (telnet_recv (b # rest) t) (feed b t) (b # rest) 0"
    using process_step [of 0 "b # rest" t 0] assms by (simp add: telnet_recv_def)
  then show ?thesis using recv_restart [of "feed b t" _ "[b]" rest] by (auto simp: resumes_def telnet_recv_def)
qed

lemma recv_Nil [simp]: "telnet_recv [] t = t"
  by (simp add: telnet_recv_def) (subst t_process.simps, simp)

lemma recv_iac: "tn_state t = STATE_DATA \<Longrightarrow> telnet_recv (TELNET_IAC # rest) t = telnet_recv rest (t\<lparr>tn_state := STATE_IAC\<rparr>)"
  using recv_restart [of "t\<lparr>tn_state := STATE_IAC\<rparr>" 0 "[TELNET_IAC]" rest]
  by (simp add: telnet_recv_def) (subst t_process.simps, simp)

lemma recv_marker:
  assumes "mccp1_marker b t"
  shows "telnet_recv (b # rest) t =
    (if rest = [] \<or> hd rest = TELNET_IAC then telnet_recv rest (emit (EV_DATA [] (- 1)) (t\<lparr>tn_state := STATE_DATA\<rparr>))
     else telnet_recv (tl rest) (t\<lparr>tn_state := STATE_DATA\<rparr>))"
proof -
  let ?t = "t\<lparr>tn_state := STATE_DATA\<rparr>"
  have "telnet_recv (b # rest) t = t_process ?t (b # rest) 1 2"
    using assms unfolding telnet_recv_def by (subst t_process.simps) (simp add: mccp1_marker_def, simp add: numeral_2_eq_2)
  also have "\<dots> = (if rest = [] \<or> hd rest = TELNET_IAC then telnet_recv rest (emit (EV_DATA [] (- 1)) ?t)
     else telnet_recv (tl rest) ?t)"
  proof (cases rest)
    case Nil
    then show ?thesis by (subst t_process.simps) (simp add: ev_data_def)
  next
    case (Cons c cs)
    let ?u = "(emit (EV_DATA [] (- 1)) ?t)\<lparr>tn_state := STATE_IAC\<rparr>"
    have "t_process ?t (b # rest) 1 2 = (if c = TELNET_IAC then t_process ?u ([b, c] @ cs) (length [b, c]) 2
        else t_process ?t ([b, c] @ cs) (length [b, c]) 2)"
      using Cons by (subst t_process.simps) (simp add: ev_data_def)
    then show ?thesis using Cons recv_restart [of ?u 2 "[b, c]" cs] recv_restart [of ?t 2 "[b, c]" cs]
      by (cases "c = TELNET_IAC") (simp_all add: recv_iac)
  qed
  finally show ?thesis .
qed

lemma recv_next_cut:
  assumes "buf \<noteq> []"
  shows "telnet_recv buf t = telnet_recv (drop (next_cut t buf) buf) (telnet_recv (take (next_cut t buf) buf) t)"
proof -
  obtain b rest where buf: "buf = b # rest" using assms by (cases buf) auto
  consider "tn_state t = STATE_DATA" "b \<noteq> TELNET_IAC" | "tn_state t = STATE_DATA" "b = TELNET_IAC"
    | "mccp1_marker b t" | "tn_state t \<noteq> STATE_DATA" "\<not> mccp1_marker b t" by blast
  then show ?thesis
  proof cases
    case 1
    let ?run = "takeWhile (\<lambda>b. b \<noteq> TELNET_IAC) buf" and ?rest = "dropWhile (\<lambda>b. b \<noteq> TELNET_IAC) buf"
    have "telnet_recv (?run @ ?rest) t = telnet_recv ?rest (telnet_recv ?run t)"
      using 1 buf hd_dropWhile [of "\<lambda>b. b \<noteq> TELNET_IAC" buf]
      by (intro recv_run) (auto dest: set_takeWhileD)
    moreover have "next_cut t buf = length ?run" using 1 buf by (simp add: next_cut_def)
    ultimately show ?thesis by (simp add: takeWhile_eq_take [symmetric] dropWhile_eq_drop [symmetric])
  next
    case 2
    then show ?thesis using buf by (simp add: next_cut_def mccp1_marker_def recv_iac)
  next
    case 3
    then show ?thesis using buf recv_marker [OF 3] recv_marker [OF 3, of "[]"]
        recv_marker [OF 3, of "[hd rest]"]
      by (cases rest) (auto simp: next_cut_def mccp1_marker_def)
  next
    case 4
    then show ?thesis using buf recv_one [OF 4, of rest] recv_one [OF 4, of "[]"] by (simp add: next_cut_def)
  qed
qed

section \<open>The whole buffer\<close>

text \<open>
  C26. A received buffer may be handed over in the pieces between which the handler runs: with a handler
  that only records, the pieces give exactly the tracker and the events of one call on the whole.
\<close>

theorem recv_cut_exact: "recv_cut Some (\<lambda>bs t. Go (telnet_recv bs t)) buf t = Go (telnet_recv buf t)"
proof (induction "length buf" arbitrary: buf t rule: less_induct)
  case less
  show ?case
  proof (cases "buf = []")
    case True
    then show ?thesis by (simp add: recv_cut.simps)
  next
    case False
    then have "next_cut t buf > 0" by (cases buf) (auto simp: next_cut_def)
    then show ?thesis using False less [of "drop (next_cut t buf) buf"] recv_next_cut [OF False]
      by (subst recv_cut.simps) simp
  qed
qed

end
