(* ===== verification/Telnet_Chat.thy ===== *)
theory Telnet_Chat
  imports Telnet_Properties Telnet_Cut Telnet_Socket
begin

text \<open>
  The chat server \<^verbatim>\<open>libtelnet/util/telnet-chatd.c\<close>: 64 slots, each with a connection, a tracker, a name
  and a line buffer. The descriptors that are open are part of the state, so that a write to a closed
  one fails as it does in the program. \<^verbatim>\<open>strdup\<close> is taken to succeed; messages on the console are left out.
\<close>

section \<open>State\<close>

definition MAX_USERS :: nat where
  "MAX_USERS = 64"

definition LINE_SIZE :: nat where
  "LINE_SIZE = 256"

record user =
  user_name :: "byte list option"
  user_sock :: int
  user_telnet :: "telnet option"
  user_linebuf :: "byte list"
  user_linepos :: nat

record chat =
  chat_users :: "user list"
  chat_socks :: "int \<rightharpoonup> socket"

abbreviation the_user :: "nat \<Rightarrow> chat \<Rightarrow> user" where
  "the_user i c \<equiv> chat_users c ! i"

definition set_user :: "nat \<Rightarrow> (user \<Rightarrow> user) \<Rightarrow> chat \<Rightarrow> chat" where
  "set_user i f c = c\<lparr>chat_users := (chat_users c)[i := f (chat_users c ! i)]\<rparr>"

definition close_sock :: "int \<Rightarrow> chat \<Rightarrow> chat" where
  "close_sock fd c = c\<lparr>chat_socks := (chat_socks c)(fd := None)\<rparr>"

definition no_user :: user where
  "no_user = \<lparr>user_name = None, user_sock = -1, user_telnet = None, user_linebuf = replicate LINE_SIZE 0, user_linepos = 0\<rparr>"

definition chat_init :: chat where
  "chat_init = \<lparr>chat_users = replicate MAX_USERS no_user, chat_socks = (\<lambda>_. None)\<rparr>"

section \<open>Output\<close>

text \<open>\<^verbatim>\<open>_send\<close>: the size is an \<^verbatim>\<open>unsigned int\<close>, and a closed descriptor is an error that ends the program.\<close>

definition chat_send :: "int \<Rightarrow> byte list \<Rightarrow> chat \<Rightarrow> chat outcome" where
  "chat_send fd buf c =
     (let bs = take (length buf mod 2 ^ 32) buf in
      if fd = -1 \<or> bs = [] then Go c
      else case chat_socks c fd of
        None \<Rightarrow> Exit 1 c
      | Some s \<Rightarrow> map_outcome (\<lambda>s. c\<lparr>chat_socks := (chat_socks c)(fd \<mapsto> s)\<rparr>) (sock_send bs s))"

text \<open>The events of a call on a tracker: bytes to send, and warnings, which the handler ignores.\<close>

fun send_events :: "nat \<Rightarrow> telnet_event list \<Rightarrow> chat \<Rightarrow> chat outcome" where
  "send_events i [] c = Go c"
| "send_events i (EV_SEND bs # evs) c = and_then (chat_send (user_sock (the_user i c)) bs c) (send_events i evs)"
| "send_events i (EV_WARNING func msg # evs) c = send_events i evs c"
| "send_events i (_ # evs) c = Undefined"

definition user_call :: "nat \<Rightarrow> (telnet \<Rightarrow> telnet) \<Rightarrow> chat \<Rightarrow> chat outcome" where
  "user_call i f c =
     (case user_telnet (the_user i c) of
        None \<Rightarrow> Undefined
      | Some t \<Rightarrow> (let t1 = f (no_events t)
                  in send_events i (tn_events t1) (set_user i (\<lambda>u. u\<lparr>user_telnet := Some (no_events t1)\<rparr>) c)))"

definition user_printf :: "nat \<Rightarrow> byte list \<Rightarrow> chat \<Rightarrow> chat outcome" where
  "user_printf i out = user_call i (\<lambda>t. snd (telnet_vprintf out t))"

definition message_text :: "byte list \<Rightarrow> byte list \<Rightarrow> byte list" where
  "message_text from msg = from @ bytes_of '': '' @ msg @ [10]"

fun message_each :: "nat list \<Rightarrow> byte list \<Rightarrow> chat \<Rightarrow> chat outcome" where
  "message_each [] out c = Go c"
| "message_each (i # is) out c =
     and_then (if user_sock (the_user i c) \<noteq> -1 then user_printf i out c else Go c) (message_each is out)"

definition message :: "byte list \<Rightarrow> byte list \<Rightarrow> chat \<Rightarrow> chat outcome" where
  "message from msg = message_each [0..<MAX_USERS] (message_text from msg)"

section \<open>Lines\<close>

text \<open>A user leaves: the message is sent to those still connected, and the name is given up.\<close>

definition drop_name :: "nat \<Rightarrow> chat \<Rightarrow> chat" where
  "drop_name i = set_user i (\<lambda>u. u\<lparr>user_name := None\<rparr>)"

definition name_in_use :: "byte list \<Rightarrow> chat \<Rightarrow> bool" where
  "name_in_use line c = list_ex (\<lambda>u. user_name u = Some line) (chat_users c)"

definition online :: "byte list \<Rightarrow> nat \<Rightarrow> chat \<Rightarrow> chat outcome" where
  "online line i c =
     (case user_name (the_user i c) of
        None \<Rightarrow>
          if line = [] \<or> length line > 32 then
            user_printf i (bytes_of ''Invalid name.'' @ [10] @ bytes_of ''Enter name: '') c
          else if name_in_use line c then
            user_printf i (bytes_of ''Name in use.'' @ [10] @ bytes_of ''Enter name: '') c
          else
            user_printf i (bytes_of ''Welcome, '' @ line @ bytes_of ''!'' @ [10])
              (set_user i (\<lambda>u. u\<lparr>user_name := Some line\<rparr>) c)
      | Some name \<Rightarrow>
          if line = bytes_of ''quit'' then
            and_then (message name (bytes_of ''** HAS QUIT **'')
                        (set_user i (\<lambda>u. u\<lparr>user_sock := -1\<rparr>) (close_sock (user_sock (the_user i c)) c)))
              (\<lambda>c. Go (drop_name i c))
          else message name line c)"

text \<open>
  \<^verbatim>\<open>linebuffer_push\<close> on the buffer and the position: the line for the callback if one is complete, the
  buffer at that time, and the position afterwards.
\<close>

definition linebuffer_push :: "byte \<Rightarrow> byte list \<times> nat \<Rightarrow> byte list option \<times> byte list \<times> nat" where
  "linebuffer_push ch b =
     (let (buf, pos) = b in
      if ch = 10 \<and> pos > 0 \<and> buf ! (pos - 1) = 13 then
        (let buf1 = buf[pos - 1 := 0] in (Some (cstr buf1 0), buf1, 0))
      else if ch = 0 \<and> pos > 0 \<and> buf ! (pos - 1) = 13 then (None, buf, pos)
      else if pos \<noteq> LINE_SIZE then (None, buf[pos := ch], pos + 1)
      else (let buf1 = buf[LINE_SIZE - 1 := 0] in (Some (cstr buf1 0), buf1, 0)))"

definition push_byte :: "nat \<Rightarrow> byte \<Rightarrow> chat \<Rightarrow> chat outcome" where
  "push_byte i ch c =
     (let (line, buf, pos) = linebuffer_push ch (user_linebuf (the_user i c), user_linepos (the_user i c));
          c1 = set_user i (\<lambda>u. u\<lparr>user_linebuf := buf\<rparr>) c;
          finish = set_user i (\<lambda>u. u\<lparr>user_linepos := pos\<rparr>)
      in case line of None \<Rightarrow> Go (finish c1) | Some l \<Rightarrow> and_then (online l i c1) (\<lambda>c. Go (finish c)))"

fun input_bytes :: "nat \<Rightarrow> byte list \<Rightarrow> chat \<Rightarrow> chat outcome" where
  "input_bytes i [] c = Go c"
| "input_bytes i (b # bs) c = and_then (push_byte i b c) (input_bytes i bs)"

section \<open>Events\<close>

text \<open>
  \<^verbatim>\<open>_event_handler\<close>. \<^verbatim>\<open>telnet_begin_compress2\<close> does nothing without zlib. A data event whose size is not that
  of its bytes makes the loop read past the receive buffer.
\<close>

definition chat_handler :: "nat \<Rightarrow> telnet_event \<Rightarrow> chat \<Rightarrow> chat outcome" where
  "chat_handler i ev c =
     (case ev of
        EV_DATA bs n \<Rightarrow>
          if n = of_nat (length bs) then
            and_then (input_bytes i (take (length bs mod 2 ^ 32) bs) c)
              (\<lambda>c. and_then (user_call i (telnet_negotiate TELNET_WONT TELNET_TELOPT_ECHO) c)
                     (user_call i (telnet_negotiate TELNET_WILL TELNET_TELOPT_ECHO)))
          else Undefined
      | EV_SEND bs \<Rightarrow> chat_send (user_sock (the_user i c)) bs c
      | EV_ERROR func msg \<Rightarrow>
          (let c1 = set_user i (\<lambda>u. u\<lparr>user_sock := -1\<rparr>) (close_sock (user_sock (the_user i c)) c)
           in and_then
                (case user_name (the_user i c1) of
                   None \<Rightarrow> Go c1
                 | Some name \<Rightarrow> and_then (message name (bytes_of ''** HAS HAD AN ERROR **'') c1) (\<lambda>c. Go (drop_name i c)))
                (\<lambda>c. Go (set_user i (\<lambda>u. u\<lparr>user_telnet := None\<rparr>) c)))
      | _ \<Rightarrow> Go c)"

fun handle_events :: "nat \<Rightarrow> telnet_event list \<Rightarrow> chat \<Rightarrow> chat outcome" where
  "handle_events i [] c = Go c"
| "handle_events i (ev # evs) c = and_then (chat_handler i ev c) (handle_events i evs)"

definition deliver :: "nat \<Rightarrow> byte list \<Rightarrow> chat \<Rightarrow> chat outcome" where
  "deliver i bs c =
     (case user_telnet (the_user i c) of
        None \<Rightarrow> Undefined
      | Some t \<Rightarrow> (let t1 = telnet_recv bs (no_events t)
                  in handle_events i (tn_events t1) (set_user i (\<lambda>u. u\<lparr>user_telnet := Some (no_events t1)\<rparr>) c)))"

definition chat_recv :: "nat \<Rightarrow> byte list \<Rightarrow> chat \<Rightarrow> chat outcome" where
  "chat_recv i = recv_cut (\<lambda>c. user_telnet (the_user i c)) (deliver i)"

section \<open>The loop\<close>

definition chat_telopts :: "telnet_telopt list" where
  "chat_telopts = [\<lparr>to_telopt = uint TELNET_TELOPT_COMPRESS2, to_us = TELNET_WILL, to_him = TELNET_DONT\<rparr>,
     \<lparr>to_telopt = -1, to_us = 0, to_him = 0\<rparr>]"

fun free_slot :: "user list \<Rightarrow> nat" where
  "free_slot [] = 0"
| "free_slot (u # us) = (if user_sock u = -1 then 0 else Suc (free_slot us))"

text \<open>
  A new connection: its descriptor, the socket, and what the allocator of its tracker will answer. With
  all slots taken the connection is closed, and the code then goes on to slot 64, outside the array.
\<close>

definition chat_accept :: "int \<Rightarrow> socket \<Rightarrow> bool list \<Rightarrow> string \<Rightarrow> chat \<Rightarrow> chat outcome" where
  "chat_accept fd sock allocs serr c0 =
     (let c = c0\<lparr>chat_socks := (chat_socks c0)(fd \<mapsto> sock)\<rparr>;
          i = free_slot (chat_users c)
      in if i = MAX_USERS then
           and_then (chat_send fd (take 14 (bytes_of ''Too many users.'' @ [13, 10])) c)
             (\<lambda>c. and_then (Go (close_sock fd c)) (\<lambda>_. Undefined))
         else
           and_then
             (user_call i (telnet_negotiate TELNET_WILL TELNET_TELOPT_COMPRESS2)
                (set_user i (\<lambda>u. u\<lparr>user_sock := fd, user_telnet := telnet_init (Some chat_telopts) 0 allocs serr\<rparr>) c))
             (\<lambda>c. and_then (user_printf i (bytes_of ''Enter name: '') c)
                    (user_call i (telnet_negotiate TELNET_WILL TELNET_TELOPT_ECHO))))"

definition disconnect :: "nat \<Rightarrow> chat \<Rightarrow> chat outcome" where
  "disconnect i c0 =
     (let c = close_sock (user_sock (the_user i c0)) c0
      in and_then
           (case user_name (the_user i c) of
              None \<Rightarrow> Go c
            | Some name \<Rightarrow> and_then (message name (bytes_of ''** HAS DISCONNECTED **'') c) (\<lambda>c. Go (drop_name i c)))
           (\<lambda>c. Go (set_user i (\<lambda>u. u\<lparr>user_telnet := None, user_sock := -1\<rparr>) c)))"

definition chat_read :: "nat \<Rightarrow> recv_result option \<Rightarrow> chat \<Rightarrow> chat outcome" where
  "chat_read i r c =
     (if user_sock (the_user i c) = -1 then Go c
      else case r of
        None \<Rightarrow> Go c
      | Some (Received buf) \<Rightarrow> chat_recv i buf c
      | Some Closed \<Rightarrow> and_then (disconnect i c) Leave
      | Some (RecvError e) \<Rightarrow> if e \<noteq> EINTR then Exit 1 c else Go c)"

fun read_users :: "nat list \<Rightarrow> (nat \<Rightarrow> recv_result option) \<Rightarrow> chat \<Rightarrow> chat outcome" where
  "read_users [] rs c = Go c"
| "read_users (i # is) rs c = and_then (chat_read i (rs i) c) (read_users is rs)"

text \<open>The \<^verbatim>\<open>break\<close> after a disconnection ends the pass over the users, not the program.\<close>

fun resume :: "'a outcome \<Rightarrow> 'a outcome" where
  "resume (Leave c) = Go c"
| "resume r = r"

definition chat_round ::
    "(int \<times> socket \<times> bool list \<times> string) option \<Rightarrow> (nat \<Rightarrow> recv_result option) \<Rightarrow> chat \<Rightarrow> chat outcome" where
  "chat_round new rs c =
     and_then (case new of None \<Rightarrow> Go c | Some (fd, sock, allocs, serr) \<Rightarrow> chat_accept fd sock allocs serr c)
       (\<lambda>c. resume (read_users [0..<MAX_USERS] rs c))"

section \<open>What output leaves alone\<close>

named_theorems chat_intros

text \<open>
  Output changes the trackers and the sockets written to, but neither names, connections and lines nor
  which descriptors are open.
\<close>

definition tracker_fine :: "telnet option \<Rightarrow> bool" where
  "tracker_fine t = pred_option (\<lambda>t. tracker_ok t \<and> tn_events t = []) t"

definition same_user :: "user \<Rightarrow> user \<Rightarrow> bool" where
  "same_user u v \<longleftrightarrow> user_name u = user_name v \<and> user_sock u = user_sock v \<and> user_linebuf u = user_linebuf v \<and>
     user_linepos u = user_linepos v \<and> (user_telnet u = None \<longleftrightarrow> user_telnet v = None) \<and>
     (tracker_fine (user_telnet u) \<longrightarrow> tracker_fine (user_telnet v))"

definition chat_frame :: "chat \<Rightarrow> chat \<Rightarrow> bool" where
  "chat_frame c d \<longleftrightarrow> length (chat_users c) = length (chat_users d) \<and>
     (\<forall>i < length (chat_users c). same_user (the_user i c) (the_user i d)) \<and> dom (chat_socks c) = dom (chat_socks d)"

lemma chat_frame_refl [simp, intro]: "chat_frame c c"
  by (simp add: chat_frame_def same_user_def)

lemma chat_frame_trans [trans]: "chat_frame a b \<Longrightarrow> chat_frame b c \<Longrightarrow> chat_frame a c"
  by (simp add: chat_frame_def same_user_def)

lemma the_user_set [simp]:
  "i < length (chat_users c) \<Longrightarrow> the_user j (set_user i f c) = (if j = i then f (the_user i c) else the_user j c)"
  by (simp add: set_user_def)

lemma set_user_simps [simp]:
  "length (chat_users (set_user i f c)) = length (chat_users c)" "chat_socks (set_user i f c) = chat_socks c"
  by (simp_all add: set_user_def)

lemma close_sock_simps [simp]:
  "chat_users (close_sock fd c) = chat_users c" "chat_socks (close_sock fd c) = (chat_socks c)(fd := None)"
  by (simp_all add: close_sock_def)

lemma chat_frame_send: "goes (chat_frame c) (chat_send fd bs c)"
proof (cases "chat_socks c fd")
  case (Some s)
  then have "insert fd (dom (chat_socks c)) = dom (chat_socks c)" by blast
  then show ?thesis using Some goes_mono [OF sock_send_goes]
    by (auto simp: chat_send_def Let_def chat_frame_def same_user_def intro!: goes_map)
qed (simp add: chat_send_def Let_def)

lemma chat_frame_tracker:
  assumes "user_telnet (the_user i c) \<noteq> None" and "tracker_fine (user_telnet (the_user i c)) \<longrightarrow> tracker_fine (Some t)"
  shows "chat_frame c (set_user i (\<lambda>u. u\<lparr>user_telnet := Some t\<rparr>) c)"
proof (cases "i < length (chat_users c)")
  case True
  then show ?thesis using assms by (auto simp: chat_frame_def same_user_def)
next
  case False
  then show ?thesis by (simp add: set_user_def list_update_beyond)
qed

lemma chat_frame_then:
  "goes (chat_frame c) m \<Longrightarrow> (\<And>d. chat_frame c d \<Longrightarrow> goes (chat_frame d) (f d)) \<Longrightarrow> goes (chat_frame c) (and_then m f)"
  by (erule goes_and_then) (blast intro: goes_mono chat_frame_trans)

lemma chat_frame_events: "goes (chat_frame c) (send_events i evs c)"
  by (induction i evs c rule: send_events.induct) (auto intro!: chat_frame_then chat_frame_send)

lemma chat_frame_call:
  assumes "\<And>t. tracker_ok t \<Longrightarrow> tracker_ok (f t)"
  shows "goes (chat_frame c) (user_call i f c)"
proof (cases "user_telnet (the_user i c)")
  case (Some t)
  have "tracker_fine (Some t) \<longrightarrow> tracker_fine (Some (no_events (f (no_events t))))"
    using assms [of "no_events t"] by (auto simp: tracker_fine_def no_events_def tracker_ok_events)
  then have "chat_frame c (set_user i (\<lambda>u. u\<lparr>user_telnet := Some (no_events (f (no_events t)))\<rparr>) c)"
    using Some by (intro chat_frame_tracker) simp_all
  then show ?thesis using Some goes_mono [OF chat_frame_events] chat_frame_trans
    by (simp add: user_call_def Let_def)
qed (simp add: user_call_def)

lemma chat_frame_printf: "goes (chat_frame c) (user_printf i out c)"
  unfolding user_printf_def by (rule chat_frame_call) (simp add: tracker_ok_vprintf)

lemma chat_frame_negotiate: "goes (chat_frame c) (user_call i (telnet_negotiate cmd opt) c)"
  by (rule chat_frame_call) (rule tracker_ok_negotiate)

lemma chat_frame_each: "goes (chat_frame c) (message_each is out c)"
  by (induction "is" arbitrary: c) (auto intro!: chat_frame_then chat_frame_printf)

lemma chat_frame_message: "goes (chat_frame c) (message from msg c)"
  by (simp add: message_def chat_frame_each)

section \<open>Invariant\<close>

text \<open>
  Of a slot: the line fits its buffer, a name is one that \<^verbatim>\<open>_online\<close> accepts, the tracker is well-formed.
\<close>

definition user_ok :: "user \<Rightarrow> bool" where
  "user_ok u \<longleftrightarrow> length (user_linebuf u) = LINE_SIZE \<and> user_linepos u \<le> LINE_SIZE \<and>
     pred_option (\<lambda>a. a \<noteq> [] \<and> length a \<le> 32 \<and> 0 \<notin> set a) (user_name u) \<and> tracker_fine (user_telnet u)"

text \<open>
  Of the server: no two slots have the same name or descriptor, and a connected slot has a tracker and
  an open descriptor.
\<close>

definition names_distinct :: "chat \<Rightarrow> bool" where
  "names_distinct c \<longleftrightarrow> (\<forall>i < MAX_USERS. \<forall>j < MAX_USERS. \<forall>a.
     user_name (the_user i c) = Some a \<longrightarrow> user_name (the_user j c) = Some a \<longrightarrow> i = j)"

definition socks_distinct :: "chat \<Rightarrow> bool" where
  "socks_distinct c \<longleftrightarrow> (\<forall>i < MAX_USERS. \<forall>j < MAX_USERS.
     user_sock (the_user i c) \<noteq> -1 \<longrightarrow> user_sock (the_user i c) = user_sock (the_user j c) \<longrightarrow> i = j)"

definition user_open :: "nat \<Rightarrow> chat \<Rightarrow> bool" where
  "user_open i c \<longleftrightarrow> (user_sock (the_user i c) \<noteq> -1 \<longrightarrow>
     user_telnet (the_user i c) \<noteq> None \<and> user_sock (the_user i c) \<in> dom (chat_socks c))"

text \<open>While a slot in \<open>X\<close> is being closed its descriptor may be closed already.\<close>

definition chat_inv_but :: "nat set \<Rightarrow> chat \<Rightarrow> bool" where
  "chat_inv_but X c \<longleftrightarrow> length (chat_users c) = MAX_USERS \<and> names_distinct c \<and> socks_distinct c \<and>
     (\<forall>i < MAX_USERS. user_ok (the_user i c) \<and> (i \<notin> X \<longrightarrow> user_open i c))"

abbreviation chat_inv :: "chat \<Rightarrow> bool" where
  "chat_inv \<equiv> chat_inv_but {}"

lemma chat_inv_length [simp]: "chat_inv_but X c \<Longrightarrow> length (chat_users c) = MAX_USERS"
  by (simp add: chat_inv_but_def)

lemma chat_inv_frame: "chat_inv_but X c \<Longrightarrow> chat_frame c d \<Longrightarrow> chat_inv_but X d"
proof -
  assume c: "chat_inv_but X c" and f: "chat_frame c d"
  have u: "same_user (the_user i c) (the_user i d)" if "i < MAX_USERS" for i
    using c f that by (simp add: chat_inv_but_def chat_frame_def)
  then have e: "user_name (the_user i d) = user_name (the_user i c)" "user_sock (the_user i d) = user_sock (the_user i c)"
    "user_telnet (the_user i d) = None \<longleftrightarrow> user_telnet (the_user i c) = None"
    "user_ok (the_user i c) \<Longrightarrow> user_ok (the_user i d)" if "i < MAX_USERS" for i
    using that by (auto simp: same_user_def user_ok_def)
  have "names_distinct d" "socks_distinct d" using c e by (simp_all add: chat_inv_but_def names_distinct_def socks_distinct_def)
  moreover have "user_ok (the_user i d) \<and> (i \<notin> X \<longrightarrow> user_open i d)" if "i < MAX_USERS" for i
    using c f e [OF that] that by (simp add: chat_inv_but_def user_open_def chat_frame_def)
  ultimately show "chat_inv_but X d" using c f by (simp add: chat_inv_but_def chat_frame_def)
qed

lemma chat_inv_goes: "chat_inv_but X c \<Longrightarrow> goes (chat_frame c) m \<Longrightarrow> goes (chat_inv_but X) m"
  by (erule goes_mono) (rule chat_inv_frame)

text \<open>A change of one slot: its new name is free, and its new descriptor open and unused.\<close>

lemma chat_inv_set:
  assumes c: "chat_inv_but X c" and i: "i < MAX_USERS" and ok: "user_ok (f (the_user i c))"
    and name: "user_name (f (the_user i c)) = user_name (the_user i c) \<or>
      pred_option (\<lambda>a. \<not> name_in_use a c) (user_name (f (the_user i c)))"
    and sock: "user_sock (f (the_user i c)) \<in> {-1, user_sock (the_user i c)} \<or>
      (\<forall>j < MAX_USERS. user_sock (the_user j c) \<noteq> user_sock (f (the_user i c)))"
    and opens: "i \<notin> X \<longrightarrow> user_open i (set_user i f c)"
  shows "chat_inv_but X (set_user i f c)"
proof -
  let ?d = "set_user i f c"
  have l: "length (chat_users c) = MAX_USERS" using c by simp
  have o: "the_user j ?d = the_user j c" if "j \<noteq> i" for j using i l that by simp
  have n: "\<not> name_in_use a c \<Longrightarrow> j < MAX_USERS \<Longrightarrow> user_name (the_user j c) \<noteq> Some a" for a j
    using l by (auto simp: name_in_use_def list_ex_iff)
  have d: "names_distinct c" "socks_distinct c" using c by (simp_all add: chat_inv_but_def)
  have ni: False if "user_name (f (the_user i c)) = Some a" "j < MAX_USERS" "j \<noteq> i" "user_name (the_user j c) = Some a" for j a
    using name
  proof
    assume "user_name (f (the_user i c)) = user_name (the_user i c)"
    then show False using d(1) i that unfolding names_distinct_def by metis
  qed (use n that in simp)
  have "names_distinct ?d"
    unfolding names_distinct_def using ni d(1) i l o by (metis (no_types, lifting) names_distinct_def the_user_set)
  have si: False if "user_sock (f (the_user i c)) \<noteq> -1" "j < MAX_USERS" "j \<noteq> i"
      "user_sock (the_user j c) = user_sock (f (the_user i c))" for j
    using sock d(2) i that by (auto simp: socks_distinct_def)
  have "socks_distinct ?d"
    unfolding socks_distinct_def using si d(2) i l o by (metis (no_types, lifting) socks_distinct_def the_user_set)
  have "user_ok (the_user j ?d) \<and> (j \<notin> X \<longrightarrow> user_open j ?d)" if "j < MAX_USERS" for j
    using c i l ok o opens that by (cases "j = i") (simp_all add: chat_inv_but_def user_open_def)
  then show ?thesis using l \<open>names_distinct ?d\<close> \<open>socks_distinct ?d\<close> by (simp add: chat_inv_but_def)
qed

lemma user_okD: "chat_inv_but X c \<Longrightarrow> i < MAX_USERS \<Longrightarrow> user_ok (the_user i c)"
  by (simp add: chat_inv_but_def)

lemma user_openD: "chat_inv_but X c \<Longrightarrow> i < MAX_USERS \<Longrightarrow> i \<notin> X \<Longrightarrow> user_open i c"
  by (simp add: chat_inv_but_def)

lemma chat_inv_close_sock:
  assumes c: "chat_inv c" and i: "i < MAX_USERS"
  shows "chat_inv_but {i} (close_sock (user_sock (the_user i c)) c)"
proof -
  have "user_open j (close_sock (user_sock (the_user i c)) c)" if "j < MAX_USERS" "j \<noteq> i" for j
    using user_openD [OF c that(1)] c i that by (auto simp: user_open_def chat_inv_but_def socks_distinct_def)
  then show ?thesis using c by (simp add: chat_inv_but_def names_distinct_def socks_distinct_def)
qed

lemma chat_inv_closed:
  assumes "chat_inv_but X c" and "X \<subseteq> {i}" and "\<forall>i < MAX_USERS. i \<in> X \<longrightarrow> user_sock (the_user i c) = -1"
  shows "chat_inv c"
  using assms by (auto simp: chat_inv_but_def user_open_def)

lemma chat_inv_hang_up:
  assumes "chat_inv_but {i} c" and "i < MAX_USERS" and "user_ok (f (the_user i c))"
    and "user_sock (f (the_user i c)) = -1" and "user_name (f (the_user i c)) = user_name (the_user i c)"
  shows "chat_inv (set_user i f c)"
proof (rule chat_inv_closed)
  show "chat_inv_but {i} (set_user i f c)" using assms by (intro chat_inv_set) auto
qed (use assms in auto)

lemma chat_inv_drop_name: "chat_inv_but X c \<Longrightarrow> i < MAX_USERS \<Longrightarrow> chat_inv_but X (drop_name i c)"
  unfolding drop_name_def
  by (rule chat_inv_set) (auto simp: user_ok_def dest: user_okD user_openD, simp add: user_open_def chat_inv_but_def)

lemma chat_inv_message:
  assumes "chat_inv_but X c" and "i < MAX_USERS"
  shows "goes (chat_inv_but X) (and_then (message from msg c) (\<lambda>c. Go (drop_name i c)))"
  by (rule goes_and_then [OF chat_inv_goes [OF assms(1) chat_frame_message]]) (simp add: chat_inv_drop_name assms(2))

lemma user_open_same:
  "user_open i c \<Longrightarrow> i < length (chat_users c) \<Longrightarrow> user_sock (f (the_user i c)) = user_sock (the_user i c) \<Longrightarrow>
   user_telnet (f (the_user i c)) \<noteq> None \<or> user_telnet (the_user i c) = None \<Longrightarrow> user_open i (set_user i f c)"
  by (auto simp: user_open_def)

lemma chat_inv_online:
  assumes c: "chat_inv c" and i: "i < MAX_USERS" and line: "0 \<notin> set line"
  shows "goes chat_inv (online line i c)"
proof (cases "user_name (the_user i c)")
  case None
  have "chat_inv (set_user i (\<lambda>u. u\<lparr>user_name := Some line\<rparr>) c)"
    if "line \<noteq> []" "length line \<le> 32" "\<not> name_in_use line c"
    by (rule chat_inv_set [OF c i])
      (use that line c i user_okD [OF c i] user_openD [OF c i] in \<open>auto simp: user_ok_def intro: user_open_same\<close>)
  then show ?thesis using None c chat_inv_goes [OF _ chat_frame_printf] by (auto simp: online_def)
next
  case (Some name)
  have "chat_inv (set_user i (\<lambda>u. u\<lparr>user_sock := -1\<rparr>) (close_sock (user_sock (the_user i c)) c))"
    by (rule chat_inv_hang_up [OF chat_inv_close_sock [OF c i] i])
      (use user_okD [OF c i] in \<open>simp_all add: user_ok_def\<close>)
  then show ?thesis using Some i chat_inv_message chat_inv_goes [OF c chat_frame_message] by (auto simp: online_def)
qed

lemma linebuffer_push_bounds:
  assumes "linebuffer_push ch (buf, pos) = (line, buf', pos')" and "length buf = LINE_SIZE" and "pos \<le> LINE_SIZE"
  shows "length buf' = LINE_SIZE" "pos' \<le> LINE_SIZE" "pred_option (\<lambda>l. 0 \<notin> set l) line"
  using assms by (auto simp: linebuffer_push_def Let_def cstr_def dest: set_takeWhileD split: if_splits)

lemma chat_inv_line:
  assumes "chat_inv c" and "i < MAX_USERS" and "length buf = LINE_SIZE" and "pos \<le> LINE_SIZE"
  shows "chat_inv (set_user i (\<lambda>u. u\<lparr>user_linebuf := buf\<rparr>) c)" "chat_inv (set_user i (\<lambda>u. u\<lparr>user_linepos := pos\<rparr>) c)"
  by (rule chat_inv_set [OF assms(1,2)];
      use assms user_okD [OF assms(1,2)] user_openD [OF assms(1,2)] in \<open>auto simp: user_ok_def intro: user_open_same\<close>)+

lemma chat_inv_push:
  assumes c: "chat_inv c" and i: "i < MAX_USERS"
  shows "goes chat_inv (push_byte i ch c)"
proof -
  obtain line buf pos where p: "linebuffer_push ch (user_linebuf (the_user i c), user_linepos (the_user i c)) = (line, buf, pos)"
    by (cases "linebuffer_push ch (user_linebuf (the_user i c), user_linepos (the_user i c))") auto
  have b: "length buf = LINE_SIZE" "pos \<le> LINE_SIZE" "pred_option (\<lambda>l. 0 \<notin> set l) line"
    using linebuffer_push_bounds [OF p] user_okD [OF c i] by (auto simp: user_ok_def)
  note inv = chat_inv_line [OF _ i b(1,2)]
  have "goes chat_inv (online l i (set_user i (\<lambda>u. u\<lparr>user_linebuf := buf\<rparr>) c))" if "line = Some l" for l
    using chat_inv_online [OF inv(1) [OF c] i] b(3) that by simp
  then show ?thesis using p inv c
    by (auto simp: push_byte_def Let_def intro: goes_and_then split: option.split)
qed

lemma chat_inv_input: "chat_inv c \<Longrightarrow> i < MAX_USERS \<Longrightarrow> goes chat_inv (input_bytes i bs c)"
  by (induction bs arbitrary: c) (auto intro: goes_and_then chat_inv_push)

lemma chat_inv_call: "chat_inv c \<Longrightarrow> goes chat_inv (user_call i (telnet_negotiate cmd opt) c)"
  by (rule chat_inv_goes [OF _ chat_frame_negotiate])

text \<open>A slot that is hung up stays so.\<close>

definition hung_up :: "nat \<Rightarrow> chat \<Rightarrow> bool" where
  "hung_up i c \<longleftrightarrow> chat_inv c \<and> user_sock (the_user i c) = -1"

lemma hung_up_close:
  assumes c: "chat_inv c" and i: "i < MAX_USERS"
  shows "hung_up i (set_user i (\<lambda>u. u\<lparr>user_sock := -1\<rparr>) (close_sock (user_sock (the_user i c)) c))"
proof -
  have "chat_inv (set_user i (\<lambda>u. u\<lparr>user_sock := -1\<rparr>) (close_sock (user_sock (the_user i c)) c))"
    by (rule chat_inv_hang_up [OF chat_inv_close_sock [OF c i] i])
      (use user_okD [OF c i] in \<open>simp_all add: user_ok_def\<close>)
  then show ?thesis using c i by (simp add: hung_up_def)
qed

lemma hung_up_message:
  assumes "hung_up i c" and i: "i < MAX_USERS"
  shows "goes (hung_up i) (and_then (message from msg c) (\<lambda>c. Go (drop_name i c)))"
proof (rule goes_and_then [OF chat_frame_message])
  fix d assume f: "chat_frame c d"
  have c: "chat_inv c" "user_sock (the_user i c) = -1" using assms(1) by (simp_all add: hung_up_def)
  have d: "chat_inv d" using chat_inv_frame [OF c(1) f] .
  have "user_sock (the_user i d) = -1" using c i f by (simp add: chat_frame_def same_user_def)
  then have "user_sock (the_user i (drop_name i d)) = -1" using d i by (simp add: drop_name_def)
  then show "goes (hung_up i) (Go (drop_name i d))" using chat_inv_drop_name [OF d i] by (simp add: hung_up_def)
qed

lemma hung_up_free:
  assumes "hung_up i c" and i: "i < MAX_USERS"
  shows "chat_inv (set_user i (\<lambda>u. u\<lparr>user_telnet := None\<rparr>) c)"
proof -
  have c: "chat_inv c" "user_sock (the_user i c) = -1" using assms by (simp_all add: hung_up_def)
  show ?thesis
    by (rule chat_inv_set [OF c(1) i])
      (use c i user_okD [OF c(1) i] in \<open>simp_all add: user_ok_def user_open_def tracker_fine_def\<close>)
qed

lemma chat_inv_handler:
  assumes c: "chat_inv c" and i: "i < MAX_USERS"
  shows "goes chat_inv (chat_handler i ev c)"
proof (cases ev)
  case (EV_DATA bs n)
  then show ?thesis using assms
    by (auto simp: chat_handler_def intro!: goes_and_then [OF chat_inv_input] goes_and_then [OF chat_inv_call] chat_inv_call)
next
  case (EV_SEND bs)
  then show ?thesis using chat_inv_goes [OF c chat_frame_send] by (simp add: chat_handler_def)
next
  case (EV_ERROR func msg)
  let ?c = "set_user i (\<lambda>u. u\<lparr>user_sock := -1\<rparr>) (close_sock (user_sock (the_user i c)) c)"
  have "goes (hung_up i) (case user_name (the_user i ?c) of None \<Rightarrow> Go ?c
      | Some name \<Rightarrow> and_then (message name (bytes_of ''** HAS HAD AN ERROR **'') ?c) (\<lambda>c. Go (drop_name i c)))"
    using hung_up_close [OF c i] hung_up_message [OF hung_up_close [OF c i] i] by (simp split: option.split)
  then show ?thesis unfolding EV_ERROR chat_handler_def telnet_event.case Let_def
    by (rule goes_and_then) (use hung_up_free [OF _ i] in simp)
qed (use c in \<open>simp_all add: chat_handler_def\<close>)

lemma chat_inv_events: "chat_inv c \<Longrightarrow> i < MAX_USERS \<Longrightarrow> goes chat_inv (handle_events i evs c)"
  by (induction evs arbitrary: c) (auto intro: goes_and_then chat_inv_handler)

lemma chat_inv_deliver:
  assumes c: "chat_inv c" and i: "i < MAX_USERS"
  shows "goes chat_inv (deliver i bs c)"
proof (cases "user_telnet (the_user i c)")
  case (Some t)
  have "tracker_fine (Some t)" using user_okD [OF c i] Some by (simp add: user_ok_def)
  then have "tracker_fine (Some (no_events (telnet_recv bs (no_events t))))"
    using tracker.keeps_recv [of "no_events t" bs] by (simp add: tracker_fine_def no_events_def tracker_ok_events)
  then have "chat_frame c (set_user i (\<lambda>u. u\<lparr>user_telnet := Some (no_events (telnet_recv bs (no_events t)))\<rparr>) c)"
    using Some by (intro chat_frame_tracker) simp_all
  then show ?thesis using chat_inv_frame [OF c] chat_inv_events i Some by (simp add: deliver_def Let_def)
qed (simp add: deliver_def)

lemma chat_inv_recv: "chat_inv c \<Longrightarrow> i < MAX_USERS \<Longrightarrow> goes chat_inv (chat_recv i buf c)"
  unfolding chat_recv_def by (rule recv_cut_goes) (auto intro: chat_inv_deliver)

lemma free_slot_bounds:
  "free_slot us \<le> length us" "free_slot us < length us \<Longrightarrow> user_sock (us ! free_slot us) = -1"
  by (induction us rule: free_slot.induct) auto

text \<open>The system gives a new connection a descriptor that is not in use.\<close>

definition fresh_fd :: "int \<Rightarrow> chat \<Rightarrow> bool" where
  "fresh_fd fd c \<longleftrightarrow> 0 \<le> fd \<and> fd \<notin> dom (chat_socks c)"

lemma chat_inv_open_sock: "chat_inv c \<Longrightarrow> chat_inv (c\<lparr>chat_socks := (chat_socks c)(fd \<mapsto> s)\<rparr>)"
  by (auto simp: chat_inv_but_def names_distinct_def socks_distinct_def user_open_def)

lemma chat_inv_slot:
  assumes c: "chat_inv c" and fd: "fresh_fd fd c" and i: "free_slot (chat_users c) < MAX_USERS"
    and t: "telnet_init telopts flags allocs serr \<noteq> None"
  shows "chat_inv (set_user (free_slot (chat_users c))
    (\<lambda>u. u\<lparr>user_sock := fd, user_telnet := telnet_init telopts flags allocs serr\<rparr>) (c\<lparr>chat_socks := (chat_socks c)(fd \<mapsto> sock)\<rparr>))"
proof -
  have o: "user_sock (the_user j c) \<noteq> fd" if "j < MAX_USERS" for j
    using user_openD [OF c that] fd by (auto simp: user_open_def fresh_fd_def)
  have "tracker_fine (telnet_init telopts flags allocs serr)"
    using tracker_ok_init [of telopts flags allocs serr]
    by (auto simp: tracker_fine_def telnet_init_def pred_option_def split: list.splits bool.splits)
  then show ?thesis
    by (intro chat_inv_set [OF chat_inv_open_sock [OF c] i])
      (use user_okD [OF c i] o t i c in \<open>auto simp: user_ok_def user_open_def\<close>)
qed

lemma chat_inv_accept:
  assumes c: "chat_inv c" and fd: "fresh_fd fd c"
  shows "goes chat_inv (chat_accept fd sock allocs serr c)"
proof -
  let ?c = "c\<lparr>chat_socks := (chat_socks c)(fd \<mapsto> sock)\<rparr>" and ?i = "free_slot (chat_users c)"
  let ?f = "\<lambda>u. u\<lparr>user_sock := fd, user_telnet := telnet_init (Some chat_telopts) 0 allocs serr\<rparr>"
  show ?thesis
  proof (cases "?i < MAX_USERS")
    case True
    have "user_call ?i (telnet_negotiate TELNET_WILL TELNET_TELOPT_COMPRESS2) (set_user ?i ?f ?c) = Undefined"
      if "telnet_init (Some chat_telopts) 0 allocs serr = None"
      using that True c by (simp add: user_call_def)
    then have "goes chat_inv (user_call ?i (telnet_negotiate TELNET_WILL TELNET_TELOPT_COMPRESS2) (set_user ?i ?f ?c))"
      using chat_inv_slot [OF c fd True] chat_inv_call
      by (cases "telnet_init (Some chat_telopts) 0 allocs serr = None") simp_all
    then show ?thesis using True
      by (auto simp: chat_accept_def Let_def intro!: goes_and_then [of chat_inv] chat_inv_call chat_inv_goes [OF _ chat_frame_printf])
  next
    case False
    then have "?i = MAX_USERS" using free_slot_bounds(1) [of "chat_users c"] c by simp
    then show ?thesis by (simp add: chat_accept_def Let_def goes_and_then [OF chat_frame_send])
  qed
qed

lemma chat_inv_disconnect:
  assumes c: "chat_inv c" and i: "i < MAX_USERS"
  shows "goes chat_inv (disconnect i c)"
proof -
  have free: "chat_inv (set_user i (\<lambda>u. u\<lparr>user_telnet := None, user_sock := -1\<rparr>) d)" if "chat_inv_but {i} d" for d
    by (rule chat_inv_hang_up [OF that i]) (use user_okD [OF that i] in \<open>simp_all add: user_ok_def tracker_fine_def\<close>)
  let ?c = "close_sock (user_sock (the_user i c)) c"
  have "goes (chat_inv_but {i}) (case user_name (the_user i ?c) of None \<Rightarrow> Go ?c
      | Some name \<Rightarrow> and_then (message name (bytes_of ''** HAS DISCONNECTED **'') ?c) (\<lambda>c. Go (drop_name i c)))"
    using chat_inv_close_sock [OF c i] chat_inv_message [OF chat_inv_close_sock [OF c i] i] by (simp split: option.split)
  then show ?thesis unfolding disconnect_def Let_def by (rule goes_and_then) (use free in simp)
qed

lemma resume_and_then:
  "goes P (resume m) \<Longrightarrow> (\<And>s. P s \<Longrightarrow> goes P (resume (f s))) \<Longrightarrow> goes P (resume (and_then m f))"
  by (cases m) auto

lemma goes_resume: "goes P m \<Longrightarrow> goes P (resume m)"
  by (cases m) auto

lemma chat_inv_read:
  assumes c: "chat_inv c" and i: "i < MAX_USERS"
  shows "goes chat_inv (resume (chat_read i r c))"
proof -
  have "goes chat_inv (resume (and_then m Leave))" if "goes chat_inv m" for m using that by (cases m) auto
  then show ?thesis
    using c chat_inv_disconnect [OF c i] goes_resume [OF chat_inv_recv [OF c i]]
    by (simp add: chat_read_def split: option.split recv_result.split)
qed

lemma chat_inv_reads:
  "chat_inv c \<Longrightarrow> \<forall>i \<in> set is. i < MAX_USERS \<Longrightarrow> goes chat_inv (resume (read_users is rs c))"
  by (induction "is" arbitrary: c) (auto intro!: resume_and_then [of chat_inv] chat_inv_read)

section \<open>Reachable states\<close>

text \<open>The server after any number of rounds of its loop, whatever the clients and the sockets do.\<close>

inductive chat_reached :: "chat \<Rightarrow> bool" where
  chat_started: "chat_reached chat_init"
| chat_turned: "chat_reached c \<Longrightarrow> pred_option (\<lambda>(fd, _). fresh_fd fd c) new \<Longrightarrow>
    chat_round new rs c = Go d \<Longrightarrow> chat_reached d"

lemma chat_inv_init: "chat_inv chat_init"
  by (simp add: chat_inv_but_def chat_init_def names_distinct_def socks_distinct_def user_open_def user_ok_def no_user_def
      tracker_fine_def)

lemma chat_inv_round:
  assumes c: "chat_inv c" and "pred_option (\<lambda>(fd, _). fresh_fd fd c) new"
  shows "goes chat_inv (chat_round new rs c)"
proof -
  have "goes chat_inv (case new of None \<Rightarrow> Go c | Some (fd, sock, allocs, serr) \<Rightarrow> chat_accept fd sock allocs serr c)"
    using c assms(2) chat_inv_accept by (auto split: option.split)
  then show ?thesis unfolding chat_round_def by (rule goes_and_then) (rule chat_inv_reads, simp_all)
qed

lemma chat_reached_invariant: "chat_reached c \<Longrightarrow> chat_inv c"
proof (induction rule: chat_reached.induct)
  case chat_started
  show ?case by (rule chat_inv_init)
next
  case (chat_turned c new rs d)
  then show ?case using chat_inv_round [of c new rs] by simp
qed

end
