(* ===== verification/Telnet_Chat_Service.thy ===== *)
theory Telnet_Chat_Service
  imports Telnet_Chat
begin

text \<open>
  What the chat server does for its users: lines are cut out of the input, a line of a named user
  reaches everybody, and what happens when users leave, reconnect or are too many.
\<close>

section \<open>Writing to sockets that take everything\<close>

definition accepting :: "chat \<Rightarrow> bool" where
  "accepting c \<longleftrightarrow> (\<forall>fd s. chat_socks c fd = Some s \<longrightarrow> sock_answers s = [])"

definition writes :: "int \<Rightarrow> byte list \<Rightarrow> chat \<Rightarrow> chat" where
  "writes fd bs c = c\<lparr>chat_socks := (chat_socks c)(fd := map_option (\<lambda>s. s\<lparr>sock_out := sock_out s @ bs\<rparr>) (chat_socks c fd))\<rparr>"

text \<open>A slot without a connection writes nowhere.\<close>

definition says :: "nat \<Rightarrow> byte list \<Rightarrow> chat \<Rightarrow> chat" where
  "says i bs c = (if user_sock (the_user i c) = -1 then c else writes (user_sock (the_user i c)) bs c)"

lemma writes_users [simp]: "chat_users (writes fd bs c) = chat_users c"
  by (simp add: writes_def)

lemma writes_sock: "chat_socks (writes fd bs c) fd' =
   (if fd' = fd then map_option (\<lambda>s. s\<lparr>sock_out := sock_out s @ bs\<rparr>) (chat_socks c fd) else chat_socks c fd')"
  by (simp add: writes_def)

lemma writes_dom [simp]: "dom (chat_socks (writes fd bs c)) = dom (chat_socks c)"
  by (auto simp: writes_sock dom_def)

lemma accepting_writes [simp]: "accepting c \<Longrightarrow> accepting (writes fd bs c)"
  by (auto simp: accepting_def writes_sock)

lemma writes_writes [simp]: "writes fd b (writes fd a c) = writes fd (a @ b) c"
  by (simp add: writes_def option.map_comp comp_def)

lemma writes_Nil [simp]: "writes fd [] c = c"
  unfolding writes_def by (cases "chat_socks c fd") (simp_all add: fun_upd_idem)

lemma says_simps [simp]:
  "chat_users (says i bs c) = chat_users c" "dom (chat_socks (says i bs c)) = dom (chat_socks c)"
  "accepting c \<Longrightarrow> accepting (says i bs c)" "says i b (says i a c) = says i (a @ b) c" "says i [] c = c"
  by (simp_all add: says_def)

lemma chat_inv_says [simp]: "chat_inv_but X (says i bs c) = chat_inv_but X c"
  by (simp add: chat_inv_but_def names_distinct_def socks_distinct_def user_open_def)

lemma accepting_set_user [simp]: "accepting (set_user i f c) = accepting c"
  by (simp add: accepting_def)

lemma set_user_says: "user_sock (f (the_user i c)) = user_sock (the_user i c) \<Longrightarrow>
   says j bs (set_user i f c) = set_user i f (says j bs c)"
  by (cases "i < length (chat_users c)"; rule chat.equality) (auto simp: says_def set_user_def writes_def nth_list_update list_update_beyond)

lemma chat_send_says:
  assumes "accepting c" and "user_open i c" and "length bs < 2 ^ 32"
  shows "chat_send (user_sock (the_user i c)) bs c = Go (says i bs c)"
proof (cases "user_sock (the_user i c) = -1 \<or> bs = []")
  case False
  then obtain s where s: "chat_socks c (user_sock (the_user i c)) = Some s" using assms(2) by (auto simp: user_open_def)
  then have "sock_answers s = []" using assms(1) by (auto simp: accepting_def)
  then show ?thesis using False s assms(3) by (simp add: chat_send_def sock_send_all says_def writes_def)
qed (auto simp: chat_send_def says_def Let_def)

text \<open>The events of calls on a tracker.\<close>

fun out_event :: "telnet_event \<Rightarrow> bool" where
  "out_event (EV_SEND bs) = (length bs < 2 ^ 32)"
| "out_event (EV_WARNING func msg) = True"
| "out_event _ = False"

lemma user_open_says [simp]: "user_open j (says i bs c) = user_open j c"
  by (simp add: user_open_def)

lemma send_events_says:
  "accepting c \<Longrightarrow> user_open i c \<Longrightarrow> list_all out_event evs \<Longrightarrow> send_events i evs c = Go (says i (sent_bytes evs) c)"
proof (induction evs arbitrary: c)
  case (Cons ev evs)
  then show ?case by (cases ev) (simp_all add: chat_send_says)
qed simp

lemma user_call_says:
  assumes "accepting c" and "user_open i c" and "i < length (chat_users c)"
    and "user_telnet (the_user i c) = Some t" and "list_all out_event (tn_events (f (no_events t)))"
  shows "user_call i f c = Go (says i (sent_bytes (tn_events (f (no_events t))))
    (set_user i (\<lambda>u. u\<lparr>user_telnet := Some (no_events (f (no_events t)))\<rparr>) c))"
proof -
  let ?c = "set_user i (\<lambda>u. u\<lparr>user_telnet := Some (no_events (f (no_events t)))\<rparr>) c"
  have "accepting ?c" "user_open i ?c" using assms(1-4) by (auto simp: accepting_def user_open_def)
  then show ?thesis using assms(4,5) by (simp add: user_call_def Let_def send_events_says)
qed

lemma set_user_same: "user_telnet (the_user i c) = Some t \<Longrightarrow> set_user i (\<lambda>u. u\<lparr>user_telnet := Some t\<rparr>) c = c"
proof -
  assume t: "user_telnet (the_user i c) = Some t"
  have "(the_user i c)\<lparr>user_telnet := Some t\<rparr> = the_user i c" using t by (intro user.equality) simp_all
  then show ?thesis by (simp add: set_user_def)
qed

lemma nvt_text_length: "length (nvt_text xs) \<le> 2 * length xs"
  by (induction xs) (auto simp: nvt_text_def)

text \<open>The events of a formatted output, and the tracker after it.\<close>

lemma vprintf_events:
  assumes "tracker_fine (Some t)" and "length out < 1024"
  obtains ps where "snd (telnet_vprintf out (no_events t)) = t\<lparr>tn_events := map EV_SEND ps\<rparr>" and "concat ps = nvt_text out"
    and "\<forall>p \<in> set ps. length p < 2 ^ 32"
proof -
  have e: "no_events t = t" "tn_events t = []" using assms(1) by (auto simp: tracker_fine_def no_events_idle)
  obtain ps where ps: "snd (telnet_vprintf out t) = t\<lparr>tn_events := map EV_SEND ps\<rparr>" "concat ps = nvt_text out"
    using sends_printf [of out t] assms(2) e by (auto simp: telnet_vprintf_def sends_def)
  have "length (concat ps) < 2 ^ 32" using nvt_text_length [of out] assms(2) unfolding ps(2) by simp
  moreover have "length p \<le> length (concat ps)" if "p \<in> set ps" for p using that by (induction ps) auto
  ultimately have "\<forall>p \<in> set ps. length p < 2 ^ 32" using le_less_trans by blast
  then show ?thesis using that ps e(1) by metis
qed

lemma user_printf_says:
  assumes c: "chat_inv_but X c" "accepting c" and i: "i < MAX_USERS" "i \<notin> X" and out: "length out < 1024"
    and t: "user_telnet (the_user i c) \<noteq> None"
  shows "user_printf i out c = Go (says i (nvt_text out) c)"
proof -
  obtain t where t: "user_telnet (the_user i c) = Some t" using t by blast
  then have f: "tracker_fine (Some t)" using user_okD [OF c(1) i(1)] by (simp add: user_ok_def)
  then have e: "no_events t = t" by (simp add: tracker_fine_def no_events_idle)
  obtain ps where ps: "snd (telnet_vprintf out (no_events t)) = t\<lparr>tn_events := map EV_SEND ps\<rparr>" "concat ps = nvt_text out"
    "\<forall>p \<in> set ps. length p < 2 ^ 32"
    using vprintf_events [OF f out] by blast
  have "no_events (t\<lparr>tn_events := map EV_SEND ps\<rparr>) = t" using e by simp
  moreover have "list_all out_event (map EV_SEND ps)" using ps(3) by (simp add: list_all_iff)
  ultimately show ?thesis
    using user_call_says [of c i t "\<lambda>t. snd (telnet_vprintf out t)"] c i t ps(1,2) user_openD [OF c(1) i]
    by (simp add: user_printf_def set_user_same)
qed

section \<open>Messages\<close>

lemma message_each_says:
  "chat_inv_but X c \<Longrightarrow> accepting c \<Longrightarrow> \<forall>i \<in> set is. i < MAX_USERS \<and> i \<notin> X \<Longrightarrow> length out < 1024 \<Longrightarrow>
   message_each is out c = Go (fold (\<lambda>i. says i (nvt_text out)) is c)"
proof (induction "is" arbitrary: c)
  case (Cons i "is")
  have "user_printf i out c = Go (says i (nvt_text out) c)" if "user_sock (the_user i c) \<noteq> -1"
    using user_printf_says [of X c i out] user_openD [of X c i] Cons.prems that by (simp add: user_open_def)
  moreover have "says i (nvt_text out) c = c" if "user_sock (the_user i c) = -1" using that by (simp add: says_def)
  ultimately show ?case using Cons by auto
qed simp

lemma fold_says_simps [simp]:
  "chat_users (fold (\<lambda>i. says i bs) is c) = chat_users c" "accepting c \<Longrightarrow> accepting (fold (\<lambda>i. says i bs) is c)"
  "chat_inv_but X (fold (\<lambda>i. says i bs) is c) = chat_inv_but X c"
  by (induction "is" arbitrary: c) simp_all

lemma fold_says_sock:
  assumes "socks_distinct c" and "distinct is" and "\<forall>i \<in> set is. i < MAX_USERS"
  shows "chat_socks (fold (\<lambda>i. says i bs) is c) fd =
    (if fd \<noteq> -1 \<and> (\<exists>i \<in> set is. user_sock (the_user i c) = fd)
     then map_option (\<lambda>s. s\<lparr>sock_out := sock_out s @ bs\<rparr>) (chat_socks c fd) else chat_socks c fd)"
  using assms
proof (induction "is" arbitrary: c)
  case (Cons i "is")
  have d: "socks_distinct (says i bs c)" using Cons.prems(1) by (simp add: socks_distinct_def)
  have u: False if j: "j \<in> set is" and e: "user_sock (the_user i c) \<noteq> -1" "user_sock (the_user i c) = user_sock (the_user j c)" for j
  proof -
    have "j \<noteq> i" "i < MAX_USERS" "j < MAX_USERS" using Cons.prems(2,3) j by auto
    then show False using Cons.prems(1) e unfolding socks_distinct_def by blast
  qed
  have one: "chat_socks (says i bs c) fd = (if fd \<noteq> -1 \<and> user_sock (the_user i c) = fd
      then map_option (\<lambda>s. s\<lparr>sock_out := sock_out s @ bs\<rparr>) (chat_socks c fd) else chat_socks c fd)"
    by (auto simp: says_def writes_sock)
  have rest: "chat_socks (fold (\<lambda>i. says i bs) (i # is) c) fd = (if fd \<noteq> -1 \<and> (\<exists>i \<in> set is. user_sock (the_user i c) = fd)
     then map_option (\<lambda>s. s\<lparr>sock_out := sock_out s @ bs\<rparr>) (chat_socks (says i bs c) fd) else chat_socks (says i bs c) fd)"
    using Cons.IH [OF d] Cons.prems(2,3) by simp
  have "\<not> (\<exists>j \<in> set is. user_sock (the_user j c) = fd)" if "fd \<noteq> -1" "user_sock (the_user i c) = fd"
    using u that by metis
  then show ?case unfolding rest one by simp blast
qed simp

text \<open>The descriptors of the users who are connected, and everybody being told something.\<close>

definition connected :: "chat \<Rightarrow> int set" where
  "connected c = {fd. fd \<noteq> -1 \<and> (\<exists>i < MAX_USERS. user_sock (the_user i c) = fd)}"

definition tell :: "byte list \<Rightarrow> chat \<Rightarrow> chat" where
  "tell bs = fold (\<lambda>i. says i bs) [0..<MAX_USERS]"

lemma tell_simps [simp]:
  "chat_users (tell bs c) = chat_users c" "accepting c \<Longrightarrow> accepting (tell bs c)"
  "chat_inv_but X (tell bs c) = chat_inv_but X c" "connected (tell bs c) = connected c"
  by (simp_all add: tell_def connected_def)

lemma tell_sock:
  "chat_inv_but X c \<Longrightarrow> chat_socks (tell bs c) fd =
    (if fd \<in> connected c then map_option (\<lambda>s. s\<lparr>sock_out := sock_out s @ bs\<rparr>) (chat_socks c fd) else chat_socks c fd)"
  using fold_says_sock [of c "[0..<MAX_USERS]"] by (auto simp: tell_def connected_def chat_inv_but_def)

lemma message_tells:
  "chat_inv c \<Longrightarrow> accepting c \<Longrightarrow> length (message_text from msg) < 1024 \<Longrightarrow>
   message from msg c = Go (tell (nvt_text (message_text from msg)) c)"
  by (simp add: message_def message_each_says [of "{}"] tell_def)

section \<open>Lines\<close>

text \<open>The line buffer on its own: the lines it hands out for a sequence of bytes.\<close>

fun push_lines :: "byte list \<Rightarrow> byte list \<times> nat \<Rightarrow> byte list list \<times> byte list \<times> nat" where
  "push_lines [] b = ([], b)"
| "push_lines (ch # bs) b =
     (let (line, b1) = linebuffer_push ch b; (ls, b2) = push_lines bs b1
      in (case line of None \<Rightarrow> ls | Some l \<Rightarrow> l # ls, b2))"

lemma push_lines_append:
  "push_lines (xs @ ys) b = (fst (push_lines xs b) @ fst (push_lines ys (snd (push_lines xs b))),
     snd (push_lines ys (snd (push_lines xs b))))"
  by (induction xs arbitrary: b) (simp_all add: split_beta Let_def split: option.split)

definition no_cr :: "byte list \<Rightarrow> nat \<Rightarrow> bool" where
  "no_cr buf p \<longleftrightarrow> p = 0 \<or> buf ! (p - 1) \<noteq> 13"

lemma push_lines_plain:
  assumes "0 \<notin> set line" and "13 \<notin> set line" and "length buf = LINE_SIZE" and "p + length line \<le> LINE_SIZE" and "no_cr buf p"
  shows "\<exists>buf'. push_lines line (buf, p) = ([], buf', p + length line) \<and> length buf' = LINE_SIZE \<and>
    take (p + length line) buf' = take p buf @ line"
  using assms
proof (induction line arbitrary: buf p)
  case (Cons b line)
  let ?buf = "buf[p := b]"
  have p: "p < LINE_SIZE" "linebuffer_push b (buf, p) = (None, ?buf, p + 1)"
    using Cons.prems by (auto simp: linebuffer_push_def no_cr_def)
  have "no_cr ?buf (p + 1)" using Cons.prems p by (auto simp: no_cr_def)
  then obtain buf' where b: "push_lines line (?buf, p + 1) = ([], buf', p + 1 + length line)" "length buf' = LINE_SIZE"
    "take (p + 1 + length line) buf' = take (p + 1) ?buf @ line"
    using Cons.IH [of ?buf "p + 1"] Cons.prems by auto
  moreover have "take (p + 1) ?buf = take p buf @ [b]" using Cons.prems p by (simp add: take_Suc_nth)
  ultimately show ?case using p by simp
qed simp

text \<open>A line that fits is handed out when its CR LF arrives.\<close>

lemma push_lines_crlf:
  assumes "0 \<notin> set line" and "13 \<notin> set line" and "length line < LINE_SIZE" and "length buf = LINE_SIZE"
  shows "\<exists>b1 b2. length b1 = LINE_SIZE \<and> length b2 = LINE_SIZE \<and> push_lines (line @ [13]) (buf, 0) = ([], b1, length line + 1) \<and>
    linebuffer_push 10 (b1, length line + 1) = (Some line, b2, 0)"
proof -
  obtain b where b: "push_lines line (buf, 0) = ([], b, length line)" "length b = LINE_SIZE" "take (length line) b = line"
    using push_lines_plain [of line buf 0] assms by (auto simp: no_cr_def)
  have "linebuffer_push 13 (b, length line) = (None, b[length line := 13], length line + 1)"
    using assms(3) by (simp add: linebuffer_push_def)
  then have "push_lines (line @ [13]) (buf, 0) = ([], b[length line := 13], length line + 1)"
    using b(1) by (simp add: push_lines_append)
  moreover have "cstr (b[length line := 0]) 0 = line"
  proof -
    have "b[length line := 0] = line @ 0 # drop (Suc (length line)) b"
      using b(2,3) assms(3) by (simp add: upd_conv_take_nth_drop)
    moreover have "takeWhile (\<lambda>b. b \<noteq> 0) (line @ 0 # xs) = line" for xs using assms(1) by (induction line) auto
    ultimately show ?thesis by (simp add: cstr_def)
  qed
  then have "linebuffer_push 10 (b[length line := 13], length line + 1) = (Some line, b[length line := 0], 0)"
    using b(2) assms(3) by (simp add: linebuffer_push_def)
  ultimately show ?thesis using b(2) by (metis length_list_update)
qed

lemma push_lines_cut:
  assumes "\<forall>l \<in> set ls. 0 \<notin> set l \<and> 13 \<notin> set l \<and> length l < LINE_SIZE" and "length buf = LINE_SIZE"
  shows "\<exists>b. length b = LINE_SIZE \<and> push_lines (concat (map (\<lambda>l. l @ [13, 10]) ls)) (buf, 0) = (ls, b, 0)"
  using assms
proof (induction ls arbitrary: buf)
  case (Cons l ls)
  obtain b1 b2 where b: "length b2 = LINE_SIZE" "push_lines (l @ [13]) (buf, 0) = ([], b1, length l + 1)"
    "linebuffer_push 10 (b1, length l + 1) = (Some l, b2, 0)"
    using push_lines_crlf [of l buf] Cons.prems by auto
  obtain b3 where b3: "length b3 = LINE_SIZE" "push_lines (concat (map (\<lambda>l. l @ [13, 10]) ls)) (b2, 0) = (ls, b3, 0)"
    using Cons.IH [of b2] Cons.prems b(1) by auto
  have "push_lines ((l @ [13]) @ 10 # concat (map (\<lambda>l. l @ [13, 10]) ls)) (buf, 0) = (l # ls, b3, 0)"
    unfolding push_lines_append [of "l @ [13]" _ "(buf, 0)"] b(2) using b(3) b3(2) by simp
  then show ?case using b3(1) by simp
qed simp

section \<open>Input of a user\<close>

lemma set_user_twice [simp]: "i < length (chat_users c) \<Longrightarrow> set_user i f (set_user i g c) = set_user i (\<lambda>u. f (g u)) c"
  by (simp add: set_user_def)

lemma input_bytes_append: "input_bytes i (xs @ ys) c = and_then (input_bytes i xs c) (input_bytes i ys)"
proof (induction xs arbitrary: c)
  case (Cons x xs)
  then show ?case by (cases "push_byte i x c") simp_all
qed simp

abbreviation line_state :: "nat \<Rightarrow> byte list \<Rightarrow> nat \<Rightarrow> chat \<Rightarrow> chat" where
  "line_state i buf p \<equiv> set_user i (\<lambda>u. u\<lparr>user_linebuf := buf, user_linepos := p\<rparr>)"

lemma user_swap: "u\<lparr>user_linepos := p, user_linebuf := buf\<rparr> = u\<lparr>user_linebuf := buf, user_linepos := p\<rparr>"
  by (rule user.equality) simp_all

lemma input_no_line:
  "push_lines bs (user_linebuf (the_user i c), user_linepos (the_user i c)) = ([], buf, p) \<Longrightarrow>
   i < length (chat_users c) \<Longrightarrow> input_bytes i bs c = Go (line_state i buf p c)"
proof (induction bs arbitrary: c)
  case Nil
  then have "(the_user i c)\<lparr>user_linebuf := buf, user_linepos := p\<rparr> = the_user i c" by (intro user.equality) auto
  then show ?case by (simp add: set_user_def)
next
  case (Cons b bs)
  obtain line buf1 p1 where l: "linebuffer_push b (user_linebuf (the_user i c), user_linepos (the_user i c)) = (line, buf1, p1)"
    by (metis prod_cases3)
  have n: "line = None" "push_lines bs (buf1, p1) = ([], buf, p)"
    using Cons.prems(1) l by (auto simp: split_beta split: option.splits) (metis prod.collapse)
  have "push_byte i b c = Go (line_state i buf1 p1 c)" using l n(1) Cons.prems(2) by (simp add: push_byte_def)
  then show ?case using Cons.IH [of "line_state i buf1 p1 c"] n(2) Cons.prems(2) by simp
qed

lemma input_line:
  assumes c: "chat_inv c" and i: "i < MAX_USERS" and p: "user_linepos (the_user i c) = 0"
    and line: "0 \<notin> set line" "13 \<notin> set line" "length line < LINE_SIZE"
  shows "\<exists>buf. length buf = LINE_SIZE \<and> input_bytes i (line @ [13, 10]) c =
    and_then (online line i (line_state i buf (length line + 1) c)) (\<lambda>c. Go (set_user i (\<lambda>u. u\<lparr>user_linepos := 0\<rparr>) c))"
proof -
  have "length (user_linebuf (the_user i c)) = LINE_SIZE" using user_okD [OF c i] by (simp add: user_ok_def)
  then obtain b1 b2 where b: "length b2 = LINE_SIZE"
    "push_lines (line @ [13]) (user_linebuf (the_user i c), 0) = ([], b1, length line + 1)"
    "linebuffer_push 10 (b1, length line + 1) = (Some line, b2, 0)"
    using push_lines_crlf [OF line] by blast
  have "input_bytes i (line @ [13]) c = Go (line_state i b1 (length line + 1) c)"
    using input_no_line [of "line @ [13]" c i b1 "length line + 1"] b(2) p c i by simp
  then have "input_bytes i ((line @ [13]) @ [10]) c = push_byte i 10 (line_state i b1 (length line + 1) c)"
    unfolding input_bytes_append by (cases "push_byte i 10 (line_state i b1 (length line + 1) c)") simp_all
  also have "\<dots> = and_then (online line i (line_state i b2 (length line + 1) c)) (\<lambda>c. Go (set_user i (\<lambda>u. u\<lparr>user_linepos := 0\<rparr>) c))"
    using b(3) c i by (simp add: push_byte_def) (simp only: user_swap)
  finally show ?thesis using b(1) by auto
qed

section \<open>Receiving\<close>

lemma set_rfc1143_events:
  "\<exists>evs. tn_events (t_set_rfc1143 opt us him t) = tn_events t @ evs \<and> list_all out_event evs"
  by (auto simp: t_set_rfc1143_def t_error_def split_beta split: option.split)

lemma negotiate_events:
  "\<exists>evs. tn_events (telnet_negotiate cmd opt t) = tn_events t @ evs \<and> list_all out_event evs"
proof -
  let ?q = "t_set_rfc1143 opt"
  have "tn_events (telnet_negotiate cmd opt t) = tn_events t \<or> (\<exists>us him. telnet_negotiate cmd opt t = ?q us him t) \<or>
      (\<exists>us him cmd'. telnet_negotiate cmd opt t = t_send [TELNET_IAC, cmd', opt] (?q us him t)) \<or>
      telnet_negotiate cmd opt t = t_send [TELNET_IAC, cmd, opt] t"
    unfolding telnet_negotiate_def Let_def t_send_negotiate_def by (auto split: if_splits)
  moreover have "\<exists>evs. tn_events (t_send [TELNET_IAC, x, opt] u) = tn_events t @ evs \<and> list_all out_event evs"
    if "\<exists>evs. tn_events u = tn_events t @ evs \<and> list_all out_event evs" for x u
    using that by (auto simp: t_send_def)
  ultimately show ?thesis using set_rfc1143_events [of opt _ _ t] by (elim disjE exE) simp_all
qed

lemma negotiate_says:
  assumes c: "chat_inv c" "accepting c" and i: "i < MAX_USERS" and t: "user_telnet (the_user i c) \<noteq> None"
  shows "\<exists>bs t. user_call i (telnet_negotiate cmd opt) c = Go (says i bs (set_user i (\<lambda>u. u\<lparr>user_telnet := Some t\<rparr>) c))"
proof -
  obtain t where t: "user_telnet (the_user i c) = Some t" using t by blast
  have "list_all out_event (tn_events (telnet_negotiate cmd opt (no_events t)))"
    using negotiate_events [of cmd opt "no_events t"] by auto
  then show ?thesis using user_call_says [OF c(2) user_openD [OF c(1) i] _ t] c(1) i by auto
qed

lemma echo_says:
  assumes c: "chat_inv c" "accepting c" and i: "i < MAX_USERS" and t: "user_telnet (the_user i c) \<noteq> None"
  shows "\<exists>bs t. and_then (user_call i (telnet_negotiate cmd opt) c) (user_call i (telnet_negotiate cmd' opt')) =
    Go (says i bs (set_user i (\<lambda>u. u\<lparr>user_telnet := Some t\<rparr>) c))"
proof -
  obtain bs t where a: "user_call i (telnet_negotiate cmd opt) c = Go (says i bs (set_user i (\<lambda>u. u\<lparr>user_telnet := Some t\<rparr>) c))"
    using negotiate_says [OF assms] by blast
  let ?d = "says i bs (set_user i (\<lambda>u. u\<lparr>user_telnet := Some t\<rparr>) c)"
  have "chat_inv ?d" using chat_inv_call [OF c(1), of i cmd opt] unfolding a by (simp only: goes.simps)
  moreover have "accepting ?d" using c(2) by simp
  ultimately obtain bs' t' where "user_call i (telnet_negotiate cmd' opt') ?d = Go (says i bs' (set_user i (\<lambda>u. u\<lparr>user_telnet := Some t'\<rparr>) ?d))"
    using negotiate_says [of ?d i cmd' opt'] i c(1) by auto
  moreover have "set_user i (\<lambda>u. u\<lparr>user_telnet := Some t'\<rparr>) ?d = says i bs (set_user i (\<lambda>u. u\<lparr>user_telnet := Some t'\<rparr>) c)"
    using i c(1) by (subst set_user_says [symmetric]) simp_all
  ultimately show ?thesis unfolding a by auto
qed

lemma and_then_Go [simp]: "and_then m Go = m"
  by (cases m) simp_all

lemma nothing_more: "handle_events i [] = Go" "recv_cut tr dl [] = Go"
  by (rule ext; simp add: recv_cut.simps)+

lemma chat_recv_data:
  assumes c: "chat_inv c" and i: "i < MAX_USERS" and t: "user_telnet (the_user i c) = Some t" "tn_state t = STATE_DATA"
    and buf: "buf \<noteq> []" "TELNET_IAC \<notin> set buf" "length buf < 2 ^ 32"
  shows "chat_recv i buf c = and_then (input_bytes i buf c)
    (\<lambda>c. and_then (user_call i (telnet_negotiate TELNET_WONT TELNET_TELOPT_ECHO) c)
           (user_call i (telnet_negotiate TELNET_WILL TELNET_TELOPT_ECHO)))"
proof -
  have e: "no_events t = t" "tn_events t = []"
    using user_okD [OF c i] t(1) by (auto simp: user_ok_def tracker_fine_def no_events_idle)
  have r: "telnet_recv buf t = emit (EV_DATA buf (of_nat (length buf))) t" using recv_data_run t(2) buf by blast
  have "length (takeWhile (\<lambda>b. b \<noteq> TELNET_IAC) buf) = length buf"
    using buf(2) by (intro arg_cong [of _ _ length]) (auto simp: takeWhile_eq_all_conv)
  moreover have "hd buf \<noteq> TELNET_IAC" using hd_in_set [OF buf(1)] buf(2) by metis
  ultimately have n: "next_cut t buf = length buf" using t(2) by (simp add: next_cut_def)
  have k: "no_events (emit ev t) = t" for ev using e by (simp add: emit_def)
  have "deliver i buf c = chat_handler i (EV_DATA buf (of_nat (length buf))) c"
    unfolding deliver_def t(1) option.case Let_def e(1) r k set_user_same [OF t(1)] using e(2) by (simp add: nothing_more)
  then have "chat_recv i buf c = chat_handler i (EV_DATA buf (of_nat (length buf))) c"
    unfolding chat_recv_def using buf(1) t(1) n by (subst recv_cut.simps) (simp add: nothing_more)
  then show ?thesis using buf(3) by (simp add: chat_handler_def)
qed

lemma tell_set_user:
  "user_sock (f (the_user i c)) = user_sock (the_user i c) \<Longrightarrow> tell bs (set_user i f c) = set_user i f (tell bs c)"
proof -
  assume f: "user_sock (f (the_user i c)) = user_sock (the_user i c)"
  have "fold (\<lambda>i. says i bs) is (set_user i f d) = set_user i f (fold (\<lambda>i. says i bs) is d)"
    if "chat_users d = chat_users c" for "is" d
    using that f by (induction "is" arbitrary: d) (simp_all add: set_user_says)
  then show ?thesis by (simp add: tell_def)
qed

lemma input_message:
  assumes c: "chat_inv c" "accepting c" and i: "i < MAX_USERS" and p: "user_linepos (the_user i c) = 0"
    and name: "user_name (the_user i c) = Some name"
    and line: "0 \<notin> set line" "13 \<notin> set line" "length line < LINE_SIZE" "line \<noteq> bytes_of ''quit''"
  shows "\<exists>buf. length buf = LINE_SIZE \<and>
    input_bytes i (line @ [13, 10]) c = Go (line_state i buf 0 (tell (nvt_text (message_text name line)) c))"
proof -
  obtain buf where b: "length buf = LINE_SIZE" "input_bytes i (line @ [13, 10]) c =
      and_then (online line i (line_state i buf (length line + 1) c)) (\<lambda>c. Go (set_user i (\<lambda>u. u\<lparr>user_linepos := 0\<rparr>) c))"
    using input_line [OF c(1) i p line(1-3)] by blast
  let ?c = "line_state i buf (length line + 1) c"
  have inv: "chat_inv ?c"
    by (rule chat_inv_set [OF c(1) i])
      (use c i b(1) line(3) user_okD [OF c(1) i] user_openD [OF c(1) i] in \<open>auto simp: user_ok_def intro: user_open_same\<close>)
  have "length name \<le> 32" using user_okD [OF c(1) i] name by (simp add: user_ok_def)
  then have "length (message_text name line) < 1024" using line(3) by (simp add: message_text_def LINE_SIZE_def)
  then have "online line i ?c = Go (tell (nvt_text (message_text name line)) ?c)"
    using message_tells [OF inv] c i name line(4) by (simp add: online_def)
  then show ?thesis using b c(1) i by (auto simp: tell_set_user)
qed

text \<open>A free slot is given to a newcomer, who is asked for a name.\<close>

lemma accept_works:
  assumes inv: "chat_inv c" and acc: "accepting c" and fd: "fresh_fd fd c" and s: "sock_answers s = []"
    and i: "free_slot (chat_users c) < MAX_USERS"
  shows "\<exists>d. chat_accept fd s [] serr c = Go d \<and> chat_inv d \<and> accepting d"
proof -
  let ?i = "free_slot (chat_users c)" and ?w = "c\<lparr>chat_socks := (chat_socks c)(fd \<mapsto> s)\<rparr>"
  let ?f = "\<lambda>u. u\<lparr>user_sock := fd, user_telnet := telnet_init (Some chat_telopts) 0 [] serr\<rparr>"
  have u: "chat_users ?w = chat_users c" and ne: "?i \<noteq> MAX_USERS" using i by simp_all
  have t: "telnet_init (Some chat_telopts) 0 [] serr \<noteq> None" by (simp add: telnet_init_def)
  then have inv0: "chat_inv (set_user ?i ?f ?w)" using chat_inv_slot [OF inv fd i] by blast
  have acc0: "accepting (set_user ?i ?f ?w)" using acc s by (simp add: accepting_def)
  obtain b1 t1 where 1: "user_call ?i (telnet_negotiate TELNET_WILL TELNET_TELOPT_COMPRESS2) (set_user ?i ?f ?w) =
      Go (says ?i b1 (set_user ?i (\<lambda>u. u\<lparr>user_telnet := Some t1\<rparr>) (set_user ?i ?f ?w)))"
    using negotiate_says [OF inv0 acc0 i, of TELNET_WILL TELNET_TELOPT_COMPRESS2] t inv i by auto
  let ?d = "says ?i b1 (set_user ?i (\<lambda>u. u\<lparr>user_telnet := Some t1\<rparr>) (set_user ?i ?f ?w))"
  have inv1: "chat_inv ?d"
    using chat_inv_call [OF inv0, of ?i TELNET_WILL TELNET_TELOPT_COMPRESS2] unfolding 1 by (simp only: goes.simps)
  have acc1: "accepting ?d" using acc0 by simp
  have 2: "user_printf ?i (bytes_of ''Enter name: '') ?d = Go (says ?i (nvt_text (bytes_of ''Enter name: '')) ?d)"
    by (rule user_printf_says [OF inv1 acc1 i]) (use inv i in simp_all)
  let ?e = "says ?i (nvt_text (bytes_of ''Enter name: '')) ?d"
  have inv2: "chat_inv ?e" using inv1 by (simp only: chat_inv_says)
  have acc2: "accepting ?e" by (rule says_simps(3) [OF acc1])
  have "user_telnet (the_user ?i ?e) \<noteq> None" using inv i by simp
  then obtain b3 t3 where 3: "user_call ?i (telnet_negotiate TELNET_WILL TELNET_TELOPT_ECHO) ?e =
      Go (says ?i b3 (set_user ?i (\<lambda>u. u\<lparr>user_telnet := Some t3\<rparr>) ?e))"
    using negotiate_says [OF inv2 acc2 i, of TELNET_WILL TELNET_TELOPT_ECHO] by blast
  have "chat_inv (says ?i b3 (set_user ?i (\<lambda>u. u\<lparr>user_telnet := Some t3\<rparr>) ?e))"
    using chat_inv_call [OF inv2, of ?i TELNET_WILL TELNET_TELOPT_ECHO] unfolding 3 by (simp only: goes.simps)
  moreover have "accepting (says ?i b3 (set_user ?i (\<lambda>u. u\<lparr>user_telnet := Some t3\<rparr>) ?e))"
    by (rule says_simps(3)) (simp only: accepting_set_user acc2)
  moreover have "chat_accept fd s [] serr c = Go (says ?i b3 (set_user ?i (\<lambda>u. u\<lparr>user_telnet := Some t3\<rparr>) ?e))"
    unfolding chat_accept_def Let_def by (simp only: u ne if_False and_then.simps 1 2 3)
  ultimately show ?thesis by blast
qed

text \<open>A server with one user, named \<^verbatim>\<open>a\<close>, on descriptor 3.\<close>

definition one_user :: chat where
  "one_user = set_user 0 (\<lambda>u. u\<lparr>user_name := Some [97], user_sock := 3, user_telnet := Some fresh\<rparr>)
     (chat_init\<lparr>chat_socks := [3 \<mapsto> \<lparr>sock_out = [], sock_answers = []\<rparr>]\<rparr>)"

lemma one_user_simps [simp]:
  "the_user 0 one_user = no_user\<lparr>user_name := Some [97], user_sock := 3, user_telnet := Some fresh\<rparr>"
  "chat_socks one_user = [3 \<mapsto> \<lparr>sock_out = [], sock_answers = []\<rparr>]" "accepting one_user"
  by (simp_all add: one_user_def chat_init_def MAX_USERS_def accepting_def)

lemma chat_inv_one_user: "chat_inv one_user"
proof -
  let ?c = "chat_init\<lparr>chat_socks := [3 \<mapsto> \<lparr>sock_out = [], sock_answers = []\<rparr>]\<rparr>"
  have "chat_inv ?c" using chat_inv_open_sock [OF chat_inv_init] by (simp add: chat_init_def)
  moreover have "tracker_ok fresh" using tracker_ok_init [of None 0 "[]" "''''" fresh] by (simp add: fresh_def telnet_init_def)
  ultimately show ?thesis unfolding one_user_def
    by (intro chat_inv_set)
      (auto simp: chat_init_def MAX_USERS_def user_ok_def user_open_def no_user_def tracker_fine_def name_in_use_def list_ex_iff)
qed

section \<open>Properties\<close>

text \<open>
  C8. In every state the chat server reaches, whatever its clients send, whichever sends are cut short
  and whichever allocations fail: no two slots have the same name or the same descriptor, every name is
  one to 32 bytes long, no line outgrows its buffer, every tracker is well-formed, and a connected slot
  has a tracker and an open descriptor.
\<close>

theorem chat_reached_inv: "chat_reached c \<Longrightarrow> chat_inv c"
  by (rule chat_reached_invariant)

lemma read_users_none: "read_users is (\<lambda>_. None) c = Go c"
  by (induction "is" arbitrary: c) (simp_all add: chat_read_def)

theorem chat_reached_inv_witness:
  "\<exists>c. chat_round (Some (3, \<lparr>sock_out = [], sock_answers = []\<rparr>, [], '''')) (\<lambda>_. None) chat_init = Go c \<and> chat_inv c"
proof -
  have "free_slot (chat_users chat_init) < MAX_USERS" "fresh_fd 3 chat_init" "accepting chat_init"
    by (simp_all add: chat_init_def MAX_USERS_def no_user_def fresh_fd_def accepting_def numeral_eq_Suc)
  then obtain c where c: "chat_accept 3 \<lparr>sock_out = [], sock_answers = []\<rparr> [] '''' chat_init = Go c"
    using accept_works [OF chat_inv_init, of 3 "\<lparr>sock_out = [], sock_answers = []\<rparr>" "[]"] by auto
  then have r: "chat_round (Some (3, \<lparr>sock_out = [], sock_answers = []\<rparr>, [], '''')) (\<lambda>_. None) chat_init = Go c"
    by (simp add: chat_round_def read_users_none)
  have "chat_reached c" by (rule chat_turned [OF chat_started _ r]) (simp add: fresh_fd_def chat_init_def)
  then show ?thesis using chat_reached_inv r by blast
qed

text \<open>
  The line buffer cuts the input at CR LF: whatever lines of at most 255 bytes without NUL and CR
  are sent, exactly these lines are handed to the application, in order, and nothing is left over.
\<close>

theorem lines_handed_out:
  assumes "\<forall>l \<in> set ls. 0 \<notin> set l \<and> 13 \<notin> set l \<and> length l < LINE_SIZE" and "length buf = LINE_SIZE"
  shows "\<exists>b. length b = LINE_SIZE \<and> push_lines (concat (map (\<lambda>l. l @ [13, 10]) ls)) (buf, 0) = (ls, b, 0)"
  using push_lines_cut [OF assms] .

theorem lines_handed_out_witness:
  "\<exists>b. length b = LINE_SIZE \<and> push_lines [104, 105, 13, 10, 13, 10, 10, 13, 10] (replicate LINE_SIZE 0, 0) = ([[104, 105], [], [10]], b, 0)"
  using lines_handed_out [of "[[104, 105], [], [10]]" "replicate LINE_SIZE 0"] by (simp add: LINE_SIZE_def)


text \<open>A write to a descriptor that is closed already.\<close>

lemma send_events_closed:
  assumes "user_sock (the_user i c) \<noteq> -1" and "user_sock (the_user i c) \<notin> dom (chat_socks c)"
    and "\<forall>p \<in> set ps. length p < 2 ^ 32" and "concat ps \<noteq> []"
  shows "send_events i (map EV_SEND ps) c = Exit 1 c"
  using assms
proof (induction ps)
  case (Cons p ps)
  then show ?case by (cases "p = []") (auto simp: chat_send_def Let_def domIff)
qed simp

lemma user_printf_closed:
  assumes c: "chat_inv_but {i} c" and i: "i < MAX_USERS" and t: "user_telnet (the_user i c) \<noteq> None"
    and fd: "user_sock (the_user i c) \<noteq> -1" "user_sock (the_user i c) \<notin> dom (chat_socks c)"
    and out: "length out < 1024" "out \<noteq> []"
  shows "user_printf i out c = Exit 1 c"
proof -
  obtain t where t: "user_telnet (the_user i c) = Some t" using t by blast
  then have f: "tracker_fine (Some t)" using user_okD [OF c i] by (simp add: user_ok_def)
  then have e: "no_events t = t" by (simp add: tracker_fine_def no_events_idle)
  obtain ps where ps: "snd (telnet_vprintf out (no_events t)) = t\<lparr>tn_events := map EV_SEND ps\<rparr>" "concat ps = nvt_text out"
    "\<forall>p \<in> set ps. length p < 2 ^ 32"
    using vprintf_events [OF f out(1)] by blast
  have k: "no_events (t\<lparr>tn_events := map EV_SEND ps\<rparr>) = t" using e by simp
  have "nvt_text out \<noteq> []" using out(2) by (cases out) (auto simp: nvt_text_def)
  then show ?thesis
    unfolding user_printf_def user_call_def t option.case Let_def ps(1) k set_user_same [OF t]
    using send_events_closed [OF fd ps(3)] ps(2) by simp
qed

lemma message_each_append: "message_each (xs @ ys) out c = and_then (message_each xs out c) (message_each ys out)"
proof (induction xs arbitrary: c)
  case (Cons i xs)
  then show ?case
    by (cases "if user_sock (the_user i c) \<noteq> -1 then user_printf i out c else Go c") simp_all
qed simp

text \<open>
  C37. When a client that has given a name closes its connection, the server ends: the descriptor is
  closed before the farewell is sent to all, the author's slot still counts as connected, and the failed
  write to it makes \<^verbatim>\<open>_send\<close> exit. Only leaving with \<^verbatim>\<open>quit\<close> is survived.
\<close>

theorem disconnect_ends_server:
  assumes inv: "chat_inv c" and acc: "accepting c" and i: "i < MAX_USERS" and name: "user_name (the_user i c) = Some name"
    and sock: "user_sock (the_user i c) \<noteq> -1"
  shows "\<exists>d. chat_read i (Some Closed) c = Exit 1 d"
proof -
  let ?c = "close_sock (user_sock (the_user i c)) c" and ?out = "message_text name (bytes_of ''** HAS DISCONNECTED **'')"
  have but: "chat_inv_but {i} ?c" by (rule chat_inv_close_sock [OF inv i])
  have acc': "accepting ?c" using acc by (simp add: accepting_def)
  have "length name \<le> 32" using user_okD [OF inv i] name by (simp add: user_ok_def)
  then have out: "length ?out < 1024" "?out \<noteq> []" by (simp_all add: message_text_def)
  let ?d = "fold (\<lambda>i. says i (nvt_text ?out)) [0..<i] ?c"
  have before: "message_each [0..<i] ?out ?c = Go ?d"
    by (rule message_each_says [OF but acc' _ out(1)]) (use i in auto)
  have d: "chat_inv_but {i} ?d" using but by simp
  have dom: "dom (chat_socks (fold (\<lambda>i. says i bs) is e)) = dom (chat_socks e)" for bs "is" e
    by (induction "is" arbitrary: e) simp_all
  have "user_telnet (the_user i ?d) \<noteq> None" using user_openD [OF inv i] sock by (simp add: user_open_def)
  then have "user_printf i ?out ?d = Exit 1 ?d"
    using user_printf_closed [OF d i _ _ _ out] sock dom [of "nvt_text ?out" "[0..<i]" ?c] by simp
  moreover have "[0..<MAX_USERS] = [0..<i] @ i # [Suc i..<MAX_USERS]"
    using i by (metis upt_add_eq_append upt_conv_Cons le0 less_imp_add_positive add_0 less_imp_le)
  ultimately have "message name (bytes_of ''** HAS DISCONNECTED **'') ?c = Exit 1 ?d"
    using before sock by (simp add: message_def message_each_append)
  then show ?thesis using name sock by (simp add: chat_read_def disconnect_def)
qed

text \<open>What a line leaves of a user: the position is reset, and the slot is well-formed.\<close>

lemma input_quit:
  assumes inv: "chat_inv c" and acc: "accepting c" and i: "i < MAX_USERS" and p: "user_linepos (the_user i c) = 0"
    and name: "user_name (the_user i c) = Some name" and t: "user_telnet (the_user i c) \<noteq> None"
    and q: "q = bytes_of ''quit''"
  shows "\<exists>d. input_bytes i (q @ [13, 10]) c = Go d \<and> chat_inv d \<and> accepting d \<and>
    user_sock (the_user i d) = -1 \<and> user_name (the_user i d) = None \<and> user_telnet (the_user i d) \<noteq> None \<and>
    user_linepos (the_user i d) = 0 \<and> (\<forall>j < MAX_USERS. j \<noteq> i \<longrightarrow> user_name (the_user j d) = user_name (the_user j c))"
proof -
  have q4: "0 \<notin> set q" "13 \<notin> set q" "length q < LINE_SIZE" by (simp_all add: q LINE_SIZE_def)
  obtain buf where b: "length buf = LINE_SIZE" "input_bytes i (q @ [13, 10]) c =
      and_then (online (q) i (line_state i buf (length q + 1) c)) (\<lambda>c. Go (set_user i (\<lambda>u. u\<lparr>user_linepos := 0\<rparr>) c))"
    using input_line [OF inv i p q4(1-3)] by blast
  let ?c = "line_state i buf (length q + 1) c"
  have "chat_inv ?c"
    by (rule chat_inv_set [OF inv i])
      (use inv i b(1) q4(3) user_okD [OF inv i] user_openD [OF inv i] in \<open>auto simp: user_ok_def intro: user_open_same\<close>)
  then have closed: "chat_inv (set_user i (\<lambda>u. u\<lparr>user_sock := -1\<rparr>) (close_sock (user_sock (the_user i ?c)) ?c))"
    using hung_up_close [OF _ i] by (simp only: hung_up_def)
  let ?d = "set_user i (\<lambda>u. u\<lparr>user_sock := -1\<rparr>) (close_sock (user_sock (the_user i ?c)) ?c)"
  let ?e = "tell (nvt_text (message_text name (bytes_of ''** HAS QUIT **''))) ?d"
  have accd: "accepting ?d" using acc by (simp add: accepting_def)
  have "length name \<le> 32" using user_okD [OF inv i] name by (simp add: user_ok_def)
  then have "message name (bytes_of ''** HAS QUIT **'') ?d = Go ?e"
    by (intro message_tells closed accd) (simp add: message_text_def)
  then have "online (q) i ?c = Go (drop_name i ?e)"
    using name inv i unfolding online_def by (simp add: q)
  then have r: "input_bytes i (q @ [13, 10]) c = Go (set_user i (\<lambda>u. u\<lparr>user_linepos := 0\<rparr>) (drop_name i ?e))"
    unfolding b(2) by (simp only: and_then.simps)
  have "chat_inv (set_user i (\<lambda>u. u\<lparr>user_linepos := 0\<rparr>) (drop_name i ?e))"
    using chat_inv_input [OF inv i, of "q @ [13, 10]"] unfolding r by (simp only: goes.simps)
  then show ?thesis using r accd inv i t by (simp add: drop_name_def)
qed

lemma name_in_use_set:
  assumes "\<And>u. user_name (f u) = user_name u"
  shows "name_in_use line (set_user i f c) = name_in_use line c"
proof -
  have e: "name_in_use line c \<longleftrightarrow> Some line \<in> set (map user_name (chat_users c))" for c
    by (simp add: name_in_use_def list_ex_iff image_iff) metis
  have "map user_name (chat_users (set_user i f c)) = map user_name (chat_users c)"
    using assms by (simp add: set_user_def map_update) (metis list_update_id map_update)
  then show ?thesis by (simp only: e)
qed

lemma input_login:
  assumes inv: "chat_inv c" and acc: "accepting c" and i: "i < MAX_USERS" and p: "user_linepos (the_user i c) = 0"
    and name: "user_name (the_user i c) = None" and t: "user_telnet (the_user i c) \<noteq> None"
    and line: "0 \<notin> set line" "13 \<notin> set line" "line \<noteq> []" "length line \<le> 32" "\<not> name_in_use line c"
  shows "\<exists>d. input_bytes i (line @ [13, 10]) c = Go d \<and> chat_inv d \<and> accepting d \<and>
    user_name (the_user i d) = Some line \<and> user_sock (the_user i d) = user_sock (the_user i c) \<and>
    user_telnet (the_user i d) = user_telnet (the_user i c)"
proof -
  obtain buf where b: "length buf = LINE_SIZE" "input_bytes i (line @ [13, 10]) c =
      and_then (online line i (line_state i buf (length line + 1) c)) (\<lambda>c. Go (set_user i (\<lambda>u. u\<lparr>user_linepos := 0\<rparr>) c))"
    using input_line [OF inv i p line(1,2)] line(4) by (auto simp: LINE_SIZE_def)
  let ?c = "line_state i buf (length line + 1) c" and ?out = "bytes_of ''Welcome, '' @ line @ bytes_of ''!'' @ [10]"
  let ?d = "set_user i (\<lambda>u. u\<lparr>user_name := Some line\<rparr>) ?c"
  have c: "chat_inv ?c"
    by (rule chat_inv_set [OF inv i])
      (use inv i b(1) line(4) user_okD [OF inv i] user_openD [OF inv i] in \<open>auto simp: user_ok_def LINE_SIZE_def intro: user_open_same\<close>)
  have free: "\<not> name_in_use line ?c" using line(5) name_in_use_set [of "\<lambda>u. u\<lparr>user_linebuf := buf, user_linepos := length line + 1\<rparr>"] by simp
  have d: "chat_inv ?d"
    by (rule chat_inv_set [OF c i])
      (use free line inv i user_okD [OF c i] user_openD [OF c i] in \<open>auto simp: user_ok_def user_open_def\<close>)
  have "user_printf i ?out ?d = Go (says i (nvt_text ?out) ?d)"
    by (rule user_printf_says [OF d]) (use acc i line(4) t inv in simp_all)
  then have "online line i ?c = Go (says i (nvt_text ?out) ?d)"
    using name free line(3,4) inv i unfolding online_def by simp
  then have r: "input_bytes i (line @ [13, 10]) c = Go (set_user i (\<lambda>u. u\<lparr>user_linepos := 0\<rparr>) (says i (nvt_text ?out) ?d))"
    unfolding b(2) by (simp only: and_then.simps)
  have "chat_inv (set_user i (\<lambda>u. u\<lparr>user_linepos := 0\<rparr>) (says i (nvt_text ?out) ?d))"
    using chat_inv_input [OF inv i, of "line @ [13, 10]"] unfolding r by (simp only: goes.simps)
  then show ?thesis using r acc inv i by simp
qed

text \<open>What a new connection finds in its slot.\<close>

lemma frame_name: "chat_frame c d \<Longrightarrow> i < length (chat_users c) \<Longrightarrow>
   user_name (the_user i d) = user_name (the_user i c) \<and> user_sock (the_user i d) = user_sock (the_user i c)"
  by (simp add: chat_frame_def same_user_def)

lemma accept_keeps_name:
  assumes inv: "chat_inv c" and i: "free_slot (chat_users c) < MAX_USERS" "i = free_slot (chat_users c)"
    and go: "chat_accept fd sock allocs serr c = Go d"
  shows "user_sock (the_user i d) = fd \<and> user_name (the_user i d) = user_name (the_user i c)"
proof -
  let ?c = "set_user i (\<lambda>u. u\<lparr>user_sock := fd, user_telnet := telnet_init (Some chat_telopts) 0 allocs serr\<rparr>)
    (c\<lparr>chat_socks := (chat_socks c)(fd \<mapsto> sock)\<rparr>)"
  have "goes (chat_frame ?c) (chat_accept fd sock allocs serr c)"
    unfolding chat_accept_def Let_def using i
    by (auto intro!: chat_frame_then chat_frame_negotiate chat_frame_printf)
  then have "chat_frame ?c d" using go by simp
  then show ?thesis using frame_name [of ?c d i] inv i by simp
qed

text \<open>
  A client can leave a name behind: after \<^verbatim>\<open>quit\<close>, the rest of the same received buffer is still taken
  as input of the slot, and a further line becomes its name although nobody is connected. Whoever is
  given the slot next is logged in under that name without having been asked.
\<close>

theorem quit_leaves_name:
  assumes inv: "chat_inv c" and acc: "accepting c" and i: "i < MAX_USERS" and name: "user_name (the_user i c) = Some name"
    and t: "user_telnet (the_user i c) = Some t" "tn_state t = STATE_DATA" and p: "user_linepos (the_user i c) = 0"
    and line: "0 \<notin> set line" "13 \<notin> set line" "TELNET_IAC \<notin> set line" "line \<noteq> []" "length line \<le> 32" "\<not> name_in_use line c"
  shows "\<exists>d. chat_recv i (bytes_of ''quit'' @ [13, 10] @ line @ [13, 10]) c = Go d \<and>
    user_sock (the_user i d) = -1 \<and> user_name (the_user i d) = Some line \<and>
    (free_slot (chat_users d) = i \<longrightarrow> (\<forall>fd sock allocs serr e. chat_accept fd sock allocs serr d = Go e \<longrightarrow>
       user_sock (the_user i e) = fd \<and> user_name (the_user i e) = Some line))"
proof -
  let ?buf = "(bytes_of ''quit'' @ [13, 10]) @ line @ [13, 10]"
  obtain q where q: "input_bytes i (bytes_of ''quit'' @ [13, 10]) c = Go q" "chat_inv q" "accepting q" "user_sock (the_user i q) = -1"
    "user_name (the_user i q) = None" "user_telnet (the_user i q) \<noteq> None" "user_linepos (the_user i q) = 0"
    "\<forall>j < MAX_USERS. j \<noteq> i \<longrightarrow> user_name (the_user j q) = user_name (the_user j c)"
    using input_quit [OF inv acc i p name _ refl] t(1) by auto
  have "\<not> name_in_use line q"
  proof
    assume "name_in_use line q"
    then obtain j where j: "j < MAX_USERS" "user_name (the_user j q) = Some line"
      using q(2) by (auto simp: name_in_use_def list_ex_iff in_set_conv_nth)
    then have "user_name (the_user j c) = Some line" using q(5,8) by (cases "j = i") auto
    then show False using line(6) inv j(1) nth_mem [of j "chat_users c"] by (auto simp: name_in_use_def list_ex_iff)
  qed
  then obtain d where d: "input_bytes i (line @ [13, 10]) q = Go d" "chat_inv d" "accepting d" "user_name (the_user i d) = Some line"
    "user_sock (the_user i d) = -1" "user_telnet (the_user i d) \<noteq> None"
    using input_login [OF q(2,3) i q(7,5,6) line(1,2,4,5)] q(4,6) by auto
  have inp: "input_bytes i ?buf c = Go d" unfolding input_bytes_append [of i "bytes_of ''quit'' @ [13, 10]"] q(1) using d(1) by simp
  obtain bs u where e: "and_then (user_call i (telnet_negotiate TELNET_WONT TELNET_TELOPT_ECHO) d)
      (user_call i (telnet_negotiate TELNET_WILL TELNET_TELOPT_ECHO)) = Go (says i bs (set_user i (\<lambda>v. v\<lparr>user_telnet := Some u\<rparr>) d))"
    using echo_says [OF d(2,3) i d(6)] by blast
  let ?d = "says i bs (set_user i (\<lambda>v. v\<lparr>user_telnet := Some u\<rparr>) d)"
  have r: "chat_recv i ?buf c = Go ?d"
    using chat_recv_data [OF inv i t, of ?buf] line(3,5) inp e by simp
  have inv': "chat_inv ?d" using chat_inv_recv [OF inv i, of ?buf] unfolding r by (simp only: goes.simps)
  have s: "user_sock (the_user i ?d) = -1" "user_name (the_user i ?d) = Some line" using d(2,4,5) i by simp_all
  then show ?thesis using r accept_keeps_name [OF inv', of i] i by auto
qed


theorem disconnect_ends_server_witness: "\<exists>d. chat_read 0 (Some Closed) one_user = Exit 1 d"
  using disconnect_ends_server [of one_user 0 "[97]"] chat_inv_one_user by (simp add: MAX_USERS_def)

theorem quit_leaves_name_witness:
  "\<exists>d. chat_recv 0 (bytes_of ''quit'' @ [13, 10] @ [98] @ [13, 10]) one_user = Go d \<and>
    user_sock (the_user 0 d) = -1 \<and> user_name (the_user 0 d) = Some [98]"
proof -
  have "\<not> name_in_use [98] one_user"
    by (simp add: name_in_use_def one_user_def chat_init_def set_user_def MAX_USERS_def no_user_def numeral_eq_Suc)
  then show ?thesis
    using quit_leaves_name [of one_user 0 "[97]" fresh "[98]"] chat_inv_one_user by (auto simp: MAX_USERS_def no_user_def)
qed

lemma free_slot_full: "list_all (\<lambda>u. user_sock u \<noteq> -1) us \<Longrightarrow> free_slot us = length us"
  by (induction us) auto

text \<open>
  With all 64 slots taken a further connection is turned away, but the code does not stop there: it
  goes on to fill slot 64, which is outside the array.
\<close>

theorem full_table_overrun:
  assumes "length (chat_users c) = MAX_USERS" and "list_all (\<lambda>u. user_sock u \<noteq> -1) (chat_users c)"
    and "sock_answers sock = []"
  shows "chat_accept fd sock allocs serr c = Undefined"
  using assms free_slot_full [of "chat_users c"]
  by (cases "fd = -1") (simp_all add: chat_accept_def chat_send_def sock_send_all Let_def)

theorem full_table_overrun_witness:
  "chat_accept 4 \<lparr>sock_out = [], sock_answers = []\<rparr> [] ''''
     \<lparr>chat_users = replicate MAX_USERS (no_user\<lparr>user_sock := 3\<rparr>), chat_socks = (\<lambda>_. None)\<rparr> = Undefined"
  using full_table_overrun [of "\<lparr>chat_users = replicate MAX_USERS (no_user\<lparr>user_sock := 3\<rparr>), chat_socks = (\<lambda>_. None)\<rparr>"]
  by (simp add: list_all_length)

end
