(* ===== verification/Serval_Buffer.thy ===== *)
theory Serval_Buffer
  imports Prelude
begin

unbundle bit_operations_syntax

text \<open>
  The packet buffer of the mesh daemon, \<^verbatim>\<open>servald/serval-dna-development/overlay_buffer.c\<close>: a block of bytes with a
  position, a limit and a checkpoint, which grows on writing when it owns its block, and counts on
  past the end (an overrun) when it cannot. Sizes are \<^verbatim>\<open>size_t\<close> values as numbers, with the wrap-around of
  additions written out. \<open>None\<close> is a failed assertion or an access outside the block. A returned pointer is its
  offset in the block. \<open>ob_allocs\<close> lists the outcomes of coming allocations (when used up, they succeed).
\<close>

section \<open>State\<close>

type_synonym uint16 = "16 word"
type_synonym uint32 = "32 word"
type_synonym uint64 = "64 word"

definition SIZE_MAX :: nat where
  "SIZE_MAX = 2 ^ 64 - 1"

definition add_size :: "nat \<Rightarrow> nat \<Rightarrow> nat" where
  "add_size a b = (a + b) mod 2 ^ 64"

record overlay_buffer =
  ob_bytes :: "byte list option"
  checkpointLength :: nat
  ob_position :: nat
  sizeLimit :: nat
  allocSize :: nat
  allocated :: bool
  ob_allocs :: "bool list"

definition emalloc :: "overlay_buffer \<Rightarrow> bool \<times> overlay_buffer" where
  "emalloc b = (case ob_allocs b of [] \<Rightarrow> (True, b) | ok # oks \<Rightarrow> (ok, b\<lparr>ob_allocs := oks\<rparr>))"

text \<open>
  A new buffer has no block yet; a static one works on a block it is given and cannot grow. Here \<open>None\<close> is the null pointer
  returned when there is no memory.
\<close>

definition ob_new :: "bool list \<Rightarrow> overlay_buffer option" where
  "ob_new oks =
     (case oks of False # _ \<Rightarrow> None
      | _ \<Rightarrow> Some \<lparr>ob_bytes = None, checkpointLength = 0, ob_position = 0, sizeLimit = SIZE_MAX, allocSize = 0,
               allocated = False, ob_allocs = tl oks\<rparr>)"

definition ob_static :: "byte list \<Rightarrow> bool list \<Rightarrow> overlay_buffer option" where
  "ob_static bs oks =
     (case oks of False # _ \<Rightarrow> None
      | _ \<Rightarrow> Some \<lparr>ob_bytes = Some bs, checkpointLength = 0, ob_position = 0, sizeLimit = SIZE_MAX,
               allocSize = length bs, allocated = False, ob_allocs = tl oks\<rparr>)"

section \<open>Position and limit\<close>

definition ob_checkpoint :: "overlay_buffer \<Rightarrow> overlay_buffer" where
  "ob_checkpoint b = b\<lparr>checkpointLength := ob_position b\<rparr>"

definition ob_rewind :: "overlay_buffer \<Rightarrow> overlay_buffer" where
  "ob_rewind b = b\<lparr>ob_position := checkpointLength b\<rparr>"

definition ob_limitsize :: "nat \<Rightarrow> overlay_buffer \<Rightarrow> overlay_buffer option" where
  "ob_limitsize n b =
     (if n \<noteq> SIZE_MAX \<and> ob_position b \<le> n \<and> checkpointLength b \<le> n \<and>
         (ob_bytes b \<noteq> None \<and> \<not> allocated b \<longrightarrow> n \<le> allocSize b)
      then Some (b\<lparr>sizeLimit := n\<rparr>) else None)"

definition ob_unlimitsize :: "overlay_buffer \<Rightarrow> overlay_buffer" where
  "ob_unlimitsize b = b\<lparr>sizeLimit := SIZE_MAX\<rparr>"

definition ob_flip :: "overlay_buffer \<Rightarrow> overlay_buffer option" where
  "ob_flip b = map_option (\<lambda>b. b\<lparr>ob_position := 0\<rparr>) (ob_limitsize (ob_position b) (b\<lparr>checkpointLength := 0\<rparr>))"

definition ob_clear :: "overlay_buffer \<Rightarrow> overlay_buffer" where
  "ob_clear b = ob_unlimitsize (b\<lparr>checkpointLength := 0, ob_position := 0\<rparr>)"

definition ob_remaining :: "overlay_buffer \<Rightarrow> nat option" where
  "ob_remaining b = (if sizeLimit b \<noteq> SIZE_MAX \<and> ob_position b \<le> sizeLimit b then Some (sizeLimit b - ob_position b) else None)"

definition ob_overrun :: "overlay_buffer \<Rightarrow> bool" where
  "ob_overrun b \<longleftrightarrow> ob_position b >
     (if sizeLimit b \<noteq> SIZE_MAX \<and> sizeLimit b < allocSize b then sizeLimit b else allocSize b)"

section \<open>Space\<close>

definition round_up :: "nat \<Rightarrow> nat \<Rightarrow> nat" where
  "round_up n unit = (if n mod unit \<noteq> 0 then add_size n (unit - n mod unit) else n)"

definition new_size :: "nat \<Rightarrow> nat" where
  "new_size n =
     (let n1 = (if n < 64 then 64 else n);
          n2 = round_up n1 64;
          n3 = (if n2 > 1024 then round_up n2 1024 else n2)
      in if n3 > 65536 then round_up n3 65536 else n3)"

text \<open>
  \<^verbatim>\<open>ob_makespace\<close>. The old contents up to the position are copied to the new block, whose other bytes are
  zeros here; a position past the old block would be read outside of it.
\<close>

definition ob_makespace :: "nat \<Rightarrow> overlay_buffer \<Rightarrow> (bool \<times> overlay_buffer) option" where
  "ob_makespace n b =
     (if ob_position b \<noteq> 0 \<and> ob_bytes b = None then None
      else if add_size (ob_position b) n > sizeLimit b then Some (False, b)
      else if add_size (ob_position b) n \<le> allocSize b then Some (True, b)
      else if ob_bytes b \<noteq> None \<and> \<not> allocated b then Some (False, b)
      else
        (let size = new_size (add_size (ob_position b) n);
             (ok, b1) = emalloc b;
             old = (case ob_bytes b of None \<Rightarrow> [] | Some m \<Rightarrow> m)
         in if \<not> ok then Some (False, b1)
            else if ob_position b > length old then None
            else Some (True, b1\<lparr>ob_bytes := Some (take (ob_position b) old @ replicate (size - ob_position b) 0),
                                allocated := True, allocSize := size\<rparr>)))"

definition store :: "nat \<Rightarrow> byte list \<Rightarrow> byte list \<Rightarrow> byte list option" where
  "store at bs m = (if at + length bs \<le> length m then Some (take at m @ bs @ drop (at + length bs) m) else None)"

text \<open>What every append does: make space, write if there is some, and advance in any case.\<close>

definition ob_write :: "byte list \<Rightarrow> overlay_buffer \<Rightarrow> overlay_buffer option" where
  "ob_write bs b =
     (case ob_makespace (length bs) b of
        None \<Rightarrow> None
      | Some (space, b1) \<Rightarrow>
          map_option (\<lambda>m. b1\<lparr>ob_bytes := m, ob_position := add_size (ob_position b1) (length bs)\<rparr>)
            (if space then (case ob_bytes b1 of None \<Rightarrow> None | Some m \<Rightarrow> map_option Some (store (ob_position b1) bs m))
             else Some (ob_bytes b1)))"

definition ob_append_byte :: "byte \<Rightarrow> overlay_buffer \<Rightarrow> overlay_buffer option" where
  "ob_append_byte v = ob_write [v]"

definition ob_append_space :: "nat \<Rightarrow> overlay_buffer \<Rightarrow> (nat option \<times> overlay_buffer) option" where
  "ob_append_space count b =
     (if count = 0 then None
      else map_option (\<lambda>(space, b1). (if space then Some (ob_position b1) else None,
             b1\<lparr>ob_position := add_size (ob_position b1) count\<rparr>)) (ob_makespace count b))"

definition ob_append_bytes :: "byte list \<Rightarrow> overlay_buffer \<Rightarrow> overlay_buffer option" where
  "ob_append_bytes bs b = (if bs = [] then None else ob_write bs b)"

text \<open>A string argument is its characters without the NUL.\<close>

definition ob_append_str :: "byte list \<Rightarrow> overlay_buffer \<Rightarrow> overlay_buffer option" where
  "ob_append_str str = ob_append_bytes (str @ [0])"

definition ob_append_strn :: "byte list \<Rightarrow> nat \<Rightarrow> overlay_buffer \<Rightarrow> overlay_buffer option" where
  "ob_append_strn str max_len b = Option.bind (ob_append_bytes (take max_len str) b) (ob_append_byte 0)"

definition be_bytes :: "nat \<Rightarrow> ('a :: len) word \<Rightarrow> byte list" where
  "be_bytes n v = map (\<lambda>i. ucast (drop_bit (8 * (n - 1 - i)) v)) [0..<n]"

definition le_bytes :: "nat \<Rightarrow> ('a :: len) word \<Rightarrow> byte list" where
  "le_bytes n v = map (\<lambda>i. ucast (drop_bit (8 * i) v)) [0..<n]"

definition ob_append_ui16 :: "uint16 \<Rightarrow> overlay_buffer \<Rightarrow> overlay_buffer option" where
  "ob_append_ui16 v = ob_write (be_bytes 2 v)"

definition ob_append_ui16_rv :: "uint16 \<Rightarrow> overlay_buffer \<Rightarrow> overlay_buffer option" where
  "ob_append_ui16_rv v = ob_write (le_bytes 2 v)"

definition ob_append_ui32 :: "uint32 \<Rightarrow> overlay_buffer \<Rightarrow> overlay_buffer option" where
  "ob_append_ui32 v = ob_write (be_bytes 4 v)"

definition ob_append_ui32_rv :: "uint32 \<Rightarrow> overlay_buffer \<Rightarrow> overlay_buffer option" where
  "ob_append_ui32_rv v = ob_write (le_bytes 4 v)"

definition ob_append_ui64 :: "uint64 \<Rightarrow> overlay_buffer \<Rightarrow> overlay_buffer option" where
  "ob_append_ui64 v = ob_write (be_bytes 8 v)"

definition ob_append_ui64_rv :: "uint64 \<Rightarrow> overlay_buffer \<Rightarrow> overlay_buffer option" where
  "ob_append_ui64_rv v = ob_write (le_bytes 8 v)"

section \<open>Packed integers\<close>

text \<open>Seven bits a byte, the lowest first; the top bit says that more follow.\<close>

definition packed_byte :: "('a :: len) word \<Rightarrow> byte" where
  "packed_byte v = (ucast v AND 0x7F) OR (if v > 0x7F then 0x80 else 0)"

lemma drop_7_less: "v \<noteq> 0 \<Longrightarrow> unat (drop_bit 7 v) < unat (v :: ('a :: len) word)"
  by (simp only: unat_drop_bit_eq) (simp add: drop_bit_eq_div unat_gt_0)

function packed_bytes :: "('a :: len) word \<Rightarrow> byte list" where
  "packed_bytes v = packed_byte v # (if drop_bit 7 v = 0 then [] else packed_bytes (drop_bit 7 v))"
  by pat_completeness auto
termination
  by (relation "measure unat") (auto intro!: drop_7_less)

declare packed_bytes.simps [simp del]

function measure_packed_uint :: "uint64 \<Rightarrow> nat" where
  "measure_packed_uint v = 1 + (if drop_bit 7 v = 0 then 0 else measure_packed_uint (drop_bit 7 v))"
  by pat_completeness auto
termination
  by (relation "measure unat") (auto intro!: drop_7_less)

declare measure_packed_uint.simps [simp del]

definition pack_uint :: "uint64 \<Rightarrow> byte list" where
  "pack_uint v = packed_bytes v"

text \<open>
  The seven bits of a byte are shifted as an \<^verbatim>\<open>int\<close>: 32 bits, sign-extended into the wider result; a shift by
  32 or more is undefined.
\<close>

definition shift_int :: "byte \<Rightarrow> nat \<Rightarrow> ('a :: len) word option" where
  "shift_int v shift = (if shift < 32 then Some (scast (push_bit shift (ucast (v AND 0x7F) :: 32 word))) else None)"

fun unpack_from :: "byte list \<Rightarrow> nat \<Rightarrow> ('a :: len) word \<Rightarrow> (nat \<times> 'a word) option option" where
  "unpack_from [] i v = Some None"
| "unpack_from (c # cs) i v =
     (case shift_int c (7 * i) of
        None \<Rightarrow> None
      | Some d \<Rightarrow> if c AND 0x80 = 0 then Some (Some (i + 1, v OR d)) else unpack_from cs (i + 1) (v OR d))"

text \<open>\<open>Some None\<close> is the result -1 for a number that does not end within the buffer.\<close>

definition unpack_uint :: "byte list \<Rightarrow> (nat \<times> uint64) option option" where
  "unpack_uint buf = unpack_from buf 0 0"

fun ob_append_all :: "byte list \<Rightarrow> overlay_buffer \<Rightarrow> overlay_buffer option" where
  "ob_append_all [] b = Some b"
| "ob_append_all (c # cs) b = Option.bind (ob_append_byte c b) (ob_append_all cs)"

definition ob_append_packed_ui32 :: "uint32 \<Rightarrow> overlay_buffer \<Rightarrow> overlay_buffer option" where
  "ob_append_packed_ui32 v = ob_append_all (packed_bytes v)"

definition ob_append_packed_ui64 :: "uint64 \<Rightarrow> overlay_buffer \<Rightarrow> overlay_buffer option" where
  "ob_append_packed_ui64 v = ob_append_all (packed_bytes v)"

section \<open>Reading\<close>

definition test_offset :: "overlay_buffer \<Rightarrow> nat \<Rightarrow> bool" where
  "test_offset b len \<longleftrightarrow> add_size (ob_position b) len \<le> sizeLimit b \<and> add_size (ob_position b) len \<le> allocSize b"

text \<open>Bytes of the block; \<open>None\<close> outside of it or without one.\<close>

definition fetch :: "nat \<Rightarrow> nat \<Rightarrow> overlay_buffer \<Rightarrow> byte list option" where
  "fetch at n b = (case ob_bytes b of None \<Rightarrow> None
     | Some m \<Rightarrow> if at + n \<le> length m then Some (take n (drop at m)) else None)"

definition ob_peek :: "overlay_buffer \<Rightarrow> int option" where
  "ob_peek b = (if \<not> test_offset b 1 then Some (-1) else map_option (\<lambda>bs. uint (hd bs)) (fetch (ob_position b) 1 b))"

definition ob_get :: "overlay_buffer \<Rightarrow> (int \<times> overlay_buffer) option" where
  "ob_get b = (if \<not> test_offset b 1 then Some (-1, b)
     else map_option (\<lambda>bs. (uint (hd bs), b\<lparr>ob_position := ob_position b + 1\<rparr>)) (fetch (ob_position b) 1 b))"

definition ob_skip :: "uint32 \<Rightarrow> overlay_buffer \<Rightarrow> overlay_buffer" where
  "ob_skip n b = b\<lparr>ob_position := add_size (ob_position b) (unat n)\<rparr>"

text \<open>A fixed number of bytes; without them the result is \<open>err\<close> and the position stays.\<close>

definition ob_take :: "nat \<Rightarrow> 'a \<Rightarrow> (byte list \<Rightarrow> 'a) \<Rightarrow> overlay_buffer \<Rightarrow> ('a \<times> overlay_buffer) option" where
  "ob_take n err f b = (if \<not> test_offset b n then Some (err, b)
     else map_option (\<lambda>bs. (f bs, b\<lparr>ob_position := add_size (ob_position b) n\<rparr>)) (fetch (ob_position b) n b))"

definition ob_get_bytes :: "nat \<Rightarrow> overlay_buffer \<Rightarrow> (byte list option \<times> overlay_buffer) option" where
  "ob_get_bytes n = ob_take n None Some"

definition ob_get_bytes_ptr :: "nat \<Rightarrow> overlay_buffer \<Rightarrow> nat option \<times> overlay_buffer" where
  "ob_get_bytes_ptr n b = (if \<not> test_offset b n then (None, b)
     else (Some (ob_position b), b\<lparr>ob_position := add_size (ob_position b) n\<rparr>))"

text \<open>Bytes put together, the most or the least significant first.\<close>

definition be_word :: "byte list \<Rightarrow> ('a :: len) word" where
  "be_word bs = foldl (\<lambda>w c. push_bit 8 w OR ucast c) 0 bs"

definition le_word :: "byte list \<Rightarrow> ('a :: len) word" where
  "le_word bs = foldr (\<lambda>c w. push_bit 8 w OR ucast c) bs 0"

definition ob_get_ui16 :: "overlay_buffer \<Rightarrow> (uint16 \<times> overlay_buffer) option" where
  "ob_get_ui16 = ob_take 2 0xFFFF be_word"

definition ob_get_ui16_rv :: "overlay_buffer \<Rightarrow> (uint16 \<times> overlay_buffer) option" where
  "ob_get_ui16_rv = ob_take 2 0xFFFF le_word"

definition ob_get_ui32 :: "overlay_buffer \<Rightarrow> (uint32 \<times> overlay_buffer) option" where
  "ob_get_ui32 = ob_take 4 0xFFFFFFFF be_word"

definition ob_get_ui32_rv :: "overlay_buffer \<Rightarrow> (uint32 \<times> overlay_buffer) option" where
  "ob_get_ui32_rv = ob_take 4 0xFFFFFFFF le_word"

text \<open>
  \<^verbatim>\<open>ob_get_ui64\<close> as it is written: the fourth byte is shifted by 36, and the last four are combined as an
  \<^verbatim>\<open>int\<close>, which is sign-extended.
\<close>

definition ui64_word :: "byte list \<Rightarrow> uint64" where
  "ui64_word bs = push_bit 56 (ucast (bs ! 0)) OR push_bit 48 (ucast (bs ! 1)) OR push_bit 40 (ucast (bs ! 2)) OR
     push_bit 36 (ucast (bs ! 3)) OR scast (push_bit 24 (ucast (bs ! 4)) :: 32 word) OR
     scast (push_bit 16 (ucast (bs ! 5)) :: 32 word) OR scast (push_bit 8 (ucast (bs ! 6)) :: 32 word) OR ucast (bs ! 7)"

definition ob_get_ui64 :: "overlay_buffer \<Rightarrow> (uint64 \<times> overlay_buffer) option" where
  "ob_get_ui64 = ob_take 8 0xFFFFFFFF ui64_word"

definition ob_get_ui64_rv :: "overlay_buffer \<Rightarrow> (uint64 \<times> overlay_buffer) option" where
  "ob_get_ui64_rv = ob_take 8 0xFFFFFFFF le_word"

text \<open>
  Reading a packed number byte by byte; at the end of the data the result is -1. The loop ends because
  every turn advances the position, up to the end of the block.
\<close>

function get_packed :: "nat \<Rightarrow> ('a :: len) word \<Rightarrow> overlay_buffer \<Rightarrow> ('a word \<times> overlay_buffer) option" where
  "get_packed i v b =
     (case ob_get b of
        None \<Rightarrow> None
      | Some (c, b1) \<Rightarrow>
          if c < 0 then Some (- 1, b1)
          else (case shift_int (of_int c) (7 * i) of
             None \<Rightarrow> None
           | Some d \<Rightarrow> if (of_int c :: byte) AND 0x80 = 0 then Some (v OR d, b1) else get_packed (i + 1) (v OR d) b1))"
  by pat_completeness auto
termination
proof (relation "measure (\<lambda>(i, v, b). case ob_bytes b of None \<Rightarrow> 0 | Some m \<Rightarrow> length m - ob_position b)", goal_cases)
  case 1
  show ?case by simp
next
  case (2 i v b x c b1 d)
  then show ?case by (auto simp: ob_get_def fetch_def split: if_splits option.splits)
qed

declare get_packed.simps [simp del]

definition ob_get_packed_ui32 :: "overlay_buffer \<Rightarrow> (uint32 \<times> overlay_buffer) option" where
  "ob_get_packed_ui32 = get_packed 0 0"

definition ob_get_packed_ui64 :: "overlay_buffer \<Rightarrow> (uint64 \<times> overlay_buffer) option" where
  "ob_get_packed_ui64 = get_packed 0 0"

text \<open>
  A string up to its NUL. The test before each read is for the bytes before it, so the search goes one
  byte too far.
\<close>

function str_search :: "nat \<Rightarrow> overlay_buffer \<Rightarrow> nat option option" where
  "str_search ofs b =
     (if \<not> test_offset b ofs then Some None
      else (case fetch (ob_position b + ofs) 1 b of
              None \<Rightarrow> None
            | Some cs \<Rightarrow> if hd cs = 0 then Some (Some ofs) else str_search (ofs + 1) b))"
  by pat_completeness auto
termination
proof (relation "measure (\<lambda>(ofs, b). case ob_bytes b of None \<Rightarrow> 0 | Some m \<Rightarrow> length m - (ob_position b + ofs))", goal_cases)
  case 1
  show ?case by simp
next
  case (2 ofs b cs)
  then show ?case by (auto simp: fetch_def split: if_splits option.splits)
qed

declare str_search.simps [simp del]

definition ob_get_str_ptr :: "overlay_buffer \<Rightarrow> (nat option \<times> overlay_buffer) option" where
  "ob_get_str_ptr b = map_option (\<lambda>r. case r of None \<Rightarrow> (None, b)
       | Some ofs \<Rightarrow> (Some (ob_position b), b\<lparr>ob_position := add_size (ob_position b) (ofs + 1)\<rparr>)) (str_search 0 b)"

section \<open>Writing in place\<close>

definition ob_set_bytes :: "nat \<Rightarrow> byte list \<Rightarrow> overlay_buffer \<Rightarrow> overlay_buffer option" where
  "ob_set_bytes offset bs b =
     (if add_size offset (length bs) \<le> sizeLimit b \<and> add_size offset (length bs) \<le> allocSize b
      then (case ob_bytes b of None \<Rightarrow> None | Some m \<Rightarrow> map_option (\<lambda>m. b\<lparr>ob_bytes := Some m\<rparr>) (store offset bs m))
      else None)"

definition ob_set_ui16 :: "nat \<Rightarrow> uint16 \<Rightarrow> overlay_buffer \<Rightarrow> overlay_buffer option" where
  "ob_set_ui16 offset v = ob_set_bytes offset (be_bytes 2 v)"

definition ob_set :: "nat \<Rightarrow> byte \<Rightarrow> overlay_buffer \<Rightarrow> overlay_buffer option" where
  "ob_set offset v = ob_set_bytes offset [v]"

text \<open>A copy with a block of its own.\<close>

definition ob_dup :: "overlay_buffer \<Rightarrow> overlay_buffer option option" where
  "ob_dup b =
     (let (ok, b1) = emalloc b;
          new = \<lparr>ob_bytes = None, checkpointLength = checkpointLength b, ob_position = ob_position b, sizeLimit = sizeLimit b,
                 allocSize = 0, allocated = False, ob_allocs = ob_allocs b1\<rparr>
      in if \<not> ok then Some None
         else case ob_bytes b of
           None \<Rightarrow> Some (Some new)
         | Some m \<Rightarrow>
             if allocSize b = 0 then Some (Some new)
             else if sizeLimit b \<noteq> SIZE_MAX \<and> ob_position b > sizeLimit b then None
             else
               (let n = min (if sizeLimit b \<noteq> SIZE_MAX then sizeLimit b else ob_position b) (allocSize b)
                in if n = 0 then Some (Some new) else map_option Some (ob_append_bytes (take n m) new)))"

end
