(* ===== verification/Serval_Number.thy ===== *)
theory Serval_Number
  imports Serval_Buffer
begin

unbundle bit_operations_syntax

text \<open>
  Numbers as the packet buffer writes and reads them: fixed width in both byte orders, and packed with seven
  bits a byte. For each of them, which numbers come back as they were written.
\<close>

section \<open>Numbers as bytes\<close>

lemma le_bytes_Suc: "le_bytes (Suc n) v = ucast v # le_bytes n (drop_bit 8 v)"
  by (simp add: le_bytes_def map_upt_Suc add.commute del: upt_Suc)

lemma le_word_bytes: "le_word (le_bytes n v) = take_bit (8 * n) (v :: ('a :: len) word)"
proof (induction n arbitrary: v)
  case 0
  show ?case by (simp add: le_bytes_def le_word_def)
next
  case (Suc n)
  have "le_word (le_bytes (Suc n) v) = push_bit 8 (le_word (le_bytes n (drop_bit 8 v))) OR ucast (ucast v :: byte)"
    by (simp add: le_bytes_Suc le_word_def)
  also have "\<dots> = take_bit (8 * Suc n) v"
    unfolding Suc.IH by (rule bit_word_eqI) (auto simp: bit_simps)
  finally show ?case .
qed

lemma be_bytes_rev: "be_bytes n v = rev (le_bytes n v)"
  by (rule nth_equalityI) (auto simp: be_bytes_def le_bytes_def rev_nth)

lemma be_word_rev: "be_word bs = le_word (rev bs)"
  by (simp add: be_word_def le_word_def foldr_conv_foldl)

lemma word_bytes:
  "be_word (be_bytes 2 v16) = (v16 :: 16 word)" "le_word (le_bytes 2 v16) = v16"
  "be_word (be_bytes 4 v32) = (v32 :: 32 word)" "le_word (le_bytes 4 v32) = v32" "le_word (le_bytes 8 v64) = (v64 :: 64 word)"
  by (simp_all add: be_bytes_rev be_word_rev le_word_bytes take_bit_word_eq_self)

lemma length_bytes [simp]: "length (be_bytes n v) = n" "length (le_bytes n v) = n"
  by (simp_all add: be_bytes_def le_bytes_def)

text \<open>
  \<^verbatim>\<open>ob_get_ui64\<close> gives back exactly the numbers in which the misplaced byte is zero and the low half is not
  negative, and those that are all ones above it.
\<close>

definition ui64_fits :: "uint64 \<Rightarrow> bool" where
  "ui64_fits v \<longleftrightarrow> (if bit v 31 then drop_bit 32 v = mask 32 else take_bit 8 (drop_bit 32 v) = 0)"

lemma be_bytes_nth: "i < n \<Longrightarrow> be_bytes n v ! i = ucast (drop_bit (8 * (n - 1 - i)) v)"
  by (simp add: be_bytes_def)

lemma bit_byte_at:
  "bit (push_bit k (ucast (ucast (drop_bit j v) :: byte)) :: uint64) n \<longleftrightarrow> k \<le> n \<and> n < 64 \<and> n < k + 8 \<and> bit v (j + (n - k))"
  by (auto simp: bit_simps)

lemma bit_int_at:
  assumes "k \<le> 24"
  shows "bit (scast (push_bit k (ucast (ucast (drop_bit j v) :: byte)) :: 32 word) :: uint64) n \<longleftrightarrow>
    k \<le> n \<and> n < k + 8 \<and> bit v (j + (n - k)) \<or> k = 24 \<and> 32 \<le> n \<and> n < 64 \<and> bit v (j + 7)"
proof (cases "n < 32")
  case True
  then show ?thesis using assms by (auto simp: bit_simps)
next
  case False
  then show ?thesis using assms by (cases "k = 24") (auto simp: bit_simps)
qed

lemma bit_low_byte: "bit (ucast (ucast v :: byte) :: uint64) n \<longleftrightarrow> n < 8 \<and> bit v n"
  by (auto simp: bit_simps)

lemma bit_ui64_word:
  fixes v :: uint64
  shows "bit (ui64_word (be_bytes 8 v)) n \<longleftrightarrow> n < 64 \<and>
     (bit v n \<and> (n < 32 \<or> 40 \<le> n) \<or> bit v (n - 4) \<and> 36 \<le> n \<and> n < 44 \<or> bit v 31 \<and> 32 \<le> n)"
proof -
  let ?b = "\<lambda>k (j :: nat). push_bit k (ucast (ucast (drop_bit j v) :: byte)) :: uint64"
  let ?i = "\<lambda>k (j :: nat). scast (push_bit k (ucast (ucast (drop_bit j v) :: byte)) :: 32 word) :: uint64"
  have w: "ui64_word (be_bytes 8 v) =
      ?b 56 56 OR ?b 48 48 OR ?b 40 40 OR ?b 36 32 OR ?i 24 24 OR ?i 16 16 OR ?i 8 8 OR ucast (ucast v :: byte)"
    by (simp add: ui64_word_def be_bytes_nth)
  have "n < 8 \<or> 8 \<le> n \<and> n < 16 \<or> 16 \<le> n \<and> n < 24 \<or> 24 \<le> n \<and> n < 32 \<or> 32 \<le> n \<and> n < 36 \<or> 36 \<le> n \<and> n < 40 \<or>
      40 \<le> n \<and> n < 44 \<or> 44 \<le> n \<and> n < 48 \<or> 48 \<le> n \<and> n < 56 \<or> 56 \<le> n \<and> n < 64 \<or> 64 \<le> n"
    by linarith
  moreover have "36 \<le> n \<Longrightarrow> 32 + (n - 36) = n - 4" by simp
  ultimately show ?thesis
    unfolding w bit_or_iff bit_byte_at bit_int_at [OF order.refl] bit_int_at [of 16, simplified] bit_int_at [of 8, simplified]
      bit_low_byte
    by (elim disjE conjE) simp_all
qed

lemma all_shifted: "(\<forall>n < k. P (m + n)) \<longleftrightarrow> (\<forall>n. m \<le> n \<and> n < m + k \<longrightarrow> P (n :: nat))"
  by (metis add_less_cancel_left le_add1 le_add_diff_inverse)

lemma ui64_fits_bits:
  "ui64_fits v \<longleftrightarrow> (if bit v 31 then \<forall>n. 32 \<le> n \<and> n < 64 \<longrightarrow> bit v n else \<forall>n. 32 \<le> n \<and> n < 40 \<longrightarrow> \<not> bit v n)"
proof -
  have "drop_bit 32 v = mask 32 \<longleftrightarrow> (\<forall>n. n < 32 \<longrightarrow> bit v (32 + n))"
    by (auto simp: bit_eq_iff bit_simps dest: bit_imp_le_length)
  also have "\<dots> \<longleftrightarrow> (\<forall>n. 32 \<le> n \<and> n < 64 \<longrightarrow> bit v n)"
    using all_shifted [of 32 "bit v" 32] by simp
  finally have h: "drop_bit 32 v = mask 32 \<longleftrightarrow> (\<forall>n. 32 \<le> n \<and> n < 64 \<longrightarrow> bit v n)" .
  have "take_bit 8 (drop_bit 32 v) = 0 \<longleftrightarrow> (\<forall>n. n < 8 \<longrightarrow> \<not> bit v (32 + n))"
    by (auto simp: bit_eq_iff bit_simps)
  also have "\<dots> \<longleftrightarrow> (\<forall>n. 32 \<le> n \<and> n < 40 \<longrightarrow> \<not> bit v n)"
    using all_shifted [of 8 "\<lambda>n. \<not> bit v n" 32] by simp
  finally show ?thesis unfolding ui64_fits_def h by simp
qed

lemma ui64_exact: "ui64_word (be_bytes 8 v) = v \<longleftrightarrow> ui64_fits v"
proof
  assume eq: "ui64_word (be_bytes 8 v) = v"
  have *: "bit v n \<longleftrightarrow> bit v n \<and> (n < 32 \<or> 40 \<le> n) \<or> bit v (n - 4) \<and> 36 \<le> n \<and> n < 44 \<or> bit v 31 \<and> 32 \<le> n" if "n < 64" for n
    using bit_ui64_word [of v n] that unfolding eq by blast
  have "\<not> bit v n" if "\<not> bit v 31" "32 \<le> n" "n < 40" for n
  proof (cases "n < 36")
    case True
    then show ?thesis using * [of n] that by auto
  next
    case False
    then have "n - 4 < 36" "32 \<le> n - 4" using that by simp_all
    then have "\<not> bit v (n - 4)" using * [of "n - 4"] that by auto
    then show ?thesis using * [of n] that False by auto
  qed
  then show "ui64_fits v" unfolding ui64_fits_bits using * by auto
next
  assume fits: "ui64_fits v"
  show "ui64_word (be_bytes 8 v) = v"
  proof (rule bit_eqI)
    fix n
    show "bit (ui64_word (be_bytes 8 v)) n \<longleftrightarrow> bit v n"
    proof (cases "bit v 31")
      case True
      have "32 \<le> n \<and> n < 64 \<Longrightarrow> bit v n" using fits unfolding ui64_fits_bits if_P [OF True] by blast
      then show ?thesis unfolding bit_ui64_word using True bit_imp_le_length [of v n] by (cases "n < 32") auto
    next
      case False
      have z: "32 \<le> k \<and> k < 40 \<Longrightarrow> \<not> bit v k" for k using fits unfolding ui64_fits_bits if_not_P [OF False] by blast
      have "\<not> (36 \<le> n \<and> n < 44 \<and> bit v (n - 4))" using z [of "n - 4"] by linarith
      then have "bit (ui64_word (be_bytes 8 v)) n \<longleftrightarrow> n < 64 \<and> bit v n \<and> (n < 32 \<or> 40 \<le> n)"
        unfolding bit_ui64_word using False by blast
      also have "\<dots> \<longleftrightarrow> bit v n" using z [of n] bit_imp_le_length [of v n] by (cases "n < 32"; cases "40 \<le> n") auto
      finally show ?thesis .
    qed
  qed
qed

section \<open>Packed numbers\<close>

lemma small_iff:
  assumes "7 < LENGTH('a :: len)"
  shows "drop_bit 7 w = 0 \<longleftrightarrow> \<not> w > (0x7F :: 'a word)"
proof -
  have "(2 :: nat) ^ 7 \<le> 2 ^ LENGTH('a)" using assms by (intro power_increasing) auto
  then have "unat (0x7F :: 'a word) = 127" by (simp add: unat_numeral take_bit_nat_eq_self)
  then have "\<not> w > 0x7F \<longleftrightarrow> unat w < 128" by (auto simp: word_less_nat_alt)
  moreover have "drop_bit 7 w = 0 \<longleftrightarrow> unat w div 128 = 0"
    by (simp only: word_unat_eq_iff unat_drop_bit_eq) (simp add: drop_bit_eq_div)
  ultimately show ?thesis by auto
qed

lemma packed_byte_bits:
  assumes "7 < LENGTH('a :: len)"
  shows "packed_byte (w :: 'a word) AND 0x80 = 0 \<longleftrightarrow> drop_bit 7 w = 0" and "packed_byte w AND 0x7F = ucast w AND 0x7F"
proof -
  have d: "((x AND 0x7F) OR 0x80) AND 0x80 = 0x80" "(x AND 0x7F) AND 0x80 = 0" "((x AND 0x7F) OR 0x80) AND 0x7F = x AND 0x7F"
    for x :: byte
    by (simp_all add: and.assoc bit.conj_disj_distrib2)
  show "packed_byte w AND 0x80 = 0 \<longleftrightarrow> drop_bit 7 w = 0"
    unfolding packed_byte_def small_iff [OF assms] by (simp add: d)
  show "packed_byte w AND 0x7F = ucast w AND 0x7F"
    unfolding packed_byte_def by (simp add: d)
qed

lemma and_low_7: "(x :: byte) AND 0x7F = take_bit 7 x"
  by (simp add: take_bit_eq_mask mask_eq_exp_minus_1)

lemma shift_join:
  fixes w :: "('a :: len) word"
  assumes "7 < LENGTH('a)"
  shows "scast (push_bit k (ucast (ucast w AND 0x7F :: byte) :: 32 word)) OR scast (push_bit (k + 7) (ucast (drop_bit 7 w) :: 32 word))
   = (scast (push_bit k (ucast w :: 32 word)) :: ('b :: len) word)"
proof -
  have "push_bit k (ucast (ucast w AND 0x7F :: byte) :: 32 word) OR push_bit (k + 7) (ucast (drop_bit 7 w)) = push_bit k (ucast w)"
  proof (rule bit_word_eqI)
    fix n :: nat
    have "7 + (n - (k + 7)) = n - k" if "\<not> n - k < 7" using that by linarith
    then show "bit (push_bit k (ucast (ucast w AND 0x7F :: byte) :: 32 word) OR push_bit (k + 7) (ucast (drop_bit 7 w))) n =
        bit (push_bit k (ucast w) :: 32 word) n"
      unfolding and_low_7 using assms by (cases "n - k < 7") (auto simp: bit_simps)
  qed
  then show ?thesis by (metis signed_or_eq)
qed

lemma packed_not_Nil [simp]: "packed_bytes w \<noteq> []"
  by (subst packed_bytes.simps) simp

lemma measure_packed: "measure_packed_uint v = length (pack_uint v)"
  unfolding pack_uint_def
  by (induction v rule: measure_packed_uint.induct) (subst measure_packed_uint.simps, subst packed_bytes.simps, simp)

lemma packed_length: "length (packed_bytes w) \<le> Suc k \<longleftrightarrow> drop_bit (7 * Suc k) w = 0"
proof (induction k arbitrary: w)
  case 0
  show ?case by (subst packed_bytes.simps) simp
next
  case (Suc k)
  show ?case
  proof (cases "drop_bit 7 w = 0")
    case True
    then have "drop_bit (7 * Suc (Suc k)) w = 0" using drop_bit_drop_bit [of "7 * Suc k" 7 w] by (simp add: add.commute)
    then show ?thesis using True by (subst packed_bytes.simps) simp
  next
    case False
    then show ?thesis using Suc.IH [of "drop_bit 7 w"] by (subst packed_bytes.simps) (simp add: add.commute)
  qed
qed

text \<open>
  Reading what was packed: the shifts are defined for five bytes, and what five bytes give is the number's low 32 bits,
  sign-extended.
\<close>

lemma unpack_packed:
  fixes w :: "('a :: len) word"
  assumes "7 < LENGTH('a)"
  shows "unpack_from (packed_bytes w @ rest) i v =
    (if i + length (packed_bytes w) \<le> 5
     then Some (Some (i + length (packed_bytes w), v OR scast (push_bit (7 * i) (ucast w :: 32 word)) :: 'a word)) else None)"
proof (induction w arbitrary: i v rule: packed_bytes.induct)
  case (1 w)
  note bits = packed_byte_bits [OF assms, of w]
  have lim: "7 * i < 32 \<longleftrightarrow> i \<le> 4" by linarith
  show ?case
  proof (cases "drop_bit 7 w = 0")
    case True
    have "(scast (push_bit (7 * i) (ucast (ucast w AND 0x7F :: byte) :: 32 word)) :: 'a word) = scast (push_bit (7 * i) (ucast w :: 32 word))"
      using shift_join [OF assms, of "7 * i" w, where 'b = 'a] True by simp
    then show ?thesis using True bits by (subst (1 2 3) packed_bytes.simps) (simp add: shift_int_def lim)
  next
    case False
    have "(v OR scast (push_bit (7 * i) (ucast (ucast w AND 0x7F :: byte) :: 32 word))) OR
        scast (push_bit (7 * (i + 1)) (ucast (drop_bit 7 w) :: 32 word)) = (v OR scast (push_bit (7 * i) (ucast w :: 32 word)) :: 'a word)"
      using shift_join [OF assms, of "7 * i" w, where 'b = 'a] by (simp add: or.assoc add.commute)
    then show ?thesis using False bits 1 [OF False, of "i + 1"]
      by (subst (1 2 3) packed_bytes.simps) (simp add: shift_int_def lim)
  qed
qed

end
