(* ===== verification/Serval_Packet.thy ===== *)
theory Serval_Packet
  imports Serval_Number
begin

text \<open>
  Packets in the buffer of \<open>Serval_Buffer\<close>: what is appended field by field to a growing buffer is read back
  after a flip. The locale \<open>field_codec\<close> is the contract between an append and a get function.
\<close>

section \<open>Buffers that grow\<close>

definition content :: "overlay_buffer \<Rightarrow> byte list" where
  "content b = (case ob_bytes b of None \<Rightarrow> [] | Some m \<Rightarrow> take (ob_position b) m)"

text \<open>No limit, memory enough, and nothing lost so far. The bound keeps sizes away from the end of \<^verbatim>\<open>size_t\<close>.\<close>

definition growable :: "overlay_buffer \<Rightarrow> bool" where
  "growable b \<longleftrightarrow> sizeLimit b = SIZE_MAX \<and> False \<notin> set (ob_allocs b) \<and> ob_position b \<le> allocSize b \<and>
     allocSize b < 2 ^ 62 \<and> (case ob_bytes b of None \<Rightarrow> ob_position b = 0 \<and> allocSize b = 0
       | Some m \<Rightarrow> length m = allocSize b \<and> allocated b)"

lemma add_size_small: "a + b < 2 ^ 64 \<Longrightarrow> add_size a b = a + b"
  by (simp add: add_size_def)

lemma round_up_bounds:
  assumes "n < 2 ^ 62" and "0 < k" and "k \<le> 65536"
  shows "n \<le> round_up n k \<and> round_up n k < n + k"
proof (cases "n mod k = 0")
  case False
  have "n + (k - n mod k) < 2 ^ 64" using assms by simp
  then have "round_up n k = n + (k - n mod k)" using False by (simp add: round_up_def add_size_small)
  then show ?thesis using False mod_less_divisor [OF assms(2), of n] by simp
qed (use assms in \<open>simp add: round_up_def\<close>)

lemma new_size_bounds:
  assumes "n < 2 ^ 60"
  shows "n \<le> new_size n \<and> new_size n < 2 ^ 62"
proof -
  define n1 where "n1 = (if n < 64 then 64 else n)"
  define n2 where "n2 = round_up n1 64"
  define n3 where "n3 = (if n2 > 1024 then round_up n2 1024 else n2)"
  have b1: "n \<le> n1" "n1 < 2 ^ 60 + 64" using assms by (simp_all add: n1_def)
  then have b2: "n1 \<le> n2" "n2 < 2 ^ 60 + 128" using round_up_bounds [of n1 64] by (simp_all add: n2_def)
  then have b3: "n2 \<le> n3" "n3 < 2 ^ 60 + 2048" using round_up_bounds [of n2 1024] by (simp_all add: n3_def)
  have "new_size n = (if n3 > 65536 then round_up n3 65536 else n3)"
    by (simp add: new_size_def Let_def n1_def n2_def n3_def)
  then show ?thesis using b1 b2 b3 round_up_bounds [of n3 65536] by simp
qed

lemma emalloc_grows: "False \<notin> set (ob_allocs b) \<Longrightarrow> \<exists>oks. emalloc b = (True, b\<lparr>ob_allocs := oks\<rparr>) \<and> False \<notin> set oks"
proof (cases "ob_allocs b")
  case Nil
  then show ?thesis by (intro exI [of _ "[]"]) (simp add: emalloc_def)
qed (auto simp: emalloc_def)

text \<open>Space is found, in the old block or in a larger one with the same contents.\<close>

lemma makespace_grows:
  assumes b: "growable b" and n: "ob_position b + n < 2 ^ 60" "0 < n"
  shows "\<exists>b' m. ob_makespace n b = Some (True, b') \<and> growable b' \<and> ob_position b' = ob_position b \<and>
    ob_bytes b' = Some m \<and> content b' = content b \<and> ob_position b + n \<le> length m"
proof -
  have a: "add_size (ob_position b) n = ob_position b + n" using n by (simp add: add_size_small)
  have lim: "\<not> ob_position b + n > sizeLimit b" using b n by (simp add: growable_def SIZE_MAX_def)
  have nn: "\<not> (ob_position b \<noteq> 0 \<and> ob_bytes b = None)" using b by (auto simp: growable_def)
  show ?thesis
  proof (cases "ob_position b + n \<le> allocSize b")
    case True
    then obtain m where "ob_bytes b = Some m" "length m = allocSize b"
      using b n by (auto simp: growable_def split: option.splits)
    then show ?thesis using True a lim nn b by (simp add: ob_makespace_def)
  next
    case False
    let ?size = "new_size (ob_position b + n)" and ?old = "case ob_bytes b of None \<Rightarrow> [] | Some m \<Rightarrow> m"
    obtain oks where e: "emalloc b = (True, b\<lparr>ob_allocs := oks\<rparr>)" "False \<notin> set oks"
      using emalloc_grows [of b] b by (auto simp: growable_def)
    have old: "ob_position b \<le> length ?old" "take (ob_position b) ?old = content b"
      using b by (auto simp: growable_def content_def split: option.splits)
    have sz: "ob_position b + n \<le> ?size" "?size < 2 ^ 62" using new_size_bounds n by blast+
    have st: "\<not> (ob_bytes b \<noteq> None \<and> \<not> allocated b)" using b by (auto simp: growable_def split: option.splits)
    let ?m = "take (ob_position b) ?old @ replicate (?size - ob_position b) 0"
    let ?b = "b\<lparr>ob_allocs := oks, ob_bytes := Some ?m, allocated := True, allocSize := ?size\<rparr>"
    have l: "length ?m = ?size" using old(1) sz(1) by simp
    have "ob_makespace n b = Some (True, ?b)"
      using False a lim nn st e old(1) by (simp add: ob_makespace_def Let_def)
    moreover have "growable ?b" using b e sz l by (simp add: growable_def)
    moreover have "content ?b = content b"
    proof -
      have "length (content b) = ob_position b" using old(1) unfolding old(2) [symmetric] by simp
      then show ?thesis unfolding content_def [of ?b] by (simp add: old(2))
    qed
    ultimately show ?thesis using l sz by auto
  qed
qed

lemma write_grows:
  assumes b: "growable b" and bs: "bs \<noteq> []" "ob_position b + length bs < 2 ^ 60"
  shows "\<exists>b'. ob_write bs b = Some b' \<and> growable b' \<and> content b' = content b @ bs \<and> ob_position b' = ob_position b + length bs"
proof -
  obtain b' m where s: "ob_makespace (length bs) b = Some (True, b')" "growable b'" "ob_position b' = ob_position b"
    "ob_bytes b' = Some m" "content b' = content b" "ob_position b + length bs \<le> length m"
    using makespace_grows [OF b bs(2)] bs(1) by auto
  let ?m = "take (ob_position b) m @ bs @ drop (ob_position b + length bs) m"
  let ?b = "b'\<lparr>ob_bytes := Some ?m, ob_position := ob_position b + length bs\<rparr>"
  have "ob_write bs b = Some ?b" using s bs(2) by (simp add: ob_write_def store_def add_size_small)
  moreover have "growable ?b" using s by (auto simp: growable_def)
  moreover have "content ?b = content b @ bs"
  proof -
    have "take (ob_position b) m = content b" using s by (simp add: content_def [of b'])
    moreover have "length (take (ob_position b) m) = ob_position b" using s(6) by simp
    ultimately show ?thesis unfolding content_def [of ?b] by simp
  qed
  ultimately show ?thesis by auto
qed

section \<open>Buffers that are read\<close>

definition window :: "overlay_buffer \<Rightarrow> byte list" where
  "window b = (case ob_bytes b of None \<Rightarrow> [] | Some m \<Rightarrow> take (sizeLimit b - ob_position b) (drop (ob_position b) m))"

definition readable :: "overlay_buffer \<Rightarrow> bool" where
  "readable b \<longleftrightarrow> ob_position b \<le> sizeLimit b \<and> sizeLimit b \<le> allocSize b \<and> allocSize b < 2 ^ 62 \<and>
     (case ob_bytes b of None \<Rightarrow> allocSize b = 0 | Some m \<Rightarrow> length m = allocSize b)"

text \<open>Moving forward over the first bytes of the window.\<close>

definition advance :: "nat \<Rightarrow> overlay_buffer \<Rightarrow> overlay_buffer" where
  "advance n b = b\<lparr>ob_position := ob_position b + n\<rparr>"

lemma advance_simps [simp]: "advance 0 b = b" "advance m (advance n b) = advance (n + m) b"
  "sizeLimit (advance n b) = sizeLimit b" "ob_position (advance n b) = ob_position b + n" "ob_bytes (advance n b) = ob_bytes b"
  by (simp_all add: advance_def add.assoc)

lemma length_window: "readable b \<Longrightarrow> length (window b) = sizeLimit b - ob_position b"
  by (auto simp: readable_def window_def split: option.splits)

lemma readable_advance: "readable b \<Longrightarrow> n \<le> length (window b) \<Longrightarrow> readable (advance n b)"
  unfolding length_window by (auto simp: readable_def advance_def length_window split: option.splits)

lemma window_advance: "window (advance n b) = drop n (window b)"
  by (auto simp: window_def drop_take ac_simps split: option.splits)

lemma test_offset_readable: "readable b \<Longrightarrow> n \<le> 2 ^ 62 \<Longrightarrow> test_offset b n \<longleftrightarrow> n \<le> length (window b)"
  unfolding length_window by (auto simp: readable_def test_offset_def add_size_small)

lemma fetch_window:
  assumes "readable b" "0 < n" "n \<le> length (window b)"
  shows "fetch (ob_position b) n b = Some (take n (window b))"
proof -
  obtain m where m: "ob_bytes b = Some m" using assms by (cases "ob_bytes b") (auto simp: window_def)
  have n: "n \<le> sizeLimit b - ob_position b" using assms length_window by simp
  then show ?thesis using m assms(1) by (auto simp: fetch_def window_def readable_def min_absorb1)
qed

text \<open>A read of a fixed length gives the bytes there are, or the error value without moving.\<close>

lemma ob_take_window:
  assumes b: "readable b" and n: "0 < n" "n < 2 ^ 62"
  shows "ob_take n err f b = Some (if n \<le> length (window b) then (f (take n (window b)), advance n b) else (err, b))"
proof (cases "n \<le> length (window b)")
  case True
  then have "add_size (ob_position b) n = ob_position b + n"
    using b length_window [OF b] by (intro add_size_small) (auto simp: readable_def)
  then show ?thesis using True b n by (simp add: ob_take_def test_offset_readable fetch_window advance_def)
qed (use assms in \<open>simp add: ob_take_def test_offset_readable\<close>)

lemma ob_get_window:
  assumes b: "readable b"
  shows "ob_get b = Some (case window b of [] \<Rightarrow> (-1, b) | c # _ \<Rightarrow> (uint c, advance 1 b))"
proof (cases "window b")
  case Nil
  then show ?thesis using test_offset_readable [OF b, of 1] by (simp add: ob_get_def)
next
  case (Cons c cs)
  then show ?thesis using test_offset_readable [OF b, of 1] fetch_window [OF b, of 1] by (simp add: ob_get_def advance_def)
qed

text \<open>Reading a packed number is decoding the window.\<close>

lemma unpack_from_count: "unpack_from cs i v = Some (Some (j, w)) \<Longrightarrow> i < j \<and> j \<le> i + length cs"
  by (induction cs i v rule: unpack_from.induct) (fastforce split: option.splits if_splits)+

lemma get_packed_window:
  assumes "readable b"
  shows "get_packed i v b = map_option (\<lambda>r. case r of None \<Rightarrow> (-1, advance (length (window b)) b)
    | Some (j, w) \<Rightarrow> (w, advance (j - i) b)) (unpack_from (window b) i v)"
  using assms
proof (induction "window b" i v arbitrary: b rule: unpack_from.induct)
  case (1 i v)
  then show ?case by (subst get_packed.simps) (simp add: ob_get_window flip: "1.hyps")
next
  case (2 c cs i v)
  have adv: "window (advance 1 b) = cs" "readable (advance 1 b)"
    using 2(2,3) readable_advance [of b 1] by (simp_all add: window_advance flip: "2.hyps"(2))
  have get: "ob_get b = Some (uint c, advance 1 b)" using ob_get_window [OF "2.prems"] by (simp flip: "2.hyps"(2))
  show ?case
  proof (cases "shift_int c (7 * i) :: 'a word option")
    case None
    then show ?thesis using get by (subst get_packed.simps) (simp flip: "2.hyps"(2))
  next
    case (Some d)
    show ?thesis
    proof (cases "c AND 0x80 = 0")
      case True
      then show ?thesis using get Some by (subst get_packed.simps) (simp flip: "2.hyps"(2))
    next
      case False
      have "get_packed i v b = get_packed (i + 1) (v OR d) (advance 1 b)"
        using get Some False by (subst get_packed.simps) simp
      moreover have "unpack_from (window b) i v = unpack_from (window (advance 1 b)) (i + 1) (v OR d)"
        using Some False adv by (simp flip: "2.hyps"(2))
      moreover have "length (window b) = Suc (length (window (advance 1 b)))" using adv by (simp flip: "2.hyps"(2))
      ultimately show ?thesis
        using "2.hyps"(1) [OF Some False, of "advance 1 b"] adv
        by (auto simp: Suc_diff_Suc split: option.splits dest!: unpack_from_count intro!: option.map_cong)
    qed
  qed
qed

text \<open>A search for the end of a string: over the bytes of the window, and one more.\<close>

lemma str_search_window:
  assumes b: "readable b" and k: "k < length (window b)"
  shows "str_search k b = (if window b ! k = 0 then Some (Some k) else str_search (k + 1) b)"
proof -
  have a: "readable (advance k b)" using readable_advance [OF b] k by simp
  have w: "window (advance k b) = drop k (window b)" by (rule window_advance)
  then have "fetch (ob_position (advance k b)) 1 (advance k b) = Some (take 1 (drop k (window b)))"
    using fetch_window [OF a, of 1] k by simp
  then have "fetch (ob_position b + k) 1 b = Some [window b ! k]"
    using k by (simp add: fetch_def take_Suc_conv_app_nth hd_drop_conv_nth)
  moreover have "test_offset b k"
    using test_offset_readable [OF b, of k] k b length_window [OF b] by (auto simp: readable_def)
  ultimately show ?thesis by (subst str_search.simps) simp
qed

lemma str_search_skip:
  assumes b: "readable b" and n: "n \<le> length (window b)" "\<forall>i < n. window b ! i \<noteq> 0"
  shows "k \<le> n \<Longrightarrow> str_search k b = str_search n b"
proof (induction rule: inc_induct)
  case (step k)
  then show ?case using str_search_window [OF b, of k] n by simp
qed simp

lemma str_search_end:
  assumes b: "readable b" and m: "ob_bytes b = Some m"
  shows "str_search (length (window b)) b =
    (if sizeLimit b = allocSize b then None else if m ! sizeLimit b = 0 then Some (Some (length (window b))) else Some None)"
proof -
  let ?n = "length (window b)"
  have lim: "ob_position b + ?n = sizeLimit b" "sizeLimit b \<le> length m" "length m = allocSize b" "allocSize b < 2 ^ 62"
    using b m length_window [OF b] by (auto simp: readable_def)
  have t: "test_offset b ?n" "\<not> test_offset b (?n + 1)" using test_offset_readable [OF b] lim by auto
  have "fetch (ob_position b + ?n) 1 b = (if sizeLimit b = allocSize b then None else Some [m ! sizeLimit b])"
    using lim m by (auto simp: fetch_def take_Suc_conv_app_nth hd_drop_conv_nth)
  then show ?thesis using t by (subst str_search.simps) (simp add: str_search.simps [of "Suc ?n"])
qed

section \<open>Fields\<close>

text \<open>
  The contract of a pair of functions that append a value to a packet and read it back: a value that is \<open>ok\<close> is
  appended as its encoding, and from a window that starts with it, it is read and passed over.
\<close>

locale field_codec =
  fixes kind :: "'a \<Rightarrow> 'k"
    and enc :: "'a \<Rightarrow> byte list"
    and ok :: "'a \<Rightarrow> bool"
    and put :: "'a \<Rightarrow> overlay_buffer \<Rightarrow> overlay_buffer option"
    and get :: "'k \<Rightarrow> overlay_buffer \<Rightarrow> ('a \<times> overlay_buffer) option"
  assumes put_grows: "growable b \<Longrightarrow> ok v \<Longrightarrow> ob_position b + length (enc v) < 2 ^ 60 \<Longrightarrow>
      \<exists>b'. put v b = Some b' \<and> growable b' \<and> content b' = content b @ enc v"
    and get_reads: "readable b \<Longrightarrow> ok v \<Longrightarrow> length (enc v) < 2 ^ 60 \<Longrightarrow> window b = enc v @ rest \<Longrightarrow>
      get (kind v) b = Some (v, advance (length (enc v)) b)"

fun put_all :: "('a \<Rightarrow> overlay_buffer \<Rightarrow> overlay_buffer option) \<Rightarrow> 'a list \<Rightarrow> overlay_buffer \<Rightarrow> overlay_buffer option" where
  "put_all put [] b = Some b"
| "put_all put (v # vs) b = Option.bind (put v b) (put_all put vs)"

fun get_all :: "('k \<Rightarrow> overlay_buffer \<Rightarrow> ('a \<times> overlay_buffer) option) \<Rightarrow> 'k list \<Rightarrow> overlay_buffer \<Rightarrow>
    ('a list \<times> overlay_buffer) option" where
  "get_all get [] b = Some ([], b)"
| "get_all get (k # ks) b =
     Option.bind (get k b) (\<lambda>(v, b). map_option (\<lambda>(vs, b). (v # vs, b)) (get_all get ks b))"

lemma growable_position: "growable b \<Longrightarrow> ob_position b = length (content b)"
  by (auto simp: growable_def content_def split: option.splits)

lemma flip_readable:
  assumes "growable b"
  shows "\<exists>b'. ob_flip b = Some b' \<and> readable b' \<and> window b' = content b \<and> sizeLimit b' = ob_position b \<and> ob_position b' = 0"
  using assms by (auto simp: ob_flip_def ob_limitsize_def growable_def readable_def window_def content_def SIZE_MAX_def split: option.splits)

context field_codec
begin

lemma put_all_grows:
  assumes "growable b" "\<forall>v \<in> set vs. ok v" "ob_position b + length (concat (map enc vs)) < 2 ^ 60"
  shows "\<exists>b'. put_all put vs b = Some b' \<and> growable b' \<and> content b' = content b @ concat (map enc vs)"
  using assms
proof (induction vs arbitrary: b)
  case (Cons v vs)
  then obtain b1 where b1: "put v b = Some b1" "growable b1" "content b1 = content b @ enc v"
    using put_grows [of b v] by auto
  then have "ob_position b1 = ob_position b + length (enc v)" using Cons.prems(1) by (simp add: growable_position)
  then show ?case using Cons.IH [of b1] Cons.prems b1 by auto
qed simp

lemma get_all_reads:
  assumes "readable b" "\<forall>v \<in> set vs. ok v" "length (concat (map enc vs)) < 2 ^ 60" "window b = concat (map enc vs) @ rest"
  shows "get_all get (map kind vs) b = Some (vs, advance (length (concat (map enc vs))) b)"
  using assms
proof (induction vs arbitrary: b)
  case (Cons v vs)
  let ?b = "advance (length (enc v)) b"
  have "get (kind v) b = Some (v, ?b)" using get_reads [of b v] Cons.prems by simp
  moreover have "get_all get (map kind vs) ?b = Some (vs, advance (length (concat (map enc vs))) ?b)"
    using Cons.prems by (intro Cons.IH) (auto simp: window_advance intro!: readable_advance)
  ultimately show ?case by simp
qed simp

lemma packet:
  assumes b: "growable b" "content b = []" and vs: "\<forall>v \<in> set vs. ok v" "length (concat (map enc vs)) < 2 ^ 60"
  shows "\<exists>b1 b2 b3. put_all put vs b = Some b1 \<and> ob_flip b1 = Some b2 \<and> get_all get (map kind vs) b2 = Some (vs, b3) \<and>
    ob_remaining b3 = Some 0"
proof -
  let ?n = "length (concat (map enc vs))"
  have pos: "ob_position b = 0" using growable_position [OF b(1)] b(2) by simp
  obtain b1 where b1: "put_all put vs b = Some b1" "growable b1" "content b1 = concat (map enc vs)"
    using put_all_grows [OF b(1) vs(1)] vs(2) b(2) pos by auto
  obtain b2 where b2: "ob_flip b1 = Some b2" "readable b2" "window b2 = concat (map enc vs)" "sizeLimit b2 = ?n" "ob_position b2 = 0"
    using flip_readable [OF b1(2)] growable_position [OF b1(2)] b1(3) by auto
  have "get_all get (map kind vs) b2 = Some (vs, advance ?n b2)"
    using get_all_reads [of b2 vs "[]"] b2 vs by simp
  moreover have "ob_remaining (advance ?n b2) = Some 0" using b2 vs(2) by (simp add: ob_remaining_def SIZE_MAX_def)
  ultimately show ?thesis using b1(1) b2(1) by blast
qed

end

text \<open>A number of a fixed width, and the two packed forms.\<close>

lemma fixed_codec:
  assumes "\<And>v. length (enc v) = n" "0 < n" "n < 2 ^ 60" "\<And>v. ok v \<Longrightarrow> dec (enc v) = v"
  shows "field_codec (\<lambda>_. ()) enc ok (\<lambda>v. ob_write (enc v)) (\<lambda>_. ob_take n err dec)"
proof
  fix b v
  assume "growable b" "ob_position b + length (enc v) < 2 ^ 60"
  then show "\<exists>b'. ob_write (enc v) b = Some b' \<and> growable b' \<and> content b' = content b @ enc v"
    using write_grows [of b "enc v"] assms(1,2) by (metis length_0_conv less_not_refl2)
next
  fix b v rest
  assume "readable b" "ok v" "window b = enc v @ rest"
  then show "ob_take n err dec b = Some (v, advance (length (enc v)) b)"
    using assms by (simp add: ob_take_window)
qed

interpretation u16: field_codec "\<lambda>_. ()" "be_bytes 2" "\<lambda>_. True" ob_append_ui16 "\<lambda>_. ob_get_ui16"
  unfolding ob_append_ui16_def [abs_def] ob_get_ui16_def by (rule fixed_codec) (simp_all add: word_bytes)

interpretation u16_rv: field_codec "\<lambda>_. ()" "le_bytes 2" "\<lambda>_. True" ob_append_ui16_rv "\<lambda>_. ob_get_ui16_rv"
  unfolding ob_append_ui16_rv_def [abs_def] ob_get_ui16_rv_def by (rule fixed_codec) (simp_all add: word_bytes)

interpretation u32: field_codec "\<lambda>_. ()" "be_bytes 4" "\<lambda>_. True" ob_append_ui32 "\<lambda>_. ob_get_ui32"
  unfolding ob_append_ui32_def [abs_def] ob_get_ui32_def by (rule fixed_codec) (simp_all add: word_bytes)

interpretation u32_rv: field_codec "\<lambda>_. ()" "le_bytes 4" "\<lambda>_. True" ob_append_ui32_rv "\<lambda>_. ob_get_ui32_rv"
  unfolding ob_append_ui32_rv_def [abs_def] ob_get_ui32_rv_def by (rule fixed_codec) (simp_all add: word_bytes)

interpretation u64: field_codec "\<lambda>_. ()" "be_bytes 8" ui64_fits ob_append_ui64 "\<lambda>_. ob_get_ui64"
  unfolding ob_append_ui64_def [abs_def] ob_get_ui64_def by (rule fixed_codec) (simp_all add: ui64_exact)

interpretation u64_rv: field_codec "\<lambda>_. ()" "le_bytes 8" "\<lambda>_. True" ob_append_ui64_rv "\<lambda>_. ob_get_ui64_rv"
  unfolding ob_append_ui64_rv_def [abs_def] ob_get_ui64_rv_def by (rule fixed_codec) (simp_all add: word_bytes)

lemma append_all_grows:
  assumes "growable b" "ob_position b + length bs < 2 ^ 60"
  shows "\<exists>b'. ob_append_all bs b = Some b' \<and> growable b' \<and> content b' = content b @ bs"
  using assms
proof (induction bs arbitrary: b)
  case (Cons c cs)
  then obtain b1 where b1: "ob_append_byte c b = Some b1" "growable b1" "content b1 = content b @ [c]" "ob_position b1 = ob_position b + 1"
    using write_grows [of b "[c]"] by (auto simp: ob_append_byte_def)
  then show ?case using Cons.IH [of b1] Cons.prems by auto
qed simp

lemma packed_32_reads:
  assumes "readable b" "window b = packed_bytes v @ rest"
  shows "ob_get_packed_ui32 b = Some (v, advance (length (packed_bytes v)) b)"
proof -
  have "drop_bit (7 * Suc 4) v = 0" by (rule bit_word_eqI) (simp add: bit_simps)
  then have "length (packed_bytes v) \<le> 5" using packed_length [of v 4] by simp
  then have "unpack_from (window b) 0 0 = Some (Some (length (packed_bytes v), v))"
    using assms(2) unpack_packed [of v rest 0 0] by simp
  then show ?thesis unfolding ob_get_packed_ui32_def get_packed_window [OF assms(1)] by simp
qed

interpretation packed32: field_codec "\<lambda>_. ()" packed_bytes "\<lambda>_. True" ob_append_packed_ui32 "\<lambda>_. ob_get_packed_ui32"
  by unfold_locales (simp_all add: ob_append_packed_ui32_def append_all_grows packed_32_reads)

text \<open>The 64 bit form is read as 32 bits with a sign, and not at all from 35 bits on.\<close>

lemma packed_64_reads:
  fixes v :: uint64
  assumes "readable b" "window b = packed_bytes v @ rest"
  shows "ob_get_packed_ui64 b =
    (if drop_bit 35 v = 0 then Some (scast (ucast v :: 32 word), advance (length (packed_bytes v)) b) else None)"
proof -
  have "length (packed_bytes v) \<le> 5 \<longleftrightarrow> drop_bit 35 v = 0" using packed_length [of v 4] by simp
  then have "unpack_from (window b) 0 0 = (if drop_bit 35 v = 0 then Some (Some (length (packed_bytes v), scast (ucast v :: 32 word) :: uint64)) else None)"
    using assms(2) unpack_packed [of v rest 0 0] by simp
  then show ?thesis unfolding ob_get_packed_ui64_def get_packed_window [OF assms(1)] by simp
qed

lemma drop_bit_zero_iff: "drop_bit k (v :: ('a :: len) word) = 0 \<longleftrightarrow> (\<forall>n. k \<le> n \<longrightarrow> \<not> bit v n)"
proof
  assume z: "drop_bit k v = 0"
  have "bit (drop_bit k v) (n - k) \<longleftrightarrow> bit v n" if "k \<le> n" for n using that by (simp add: bit_drop_bit_eq)
  then show "\<forall>n. k \<le> n \<longrightarrow> \<not> bit v n" unfolding z by simp
qed (auto intro: bit_word_eqI simp: bit_simps)

lemma scast_ucast_small:
  fixes v :: uint64
  shows "drop_bit 31 v = 0 \<longleftrightarrow> drop_bit 35 v = 0 \<and> scast (ucast v :: 32 word) = v"
proof -
  have w: "bit (scast (ucast v :: 32 word) :: uint64) n \<longleftrightarrow> n < 64 \<and> bit v (if n < 32 then n else 31)" for n
    by (cases "n < 32") (auto simp: bit_simps)
  show ?thesis
  proof
    assume z: "drop_bit 31 v = 0"
    then have "scast (ucast v :: 32 word) = v" unfolding drop_bit_zero_iff
      by (intro bit_word_eqI) (auto simp: w)
    then show "drop_bit 35 v = 0 \<and> scast (ucast v :: 32 word) = v" using z by (auto simp: drop_bit_zero_iff)
  next
    assume a: "drop_bit 35 v = 0 \<and> scast (ucast v :: 32 word) = v"
    then have *: "bit v n \<longleftrightarrow> n < 64 \<and> bit v (if n < 32 then n else 31)" for n using w [of n] by simp
    have "\<not> bit v 63" using a by (simp add: drop_bit_zero_iff)
    then have "\<not> bit v 31" using * [of 63] by simp
    then have "\<not> bit v n" if "31 \<le> n" for n using that * [of n] by (cases "n = 31") auto
    then show "drop_bit 31 v = 0" by (simp add: drop_bit_zero_iff)
  qed
qed

end
