(* ===== verification/Serval_Fields.thy ===== *)
theory Serval_Fields
  imports Serval_Packet
begin

unbundle bit_operations_syntax

text \<open>
  The properties of the packet buffer: packets of mixed fields are read back as they were written, an overrun
  is noticed, and what the reading functions give in the cases they get wrong.
\<close>

section \<open>Mixed fields\<close>

datatype ob_field =
    F_byte byte | F_ui16 uint16 | F_ui16_rv uint16 | F_ui32 uint32 | F_ui32_rv uint32 | F_ui64 uint64 | F_ui64_rv uint64
  | F_packed32 uint32 | F_packed64 uint64 | F_bytes "byte list" | F_str "byte list"

datatype ob_kind =
    K_byte | K_ui16 | K_ui16_rv | K_ui32 | K_ui32_rv | K_ui64 | K_ui64_rv | K_packed32 | K_packed64 | K_bytes nat | K_str

fun field_kind :: "ob_field \<Rightarrow> ob_kind" where
  "field_kind (F_byte _) = K_byte"
| "field_kind (F_ui16 _) = K_ui16"
| "field_kind (F_ui16_rv _) = K_ui16_rv"
| "field_kind (F_ui32 _) = K_ui32"
| "field_kind (F_ui32_rv _) = K_ui32_rv"
| "field_kind (F_ui64 _) = K_ui64"
| "field_kind (F_ui64_rv _) = K_ui64_rv"
| "field_kind (F_packed32 _) = K_packed32"
| "field_kind (F_packed64 _) = K_packed64"
| "field_kind (F_bytes bs) = K_bytes (length bs)"
| "field_kind (F_str _) = K_str"

fun field_bytes :: "ob_field \<Rightarrow> byte list" where
  "field_bytes (F_byte c) = [c]"
| "field_bytes (F_ui16 v) = be_bytes 2 v"
| "field_bytes (F_ui16_rv v) = le_bytes 2 v"
| "field_bytes (F_ui32 v) = be_bytes 4 v"
| "field_bytes (F_ui32_rv v) = le_bytes 4 v"
| "field_bytes (F_ui64 v) = be_bytes 8 v"
| "field_bytes (F_ui64_rv v) = le_bytes 8 v"
| "field_bytes (F_packed32 v) = packed_bytes v"
| "field_bytes (F_packed64 v) = packed_bytes v"
| "field_bytes (F_bytes bs) = bs"
| "field_bytes (F_str s) = s @ [0]"

text \<open>The values that survive: all of them, but for 64 bit numbers and what C cannot say of a string.\<close>

fun field_ok :: "ob_field \<Rightarrow> bool" where
  "field_ok (F_ui64 v) \<longleftrightarrow> ui64_fits v"
| "field_ok (F_packed64 v) \<longleftrightarrow> drop_bit 31 v = 0"
| "field_ok (F_bytes bs) \<longleftrightarrow> bs \<noteq> []"
| "field_ok (F_str s) \<longleftrightarrow> 0 \<notin> set s"
| "field_ok _ \<longleftrightarrow> True"

fun put_field :: "ob_field \<Rightarrow> overlay_buffer \<Rightarrow> overlay_buffer option" where
  "put_field (F_byte c) = ob_append_byte c"
| "put_field (F_ui16 v) = ob_append_ui16 v"
| "put_field (F_ui16_rv v) = ob_append_ui16_rv v"
| "put_field (F_ui32 v) = ob_append_ui32 v"
| "put_field (F_ui32_rv v) = ob_append_ui32_rv v"
| "put_field (F_ui64 v) = ob_append_ui64 v"
| "put_field (F_ui64_rv v) = ob_append_ui64_rv v"
| "put_field (F_packed32 v) = ob_append_packed_ui32 v"
| "put_field (F_packed64 v) = ob_append_packed_ui64 v"
| "put_field (F_bytes bs) = ob_append_bytes bs"
| "put_field (F_str s) = ob_append_str s"

definition in_field :: "('a \<Rightarrow> 'b) \<Rightarrow> ('a \<times> overlay_buffer) option \<Rightarrow> ('b \<times> overlay_buffer) option" where
  "in_field f r = map_option (\<lambda>(v, b). (f v, b)) r"

text \<open>A string is read where the returned pointer points to.\<close>

definition get_str :: "overlay_buffer \<Rightarrow> (byte list \<times> overlay_buffer) option" where
  "get_str b = (case (ob_get_str_ptr b, ob_bytes b) of
     (Some (Some p, b1), Some m) \<Rightarrow> Some (takeWhile (\<lambda>c. c \<noteq> 0) (drop p m), b1) | _ \<Rightarrow> None)"

fun get_field :: "ob_kind \<Rightarrow> overlay_buffer \<Rightarrow> (ob_field \<times> overlay_buffer) option" where
  "get_field K_byte b = in_field (\<lambda>c. F_byte (of_int c)) (ob_get b)"
| "get_field K_ui16 b = in_field F_ui16 (ob_get_ui16 b)"
| "get_field K_ui16_rv b = in_field F_ui16_rv (ob_get_ui16_rv b)"
| "get_field K_ui32 b = in_field F_ui32 (ob_get_ui32 b)"
| "get_field K_ui32_rv b = in_field F_ui32_rv (ob_get_ui32_rv b)"
| "get_field K_ui64 b = in_field F_ui64 (ob_get_ui64 b)"
| "get_field K_ui64_rv b = in_field F_ui64_rv (ob_get_ui64_rv b)"
| "get_field K_packed32 b = in_field F_packed32 (ob_get_packed_ui32 b)"
| "get_field K_packed64 b = in_field F_packed64 (ob_get_packed_ui64 b)"
| "get_field (K_bytes n) b = in_field (\<lambda>r. F_bytes (case r of None \<Rightarrow> [] | Some bs \<Rightarrow> bs)) (ob_get_bytes n b)"
| "get_field K_str b = in_field F_str (get_str b)"

lemma get_str_ptr_reads:
  assumes b: "readable b" and w: "window b = s @ 0 # rest" and s: "0 \<notin> set s"
  shows "ob_get_str_ptr b = Some (Some (ob_position b), advance (length s + 1) b)"
proof -
  have nz: "\<forall>i < length s. window b ! i \<noteq> 0" using s by (auto simp: w nth_append) (metis nth_mem)
  have "str_search 0 b = str_search (length s) b" using nz by (intro str_search_skip [OF b]) (simp_all add: w)
  also have "\<dots> = Some (Some (length s))" using str_search_window [OF b, of "length s"] by (simp add: w)
  finally have "str_search 0 b = Some (Some (length s))" .
  moreover have "add_size (ob_position b) (length s + 1) = ob_position b + (length s + 1)"
    using length_window [OF b] b w by (intro add_size_small) (auto simp: readable_def)
  ultimately show ?thesis by (simp add: ob_get_str_ptr_def advance_def)
qed

lemma get_str_reads:
  assumes b: "readable b" and w: "window b = s @ 0 # rest" and s: "0 \<notin> set s"
  shows "get_str b = Some (s, advance (length s + 1) b)"
proof -
  obtain m where m: "ob_bytes b = Some m" using w by (cases "ob_bytes b") (auto simp: window_def)
  then have "drop (ob_position b) m = window b @ drop (sizeLimit b - ob_position b) (drop (ob_position b) m)"
    by (simp add: window_def del: drop_drop)
  then have "takeWhile (\<lambda>c. c \<noteq> 0) (drop (ob_position b) m) = s" using s by (simp add: w takeWhile_append)
  then show ?thesis unfolding get_str_def get_str_ptr_reads [OF assms] m by simp
qed

lemma put_field_grows:
  assumes "growable b" "field_ok v" "ob_position b + length (field_bytes v) < 2 ^ 60"
  shows "\<exists>b'. put_field v b = Some b' \<and> growable b' \<and> content b' = content b @ field_bytes v"
proof (cases v)
  case (F_byte c)
  then show ?thesis using write_grows [of b "[c]"] assms by (auto simp: ob_append_byte_def)
next
  case (F_bytes bs)
  then show ?thesis using write_grows [of b bs] assms by (auto simp: ob_append_bytes_def)
next
  case (F_str s)
  then show ?thesis using write_grows [of b "s @ [0]"] assms by (auto simp: ob_append_str_def ob_append_bytes_def)
next
  case (F_packed64 w)
  then show ?thesis using append_all_grows assms by (simp add: ob_append_packed_ui64_def)
qed (use assms in \<open>simp_all add: u16.put_grows u16_rv.put_grows u32.put_grows u32_rv.put_grows u64.put_grows u64_rv.put_grows packed32.put_grows\<close>)

lemma get_field_reads:
  assumes b: "readable b" and v: "field_ok v" and w: "window b = field_bytes v @ rest"
  shows "get_field (field_kind v) b = Some (v, advance (length (field_bytes v)) b)"
proof (cases v)
  case (F_byte c)
  then show ?thesis using w ob_get_window [OF b] by (simp add: in_field_def)
next
  case (F_bytes bs)
  moreover have "length bs < 2 ^ 62" using length_window [OF b] b w F_bytes by (auto simp: readable_def)
  ultimately show ?thesis using v w b by (simp add: in_field_def ob_get_bytes_def ob_take_window)
next
  case (F_str s)
  then show ?thesis using v w get_str_reads [OF b, of s rest] by (simp add: in_field_def)
next
  case (F_packed64 x)
  then show ?thesis using v w packed_64_reads [OF b] scast_ucast_small [of x] by (simp add: in_field_def)
next
  case (F_packed32 x)
  then show ?thesis using w packed_32_reads [OF b] by (simp add: in_field_def)
qed (use w v b in \<open>simp_all add: in_field_def u16.get_reads [of b _ rest] u16_rv.get_reads [of b _ rest] u32.get_reads [of b _ rest]
    u32_rv.get_reads [of b _ rest] u64.get_reads [of b _ rest] u64_rv.get_reads [of b _ rest]\<close>)

interpretation fields: field_codec field_kind field_bytes field_ok put_field get_field
  by unfold_locales (auto intro!: put_field_grows get_field_reads)

lemma new_growable: "False \<notin> set oks \<Longrightarrow> \<exists>b. ob_new oks = Some b \<and> growable b \<and> content b = []"
  by (cases oks) (auto simp: ob_new_def growable_def content_def split: bool.splits)

text \<open>
  C10. A packet of any fields (bytes, numbers in both byte orders, packed numbers, byte strings and C strings),
  appended one by one to a new buffer while memory lasts, flipped, and read with the matching functions, gives the same
  values in the same order, and nothing is left over. For \<^verbatim>\<open>ob_get_ui64\<close> and the packed 64 bit numbers this is
  for the values that \<open>field_ok\<close> admits.
\<close>

theorem packet_roundtrip:
  assumes "False \<notin> set oks" "\<forall>v \<in> set vs. field_ok v" "length (concat (map field_bytes vs)) < 2 ^ 60"
  shows "\<exists>b b1 b2 b3. ob_new oks = Some b \<and> put_all put_field vs b = Some b1 \<and> ob_flip b1 = Some b2 \<and>
    get_all get_field (map field_kind vs) b2 = Some (vs, b3) \<and> ob_remaining b3 = Some 0"
proof -
  obtain b where "ob_new oks = Some b" "growable b" "content b = []" using new_growable [OF assms(1)] by blast
  then show ?thesis using fields.packet [of b vs] assms by blast
qed

theorem packet_roundtrip_witness:
  "\<exists>b b1 b2 b3. ob_new [True] = Some b \<and> put_all put_field [F_str [72, 105], F_ui16 513, F_packed32 300] b = Some b1 \<and> ob_flip b1 = Some b2 \<and>
    get_all get_field [K_str, K_ui16, K_packed32] b2 = Some ([F_str [72, 105], F_ui16 513, F_packed32 300], b3) \<and> ob_remaining b3 = Some 0"
proof -
  have "length (packed_bytes (300 :: uint32)) \<le> Suc 1" unfolding packed_length by simp
  then show ?thesis using packet_roundtrip [of "[True]" "[F_str [72, 105], F_ui16 513, F_packed32 300]"] by simp
qed

section \<open>Buffers that cannot grow\<close>

definition room :: "overlay_buffer \<Rightarrow> nat" where
  "room b = min (sizeLimit b) (allocSize b)"

definition block :: "overlay_buffer \<Rightarrow> byte list" where
  "block b = (case ob_bytes b of None \<Rightarrow> [] | Some m \<Rightarrow> m)"

definition static :: "overlay_buffer \<Rightarrow> bool" where
  "static b \<longleftrightarrow> ob_bytes b \<noteq> None \<and> \<not> allocated b \<and> length (block b) = allocSize b \<and> allocSize b < 2 ^ 62"

lemma overrun_iff: "static b \<Longrightarrow> ob_overrun b \<longleftrightarrow> ob_position b > room b"
  by (auto simp: ob_overrun_def room_def static_def SIZE_MAX_def)

lemma drop_stored: "at + length bs \<le> k \<Longrightarrow> k \<le> length m \<Longrightarrow> drop k (take at m @ bs @ drop (at + length bs) m) = drop k m"
  by simp

lemma append_static:
  assumes b: "static b" and bs: "bs \<noteq> []" "ob_position b + length bs < 2 ^ 62"
  shows "\<exists>b'. ob_append_bytes bs b = Some b' \<and> static b' \<and> room b' = room b \<and> ob_position b' = ob_position b + length bs \<and>
    drop (room b) (block b') = drop (room b) (block b) \<and>
    (ob_position b + length bs \<le> room b \<longrightarrow> content b' = content b @ bs)"
proof -
  obtain m where m: "ob_bytes b = Some m" "length m = allocSize b" "\<not> allocated b"
    using b by (auto simp: static_def block_def)
  have a: "add_size (ob_position b) (length bs) = ob_position b + length bs" using bs(2) by (simp add: add_size_small)
  let ?p = "ob_position b + length bs"
  show ?thesis
  proof (cases "?p \<le> room b")
    case True
    let ?b = "b\<lparr>ob_bytes := Some (take (ob_position b) m @ bs @ drop ?p m), ob_position := ?p\<rparr>"
    have "ob_append_bytes bs b = Some ?b"
      using True m a bs(1) by (simp add: ob_append_bytes_def ob_write_def ob_makespace_def store_def room_def)
    moreover have "static ?b" "room ?b = room b" "content ?b = content b @ bs"
      using b m True by (simp_all add: static_def block_def room_def content_def)
    moreover have "drop (room b) (block ?b) = drop (room b) (block b)"
      using True m drop_stored [of "ob_position b" bs "room b" m] by (simp add: block_def room_def)
    ultimately show ?thesis by auto
  next
    case False
    have "ob_append_bytes bs b = Some (b\<lparr>ob_position := ?p\<rparr>)"
      using False m a bs(1) by (auto simp: ob_append_bytes_def ob_write_def ob_makespace_def room_def)
    then show ?thesis using b False by (auto simp: static_def room_def block_def)
  qed
qed

text \<open>
  C11. On a buffer that cannot grow, and whatever its limit, any sequence of appends goes through: it ends at the
  position where all the bytes would end. Either that is past the space, and \<^verbatim>\<open>ob_overrun\<close> says so, or the
  contents are the old ones followed by all the new bytes. What is beyond the space is never touched.
\<close>

theorem overrun_detected:
  assumes "static b" "\<not> ob_overrun b" "[] \<notin> set bss" "ob_position b + length (concat bss) < 2 ^ 62"
  shows "\<exists>b'. put_all ob_append_bytes bss b = Some b' \<and> ob_position b' = ob_position b + length (concat bss) \<and>
    ob_overrun b' = (ob_position b + length (concat bss) > room b) \<and> (ob_overrun b' \<or> content b' = content b @ concat bss) \<and>
    drop (room b) (block b') = drop (room b) (block b)"
proof -
  have "\<exists>b'. put_all ob_append_bytes bss b = Some b' \<and> static b' \<and> room b' = room b \<and> ob_position b' = ob_position b + length (concat bss) \<and>
      drop (room b) (block b') = drop (room b) (block b) \<and>
      (ob_position b + length (concat bss) \<le> room b \<longrightarrow> content b' = content b @ concat bss)"
    using assms(1,3,4)
  proof (induction bss arbitrary: b)
    case (Cons bs bss)
    then obtain b1 where b1: "ob_append_bytes bs b = Some b1" "static b1" "room b1 = room b" "ob_position b1 = ob_position b + length bs"
      "drop (room b) (block b1) = drop (room b) (block b)" "ob_position b + length bs \<le> room b \<longrightarrow> content b1 = content b @ bs"
      using append_static [of b bs] by auto
    then show ?case using Cons.IH [of b1] Cons.prems by auto
  qed simp
  then show ?thesis using overrun_iff by (metis not_le)
qed

theorem overrun_detected_witness:
  "\<exists>b b'. ob_static [0, 0, 0, 0] [] = Some b \<and> put_all ob_append_bytes [[1, 2], [3, 4, 5], [6]] b = Some b' \<and> ob_overrun b' \<and>
    ob_position b' = 6"
proof -
  obtain b where b: "ob_static [0, 0, 0, 0] [] = Some b" "static b" "\<not> ob_overrun b" "ob_position b = 0" "room b = 4"
    by (auto simp: ob_static_def static_def ob_overrun_def block_def room_def SIZE_MAX_def)
  then show ?thesis using overrun_detected [of b "[[1, 2], [3, 4, 5], [6]]"] by auto
qed

section \<open>Checkpoints\<close>

lemma write_checkpoint: "ob_write bs b = Some b' \<Longrightarrow> checkpointLength b' = checkpointLength b"
  by (auto simp: ob_write_def ob_makespace_def emalloc_def Let_def split: option.splits if_splits list.splits prod.splits)

lemma append_all_checkpoint: "ob_append_all bs b = Some b' \<Longrightarrow> checkpointLength b' = checkpointLength b"
  by (induction bs arbitrary: b) (auto simp: ob_append_byte_def write_checkpoint split: bind_splits)

lemma put_field_checkpoint: "put_field v b = Some b' \<Longrightarrow> checkpointLength b' = checkpointLength b"
  by (cases v) (auto simp: ob_append_byte_def ob_append_ui16_def ob_append_ui16_rv_def ob_append_ui32_def ob_append_ui32_rv_def
    ob_append_ui64_def ob_append_ui64_rv_def ob_append_packed_ui32_def ob_append_packed_ui64_def ob_append_str_def ob_append_bytes_def
    write_checkpoint append_all_checkpoint split: if_splits)

lemma put_all_checkpoint: "put_all put_field vs b = Some b' \<Longrightarrow> checkpointLength b' = checkpointLength b"
  by (induction vs arbitrary: b) (auto simp: put_field_checkpoint split: bind_splits)

text \<open>
  A checkpoint keeps what was written before it: after any fields have been appended, growing the buffer if
  need be, \<^verbatim>\<open>ob_rewind\<close> gives the contents at the checkpoint, in a buffer that can be written on.
\<close>

theorem rewind_restores:
  assumes b: "growable b" and vs: "\<forall>v \<in> set vs. field_ok v" "ob_position b + length (concat (map field_bytes vs)) < 2 ^ 60"
  shows "\<exists>b'. put_all put_field vs (ob_checkpoint b) = Some b' \<and> content b' = content b @ concat (map field_bytes vs) \<and>
    content (ob_rewind b') = content b \<and> growable (ob_rewind b')"
proof -
  have c: "growable (ob_checkpoint b)" "content (ob_checkpoint b) = content b"
    using b by (auto simp: ob_checkpoint_def growable_def content_def split: option.splits)
  obtain b' where b': "put_all put_field vs (ob_checkpoint b) = Some b'" "growable b'" "content b' = content b @ concat (map field_bytes vs)"
    using fields.put_all_grows [OF c(1) vs(1)] vs(2) c(2) by (auto simp: ob_checkpoint_def)
  have k: "checkpointLength b' = ob_position b" "ob_position b \<le> ob_position b'"
    using put_all_checkpoint [OF b'(1)] growable_position [OF b] growable_position [OF b'(2)] b'(3) by (simp_all add: ob_checkpoint_def)
  have "content (ob_rewind b') = take (ob_position b) (content b')"
    using k by (auto simp: content_def ob_rewind_def min_absorb1 split: option.splits)
  then have "content (ob_rewind b') = content b" using growable_position [OF b] b'(3) by simp
  moreover have "growable (ob_rewind b')" using b'(2) k by (auto simp: growable_def ob_rewind_def split: option.splits)
  ultimately show ?thesis using b' by blast
qed

theorem rewind_restores_witness:
  "\<exists>b b'. ob_new [] = Some b \<and> put_all put_field [F_ui32 7, F_byte 1] (ob_checkpoint b) = Some b' \<and> content (ob_rewind b') = []"
  using new_growable [of "[]"] rewind_restores [of _ "[F_ui32 7, F_byte 1]"] growable_position by fastforce

section \<open>Where reading goes wrong\<close>

lemma appended_window:
  assumes "False \<notin> set oks" "\<And>b. growable b \<Longrightarrow> content b = [] \<Longrightarrow> \<exists>b'. f b = Some b' \<and> growable b' \<and> content b' = bs"
  shows "\<exists>b b1 b2. ob_new oks = Some b \<and> f b = Some b1 \<and> ob_flip b1 = Some b2 \<and> readable b2 \<and> window b2 = bs"
  using new_growable [OF assms(1)] assms(2) flip_readable by metis

text \<open>
  \<^verbatim>\<open>ob_get_ui64\<close> on what \<^verbatim>\<open>ob_append_ui64\<close> wrote gives back the number exactly when \<open>ui64_fits\<close>: if bit 31 is
  clear, bits 32 to 39 must be zero, and if it is set, so must be all the bits above it. The fourth byte is shifted by 36 and
  not by 32, and the last four are combined as a signed \<^verbatim>\<open>int\<close>.
\<close>

theorem ui64_read_back:
  assumes "False \<notin> set oks"
  shows "\<exists>b b1 b2 b3 r. ob_new oks = Some b \<and> ob_append_ui64 v b = Some b1 \<and> ob_flip b1 = Some b2 \<and>
    ob_get_ui64 b2 = Some (r, b3) \<and> (r = v) = ui64_fits v"
proof -
  have step: "\<exists>b'. ob_append_ui64 v b = Some b' \<and> growable b' \<and> content b' = be_bytes 8 v" if "growable b" "content b = []" for b
    using write_grows [of b "be_bytes 8 v"] that growable_position [of b] by (auto simp: ob_append_ui64_def simp flip: length_0_conv)
  obtain b b1 b2 where *: "ob_new oks = Some b" "ob_append_ui64 v b = Some b1" "ob_flip b1 = Some b2" "readable b2" "window b2 = be_bytes 8 v"
    using appended_window [where f = "ob_append_ui64 v", OF assms step] by auto
  then have "ob_get_ui64 b2 = Some (ui64_word (be_bytes 8 v), advance 8 b2)" by (simp add: ob_get_ui64_def ob_take_window)
  then show ?thesis using * ui64_exact by blast
qed

theorem ui64_read_back_witness:
  "\<exists>b b1 b2 b3 r. ob_new [] = Some b \<and> ob_append_ui64 0x100000000 b = Some b1 \<and> ob_flip b1 = Some b2 \<and> ob_get_ui64 b2 = Some (r, b3) \<and>
    r \<noteq> 0x100000000"
proof -
  have "\<not> ui64_fits 0x100000000" by (simp add: ui64_fits_def)
  then show ?thesis using ui64_read_back [of "[]" "0x100000000"] by force
qed

text \<open>
  \<^verbatim>\<open>ob_get_packed_ui64\<close> on what \<^verbatim>\<open>ob_append_packed_ui64\<close> wrote: numbers of 31 bits come back; those up to 35 bits
  are cut to 32 bits and sign-extended, so they do not; and for larger ones the shift is undefined.
\<close>

theorem packed_64_read_back:
  assumes "False \<notin> set oks"
  shows "\<exists>b b1 b2 b3. ob_new oks = Some b \<and> ob_append_packed_ui64 v b = Some b1 \<and> ob_flip b1 = Some b2 \<and>
    ob_get_packed_ui64 b2 = (if drop_bit 35 v = 0 then Some (scast (ucast v :: 32 word), b3) else None) \<and>
    (ob_get_packed_ui64 b2 = Some (v, b3)) = (drop_bit 31 v = 0)"
proof -
  have step: "\<exists>b'. ob_append_packed_ui64 v b = Some b' \<and> growable b' \<and> content b' = packed_bytes v" if "growable b" "content b = []" for b
  proof -
    have "length (packed_bytes v) \<le> Suc 9" unfolding packed_length by (rule bit_word_eqI) (simp add: bit_simps)
    then show ?thesis using append_all_grows [of b "packed_bytes v"] that growable_position [of b] by (auto simp: ob_append_packed_ui64_def)
  qed
  obtain b b1 b2 where *: "ob_new oks = Some b" "ob_append_packed_ui64 v b = Some b1" "ob_flip b1 = Some b2" "readable b2"
      "window b2 = packed_bytes v"
    using appended_window [where f = "ob_append_packed_ui64 v", OF assms step] by auto
  have "ob_get_packed_ui64 b2 = (if drop_bit 35 v = 0 then Some (scast (ucast v :: 32 word), advance (length (packed_bytes v)) b2) else None)"
    using packed_64_reads [of b2 v "[]"] * by simp
  then show ?thesis using * scast_ucast_small [of v] by auto
qed

theorem packed_64_read_back_witness:
  "\<exists>b b1 b2. ob_new [] = Some b \<and> ob_append_packed_ui64 0x80000000 b = Some b1 \<and> ob_flip b1 = Some b2 \<and>
    (\<exists>b3. ob_get_packed_ui64 b2 = Some (0xFFFFFFFF80000000, b3))"
  using packed_64_read_back [of "[]" "0x80000000"] by force

text \<open>
  \<^verbatim>\<open>ob_get_str_ptr\<close> without a NUL before the limit looks at the byte after it: outside the block if the limit is its
  end, and else that byte decides; when it is zero, the position is left beyond the limit.
\<close>

theorem str_ptr_overread:
  assumes b: "readable b" "ob_bytes b = Some m" and w: "0 \<notin> set (window b)"
  shows "ob_get_str_ptr b =
    (if sizeLimit b = allocSize b then None
     else if m ! sizeLimit b = 0 then Some (Some (ob_position b), b\<lparr>ob_position := sizeLimit b + 1\<rparr>) else Some (None, b))"
proof -
  have "str_search 0 b = str_search (length (window b)) b" using w by (intro str_search_skip [OF b(1)]) (auto simp: in_set_conv_nth)
  moreover have "add_size (ob_position b) (length (window b) + 1) = sizeLimit b + 1"
    using length_window [OF b(1)] b(1) by (subst add_size_small) (auto simp: readable_def)
  ultimately show ?thesis using str_search_end [OF b] by (simp add: ob_get_str_ptr_def)
qed

theorem str_ptr_overread_witness:
  "\<exists>b. Option.bind (ob_static [72, 105, 0] []) (ob_limitsize 2) = Some b \<and>
    ob_get_str_ptr b = Some (Some 0, b\<lparr>ob_position := 3\<rparr>)"
proof -
  obtain b where b: "Option.bind (ob_static [72, 105, 0] []) (ob_limitsize 2) = Some b" "readable b" "ob_bytes b = Some [72, 105, 0]"
    "sizeLimit b = 2" "allocSize b = 3" "ob_position b = 0" "0 \<notin> set (window b)"
    by (simp add: ob_static_def ob_limitsize_def readable_def window_def SIZE_MAX_def)
  then show ?thesis using str_ptr_overread [of b] by simp
qed

text \<open>
  \<^verbatim>\<open>ob_dup\<close> of a buffer that has been written to stops the program: the copy has the position already, but no
  block, when the bytes are appended to it, and \<^verbatim>\<open>ob_makespace\<close> asserts that there is one.
\<close>

theorem dup_aborts:
  assumes "growable b" "content b \<noteq> []"
  shows "ob_dup b = None"
proof -
  obtain oks where "emalloc b = (True, b\<lparr>ob_allocs := oks\<rparr>)" using emalloc_grows [of b] assms(1) by (auto simp: growable_def)
  moreover obtain m where "ob_bytes b = Some m" "length m = allocSize b" "ob_position b \<le> allocSize b" "ob_position b \<noteq> 0" "sizeLimit b = SIZE_MAX"
    using assms by (auto simp: growable_def content_def split: option.splits)
  ultimately show ?thesis
    by (auto simp: ob_dup_def ob_append_bytes_def ob_write_def ob_makespace_def min_def)
qed

theorem dup_aborts_witness: "\<exists>b b'. ob_new [] = Some b \<and> ob_append_byte 5 b = Some b' \<and> ob_dup b' = None"
proof -
  obtain b where b: "ob_new [] = Some b" "growable b" "content b = []" using new_growable [of "[]"] by auto
  then obtain b' where "ob_append_byte 5 b = Some b'" "growable b'" "content b' = [5]"
    using write_grows [of b "[5]"] growable_position [of b] by (auto simp: ob_append_byte_def)
  then show ?thesis using dup_aborts [of b'] b(1) by auto
qed

end
