(* ===== verification/Serval_Tree.thy ===== *)
theory Serval_Tree
  imports Prelude "HOL-Library.List_Lexorder"
begin

unbundle bit_operations_syntax

text \<open>
  The index of the mesh daemon's subscribers, \<^verbatim>\<open>servald/serval-dna-development/nibble_tree.c\<close>: a tree that
  branches on the four-bit digits of a key and holds each record at the first level where it is alone. A node is
  its sixteen slots; a slot is empty, a record or a subtree (the bit in \<^verbatim>\<open>is_tree\<close>). Records are extensible, as the
  C code lets every structure that starts like \<^verbatim>\<open>struct tree_record\<close> be one. \<open>None\<close> is a failed assertion or a read
  outside a key. Lists of truth values are the outcomes of coming allocations (when used up, they succeed).
\<close>

section \<open>Data\<close>

record tree_record =
  tree_depth :: nat
  rec_binary :: "byte list"

datatype 'a slot = Free | Record "'a tree_record_scheme" | Subtree "'a slot list"

type_synonym 'a tree_node = "'a slot list"

record 'a tree_root =
  binary_length :: nat
  root_node :: "'a tree_node"

datatype tree_error_reason = TREE_NOT_UNIQUE | TREE_NOT_FOUND | TREE_ERROR | TREE_FOUND

definition empty_node :: "'a tree_node" where
  "empty_node = replicate 16 Free"

definition tree_new :: "nat \<Rightarrow> 'a tree_root" where
  "tree_new len = \<lparr>binary_length = len, root_node = empty_node\<rparr>"

definition alloc :: "bool list \<Rightarrow> bool \<times> bool list" where
  "alloc oks = (case oks of [] \<Rightarrow> (True, []) | ok # rest \<Rightarrow> (ok, rest))"

section \<open>Operations\<close>

definition get_nibble :: "byte list \<Rightarrow> nat \<Rightarrow> nat option" where
  "get_nibble binary pos =
     (if pos div 2 < length binary
      then Some (let b = binary ! (pos div 2) in unat ((if pos mod 2 = 0 then drop_bit 4 b else b) AND 0xF))
      else None)"

type_synonym 'a create_callback = "byte list \<Rightarrow> bool list \<Rightarrow> 'a tree_record_scheme option \<times> bool list"

type_synonym 'a found = "tree_error_reason \<times> 'a tree_record_scheme option \<times> 'a tree_node \<times> bool list"

definition into :: "'a tree_node \<Rightarrow> nat \<Rightarrow> 'a found option \<Rightarrow> 'a found option" where
  "into node n = map_option (\<lambda>(res, r, sub, oks). (res, r, node[n := Subtree sub], oks))"

function find_loop :: "nat \<Rightarrow> 'a create_callback option \<Rightarrow> byte list \<Rightarrow> nat \<Rightarrow> 'a tree_node \<Rightarrow> bool list \<Rightarrow> 'a found option" where
  "find_loop len create binary pos node oks =
     (if pos div 2 \<ge> length binary then Some (TREE_NOT_UNIQUE, None, node, oks)
      else case get_nibble binary pos of
        None \<Rightarrow> None
      | Some n \<Rightarrow>
          (case node ! n of
             Subtree sub \<Rightarrow> into node n (find_loop len create binary (pos + 1) sub oks)
           | Free \<Rightarrow>
               (case create of
                  None \<Rightarrow> Some (TREE_NOT_FOUND, None, node, oks)
                | Some create_node \<Rightarrow>
                    if length binary = len then
                      (case create_node binary oks of
                         (None, oks) \<Rightarrow> Some (TREE_ERROR, None, node, oks)
                       | (Some r, oks) \<Rightarrow>
                           let r = r\<lparr>tree_depth := (pos + 1) * 4\<rparr> in Some (TREE_FOUND, Some r, node[n := Record r], oks))
                    else Some (TREE_NOT_FOUND, None, node, oks))
           | Record r \<Rightarrow>
               if take (length binary) (rec_binary r) = binary then Some (TREE_FOUND, Some r, node, oks)
               else
                 (case create of
                    None \<Rightarrow> Some (TREE_NOT_FOUND, None, node, oks)
                  | Some _ \<Rightarrow>
                      (case alloc oks of
                         (False, oks) \<Rightarrow> Some (TREE_ERROR, None, node, oks)
                       | (True, oks) \<Rightarrow>
                           (case get_nibble (rec_binary r) (pos + 1) of
                              None \<Rightarrow> None
                            | Some k \<Rightarrow> into node n (find_loop len create binary (pos + 1)
                                (empty_node[k := Record (r\<lparr>tree_depth := (pos + 2) * 4\<rparr>)]) oks))))))"
  by pat_completeness auto
termination
  by (relation "measure (\<lambda>(len, create, binary, pos, node, oks). 2 * length binary - pos)") auto

declare find_loop.simps [simp del]

definition tree_find :: "'a tree_root \<Rightarrow> byte list \<Rightarrow> 'a create_callback option \<Rightarrow> bool list \<Rightarrow>
    (tree_error_reason \<times> 'a tree_record_scheme option \<times> 'a tree_root \<times> bool list) option" where
  "tree_find root binary create oks =
     (if length binary \<le> binary_length root
      then map_option (\<lambda>(res, r, node, oks). (res, r, root\<lparr>root_node := node\<rparr>, oks))
             (find_loop (binary_length root) create binary 0 (root_node root) oks)
      else None)"

text \<open>
  A walk calls the callback on each record; it may take the record out, change the context, and stop the walk
  with a result other than 0. The walk also says whether the node is empty and is to be freed.
\<close>

type_synonym ('a, 'c) walk_callback = "'a tree_record_scheme \<Rightarrow> 'c \<Rightarrow> 'a tree_record_scheme option \<times> int \<times> 'c"

fun occupied :: "'a slot \<Rightarrow> bool" where
  "occupied Free = False"
| "occupied _ = True"

text \<open>
  The slots of a node in turn. The first loop, over the slots before the digit of the start, stops at the first
  slot that is taken, and the second loop goes on from there; it follows the start into the first slot it looks at.
\<close>

fun walk_slot :: "('a, 'c) walk_callback \<Rightarrow> nat \<Rightarrow> byte list option \<Rightarrow> 'a slot \<Rightarrow> 'c \<Rightarrow> (int \<times> 'a slot \<times> 'c) option"
and walk_from :: "('a, 'c) walk_callback \<Rightarrow> nat \<Rightarrow> byte list option \<Rightarrow> nat \<Rightarrow> bool \<Rightarrow> 'a slot list \<Rightarrow> 'c \<Rightarrow>
    (int \<times> bool \<times> 'a slot list \<times> 'c) option" where
  "walk_slot cb pos start Free c = Some (0, Free, c)"
| "walk_slot cb pos start (Record r) c =
     (case cb r c of (r', ret, c) \<Rightarrow> Some (ret, (case r' of None \<Rightarrow> Free | Some r \<Rightarrow> Record r), c))"
| "walk_slot cb pos start (Subtree ns) c =
     map_option (\<lambda>(ret, emp, ns, c). (ret, if emp then Free else Subtree ns, c))
       (case start of
          None \<Rightarrow> walk_from cb (pos + 1) None 0 True ns c
        | Some binary \<Rightarrow>
            if (pos + 1) * 2 < length binary
            then (case get_nibble binary (pos + 1) of None \<Rightarrow> None | Some n \<Rightarrow> walk_from cb (pos + 1) (Some binary) n True ns c)
            else None)"
| "walk_from cb pos start skip emp [] c = Some (0, emp, [], c)"
| "walk_from cb pos start skip emp (s # ss) c =
     (if skip > 0 \<and> \<not> occupied s
      then map_option (\<lambda>(ret, emp, ss, c). (ret, emp, s # ss, c)) (walk_from cb pos start (skip - 1) emp ss c)
      else case walk_slot cb pos start s c of
        None \<Rightarrow> None
      | Some (ret, s, c) \<Rightarrow>
          let emp = (emp \<and> skip = 0) in
          if ret \<noteq> 0 then Some (ret, emp, s # ss, c)
          else map_option (\<lambda>(ret, emp, ss, c). (ret, emp, s # ss, c)) (walk_from cb pos None 0 (emp \<and> \<not> occupied s) ss c))"

definition walk :: "('a, 'c) walk_callback \<Rightarrow> nat \<Rightarrow> byte list option \<Rightarrow> 'a tree_node \<Rightarrow> 'c \<Rightarrow> (int \<times> bool \<times> 'a tree_node \<times> 'c) option" where
  "walk cb pos start ns c =
     (case start of
        None \<Rightarrow> walk_from cb pos None 0 True ns c
      | Some binary \<Rightarrow>
          if pos * 2 < length binary
          then (case get_nibble binary pos of None \<Rightarrow> None | Some n \<Rightarrow> walk_from cb pos (Some binary) n True ns c)
          else None)"

definition tree_walk :: "'a tree_root \<Rightarrow> byte list option \<Rightarrow> ('a, 'c) walk_callback \<Rightarrow> 'c \<Rightarrow> (int \<times> 'a tree_root \<times> 'c) option" where
  "tree_walk root start cb c =
     (if (case start of None \<Rightarrow> True | Some binary \<Rightarrow> length binary \<le> binary_length root)
      then map_option (\<lambda>(ret, emp, ns, c). (ret, root\<lparr>root_node := ns\<rparr>, c)) (walk cb 0 start (root_node root) c)
      else None)"

text \<open>The subtree below a prefix, or the one record that matches it.\<close>

function walk_prefix :: "('a, 'c) walk_callback \<Rightarrow> byte list \<Rightarrow> nat \<Rightarrow> 'a tree_node \<Rightarrow> 'c \<Rightarrow> (int \<times> 'a tree_node \<times> 'c) option" where
  "walk_prefix cb binary pos node c =
     (if pos < length binary * 2
      then (case get_nibble binary pos of
          None \<Rightarrow> None
        | Some i \<Rightarrow>
            (case node ! i of
               Subtree sub \<Rightarrow> map_option (\<lambda>(ret, sub, c). (ret, node[i := Subtree sub], c)) (walk_prefix cb binary (pos + 1) sub c)
             | Record r \<Rightarrow>
                 if take (length binary) (rec_binary r) = binary
                 then map_option (\<lambda>(ret, s, c). (ret, node[i := s], c)) (walk_slot cb pos None (Record r) c)
                 else Some (0, node, c)
             | Free \<Rightarrow> Some (0, node, c)))
      else map_option (\<lambda>(ret, emp, ns, c). (ret, ns, c)) (walk cb (pos + 1) None node c))"
  by pat_completeness auto
termination
  by (relation "measure (\<lambda>(cb, binary, pos, node, c). length binary * 2 - pos)") auto

declare walk_prefix.simps [simp del]

definition tree_walk_prefix :: "'a tree_root \<Rightarrow> byte list \<Rightarrow> ('a, 'c) walk_callback \<Rightarrow> 'c \<Rightarrow> (int \<times> 'a tree_root \<times> 'c) option" where
  "tree_walk_prefix root binary cb c =
     (if length binary \<le> binary_length root
      then map_option (\<lambda>(ret, ns, c). (ret, root\<lparr>root_node := ns\<rparr>, c)) (walk_prefix cb binary 0 (root_node root) c) else None)"

end
