(* ===== verification/Serval_Index.thy ===== *)
theory Serval_Index
  imports Serval_Tree
begin

unbundle bit_operations_syntax

text \<open>
  The tree of \<open>Serval_Tree\<close> as a map from keys to records: its invariant, what a search finds, and what an
  insertion changes.
\<close>

section \<open>Digits\<close>

definition nibs :: "byte list \<Rightarrow> nat list" where
  "nibs bs = concat (map (\<lambda>b. [unat (drop_bit 4 b AND 0xF), unat (b AND 0xF)]) bs)"

lemma nibs_simps [simp]: "nibs [] = []" "nibs (b # bs) = unat (drop_bit 4 b AND 0xF) # unat (b AND 0xF) # nibs bs"
  by (simp_all add: nibs_def)

lemma length_nibs [simp]: "length (nibs bs) = 2 * length bs"
  by (induction bs) simp_all

lemma get_nibble_nibs: "get_nibble bs pos = (if pos < 2 * length bs then Some (nibs bs ! pos) else None)"
proof (induction bs arbitrary: pos)
  case (Cons b bs)
  consider "pos = 0" | "pos = 1" | k where "pos = Suc (Suc k)" by (metis One_nat_def nat.exhaust)
  then show ?case
  proof cases
    case 3
    then show ?thesis using Cons.IH [of k] by (simp add: get_nibble_def split: if_splits)
  qed (simp_all add: get_nibble_def)
qed (simp add: get_nibble_def)

lemma byte_nibbles: "unat (drop_bit 4 b AND 0xF) = unat (drop_bit 4 c AND 0xF) \<Longrightarrow> unat (b AND 0xF) = unat (c AND 0xF) \<Longrightarrow> b = (c :: byte)"
proof -
  assume "unat (drop_bit 4 b AND 0xF) = unat (drop_bit 4 c AND 0xF)" "unat (b AND 0xF) = unat (c AND 0xF)"
  then have "drop_bit 4 b AND 0xF = drop_bit 4 c AND 0xF" "b AND 0xF = c AND 0xF"
    by (simp_all only: word_unat_eq_iff)
  then have "drop_bit 4 b AND mask 4 = drop_bit 4 c AND mask 4" "b AND mask 4 = c AND mask 4"
    by (simp_all add: mask_eq_exp_minus_1)
  then have h: "take_bit 4 (drop_bit 4 b) = take_bit 4 (drop_bit 4 c)" "take_bit 4 b = take_bit 4 c"
    by (simp_all add: take_bit_eq_mask)
  show "b = c"
  proof (rule bit_word_eqI)
    fix n
    assume n: "n < LENGTH(8)"
    have "bit (take_bit 4 (drop_bit 4 b)) (n - 4) = bit (take_bit 4 (drop_bit 4 c)) (n - 4)" "bit (take_bit 4 b) n = bit (take_bit 4 c) n"
      by (simp_all only: h)
    then show "bit b n = bit c n" using n by (cases "n < 4") (auto simp: bit_simps)
  qed
qed

lemma nibs_inj: "nibs bs = nibs cs \<Longrightarrow> bs = cs"
proof (induction bs arbitrary: cs)
  case Nil
  then show ?case by (cases cs) simp_all
next
  case (Cons b bs)
  then show ?case by (cases cs) (auto dest: byte_nibbles)
qed

lemma nibs_take: "nibs (take n bs) = take (2 * n) (nibs bs)"
proof (induction n arbitrary: bs)
  case (Suc n)
  then show ?case by (cases bs) simp_all
qed simp

lemma nibs_lt_16: "d \<in> set (nibs bs) \<Longrightarrow> d < 16"
proof -
  have "unat (x AND 0xF) < 16" for x :: byte
  proof -
    have "x AND 0xF \<le> 0xF" by (rule word_and_le1)
    then show ?thesis by (simp add: word_le_nat_alt)
  qed
  then show "d \<in> set (nibs bs) \<Longrightarrow> d < 16" by (auto simp: nibs_def)
qed

lemma nib_lt_16 [simp]: "i < 2 * length bs \<Longrightarrow> nibs bs ! i < 16"
  by (rule nibs_lt_16 [of _ bs]) simp

text \<open>A key that starts with others.\<close>

definition starts :: "byte list \<Rightarrow> 'a tree_record_scheme \<Rightarrow> bool" where
  "starts binary r \<longleftrightarrow> take (length binary) (rec_binary r) = binary"

lemma starts_nibs: "starts binary r \<longleftrightarrow> take (2 * length binary) (nibs (rec_binary r)) = nibs binary"
  unfolding starts_def using nibs_take [of "length binary" "rec_binary r"] nibs_inj by metis

section \<open>Invariant\<close>

inductive wf_slot :: "nat \<Rightarrow> nat list \<Rightarrow> 'a slot \<Rightarrow> bool" for len where
  wf_Free: "wf_slot len path Free"
| wf_Record: "length (rec_binary r) = len \<Longrightarrow> take (length path) (nibs (rec_binary r)) = path \<Longrightarrow> length path \<le> 2 * len \<Longrightarrow>
    tree_depth r = 4 * length path \<Longrightarrow> wf_slot len path (Record r)"
| wf_Subtree: "length ns = 16 \<Longrightarrow> length path < 2 * len \<Longrightarrow> (\<And>i. i < 16 \<Longrightarrow> wf_slot len (path @ [i]) (ns ! i)) \<Longrightarrow> wf_slot len path (Subtree ns)"

inductive_simps wf_slot_simps: "wf_slot len path Free" "wf_slot len path (Record r)" "wf_slot len path (Subtree ns)"

primrec recs :: "'a slot \<Rightarrow> 'a tree_record_scheme list" where
  "recs Free = []"
| "recs (Record r) = [r]"
| "recs (Subtree ns) = concat (map recs ns)"

definition records :: "'a tree_node \<Rightarrow> 'a tree_record_scheme set" where
  "records ns = set (recs (Subtree ns))"

lemma records_nth: "length ns = 16 \<Longrightarrow> r \<in> records ns \<longleftrightarrow> (\<exists>i < 16. r \<in> set (recs (ns ! i)))"
  by (force simp: records_def in_set_conv_nth [of _ ns])

lemma records_update:
  "length ns = 16 \<Longrightarrow> n < 16 \<Longrightarrow> r \<in> records (ns[n := s]) \<longleftrightarrow> r \<in> set (recs s) \<or> (\<exists>i < 16. i \<noteq> n \<and> r \<in> set (recs (ns ! i)))"
  by (auto simp: records_nth nth_list_update split: if_splits)

lemma wf_recs:
  "wf_slot len path s \<Longrightarrow> r \<in> set (recs s) \<Longrightarrow> length (rec_binary r) = len \<and> take (length path) (nibs (rec_binary r)) = path \<and>
    length path \<le> 2 * len"
proof (induction rule: wf_slot.induct)
  case (wf_Subtree ns path)
  then obtain i where i: "i < 16" "r \<in> set (recs (ns ! i))" using records_nth [of ns r] by (auto simp: records_def)
  then have *: "length (rec_binary r) = len" "take (Suc (length path)) (nibs (rec_binary r)) = path @ [i]" "Suc (length path) \<le> 2 * len"
    using wf_Subtree by auto
  then have "take (length path) (take (Suc (length path)) (nibs (rec_binary r))) = path" by simp
  then show ?case unfolding take_take using * by (simp add: min_absorb1)
qed auto

lemma wf_nibble:
  assumes "length ns = 16" "\<And>i. i < 16 \<Longrightarrow> wf_slot len (path @ [i]) (ns ! i)" "i < 16" "r \<in> set (recs (ns ! i))"
  shows "nibs (rec_binary r) ! length path = i" "length path < 2 * len" "length (rec_binary r) = len"
proof -
  have *: "length (rec_binary r) = len \<and> take (length (path @ [i])) (nibs (rec_binary r)) = path @ [i] \<and> length (path @ [i]) \<le> 2 * len"
    using assms wf_recs by blast
  then have "take (Suc (length path)) (nibs (rec_binary r)) ! length path = i" by simp
  then show "nibs (rec_binary r) ! length path = i" "length path < 2 * len" "length (rec_binary r) = len" using * by simp_all
qed

abbreviation wf_node :: "nat \<Rightarrow> nat list \<Rightarrow> 'a tree_node \<Rightarrow> bool" where
  "wf_node len path ns \<equiv> wf_slot len path (Subtree ns)"

text \<open>Records that match a key are in the slot of its next digit.\<close>

lemma starts_in_slot:
  assumes wf: "wf_node len path ns" and bin: "length path < 2 * length binary"
  shows "{r \<in> records ns. starts binary r} = {r \<in> set (recs (ns ! (nibs binary ! length path))). starts binary r}"
proof -
  have n: "nibs binary ! length path < 16" using bin by simp
  have "i = nibs binary ! length path" if "i < 16" "r \<in> set (recs (ns ! i))" "starts binary r" for i r
  proof -
    have "nibs (rec_binary r) ! length path = i" using wf that by (auto simp: wf_slot_simps intro: wf_nibble)
    moreover have "take (2 * length binary) (nibs (rec_binary r)) ! length path = nibs (rec_binary r) ! length path" using bin by simp
    ultimately show ?thesis using that(3) by (simp add: starts_nibs)
  qed
  then show ?thesis using n records_nth [of ns] wf by (auto simp: wf_slot_simps)
qed

section \<open>Searching\<close>

text \<open>While memory lasts, subtrees are made for two records or more.\<close>

definition lone :: "'a slot \<Rightarrow> bool" where
  "lone s \<longleftrightarrow> (case s of Subtree _ \<Rightarrow> card (rec_binary ` set (recs s)) < 2 | _ \<Rightarrow> False)"

primrec crowded :: "'a slot \<Rightarrow> bool" where
  "crowded Free = True"
| "crowded (Record r) = True"
| "crowded (Subtree ns) = ((\<forall>s \<in> set ns. \<not> lone s) \<and> list_all id (map crowded ns))"

lemma crowded_nth: "crowded (Subtree ns) \<Longrightarrow> i < length ns \<Longrightarrow> crowded (ns ! i) \<and> \<not> lone (ns ! i)"
  by (simp add: list_all_length)

definition matching :: "byte list \<Rightarrow> 'a tree_node \<Rightarrow> 'a tree_record_scheme set" where
  "matching binary ns = {r \<in> records ns. starts binary r}"

lemma matching_all: "wf_node len (nibs binary) ns \<Longrightarrow> matching binary ns = records ns"
  using wf_recs [of len "nibs binary" "Subtree ns"] by (auto simp: matching_def records_def starts_nibs)

text \<open>
  A search for a key or the start of one, without a constructor: it finds the only record that matches, or says that none
  does, or that the digits ran out; then there are two at least.
\<close>

definition search_result :: "byte list \<Rightarrow> 'a tree_node \<Rightarrow> tree_error_reason \<Rightarrow> 'a tree_record_scheme option \<Rightarrow> bool" where
  "search_result binary ns res r \<longleftrightarrow>
     (case res of
        TREE_FOUND \<Rightarrow> (\<exists>x. r = Some x \<and> matching binary ns = {x})
      | TREE_NOT_FOUND \<Rightarrow> r = None \<and> matching binary ns = {}
      | TREE_NOT_UNIQUE \<Rightarrow> r = None \<and> (crowded (Subtree ns) \<longrightarrow> 2 \<le> card (rec_binary ` matching binary ns))
      | TREE_ERROR \<Rightarrow> False)"

lemma find_loop_search:
  assumes "wf_node len path ns" "take (length path) (nibs binary) = path" "length path < 2 * length binary" "length binary \<le> len"
  shows "\<exists>res r. find_loop len None binary (length path) ns oks = Some (res, r, ns, oks) \<and> search_result binary ns res r"
  using assms
proof (induction "2 * length binary - length path" arbitrary: path ns rule: less_induct)
  case less
  let ?n = "nibs binary ! length path"
  have n: "?n < 16" "length path div 2 < length binary" "get_nibble binary (length path) = Some ?n"
    using less.prems(3) by (simp_all add: get_nibble_nibs)
  have ns: "length ns = 16" "wf_slot len (path @ [?n]) (ns ! ?n)" using less.prems(1) n(1) by (auto simp: wf_slot_simps)
  have m: "matching binary ns = {r \<in> set (recs (ns ! ?n)). starts binary r}"
    unfolding matching_def by (rule starts_in_slot [OF less.prems(1,3)])
  have path': "take (Suc (length path)) (nibs binary) = path @ [?n]"
    using less.prems(2,3) by (simp add: take_Suc_conv_app_nth)
  show ?case
  proof (cases "ns ! ?n")
    case Free
    then show ?thesis using n m by (subst find_loop.simps) (simp add: search_result_def)
  next
    case (Record x)
    then show ?thesis using n m by (subst find_loop.simps) (auto simp: search_result_def starts_def)
  next
    case (Subtree ms)
    have m': "matching binary ns = matching binary ms" using m Subtree by (simp add: matching_def records_def)
    have c: "crowded (Subtree ns) \<Longrightarrow> crowded (Subtree ms) \<and> 2 \<le> card (rec_binary ` records ms)"
      using crowded_nth [of ns ?n] ns(1) n(1) Subtree by (auto simp: lone_def records_def)
    have "\<exists>res r. find_loop len None binary (Suc (length path)) ms oks = Some (res, r, ms, oks) \<and>
        (search_result binary ms res r \<or> res = TREE_NOT_UNIQUE \<and> r = None \<and> matching binary ms = records ms)"
    proof (cases "Suc (length path) < 2 * length binary")
      case True
      then have lt: "2 * length binary - length (path @ [?n]) < 2 * length binary - length path" by simp
      show ?thesis using less.hyps [OF lt, of ms] less.prems(4) path' ns(2) Subtree True by auto
    next
      case False
      then have e: "Suc (length path) = 2 * length binary" using less.prems(3) by simp
      then have "path @ [?n] = nibs binary" using path' by simp
      then have "matching binary ms = records ms" using matching_all ns(2) Subtree by metis
      then show ?thesis using e by (subst find_loop.simps) simp
    qed
    then obtain res r where f: "find_loop len None binary (Suc (length path)) ms oks = Some (res, r, ms, oks)"
      "search_result binary ms res r \<or> res = TREE_NOT_UNIQUE \<and> r = None \<and> matching binary ms = records ms" by blast
    then have "find_loop len None binary (length path) ns oks = Some (res, r, ns[?n := Subtree ms], oks)"
      using n Subtree by (subst find_loop.simps) (simp add: into_def)
    moreover have "ns[?n := Subtree ms] = ns" using Subtree by (metis list_update_id)
    moreover have "search_result binary ns res r"
      using f(2) c unfolding search_result_def m' by (cases res) auto
    ultimately show ?thesis by auto
  qed
qed

section \<open>Inserting\<close>

text \<open>What a constructor of records must do, and what a record is apart from its depth.\<close>

definition creates :: "'a create_callback \<Rightarrow> bool" where
  "creates f \<longleftrightarrow> (\<forall>binary oks r oks'. f binary oks = (Some r, oks') \<longrightarrow> rec_binary r = binary)"

definition strip :: "'a tree_record_scheme \<Rightarrow> 'a tree_record_scheme" where
  "strip r = r\<lparr>tree_depth := 0\<rparr>"

lemma strip_simps [simp]: "rec_binary (strip r) = rec_binary r" "strip (r\<lparr>tree_depth := d\<rparr>) = strip r"
  by (simp_all add: strip_def)

definition insert_result :: "byte list \<Rightarrow> 'a tree_node \<Rightarrow> tree_error_reason \<Rightarrow> 'a tree_record_scheme option \<Rightarrow> 'a tree_node \<Rightarrow> bool" where
  "insert_result binary ns res r ns' \<longleftrightarrow>
     (res = TREE_FOUND \<and> (\<exists>x. r = Some x \<and> rec_binary x = binary \<and> x \<in> records ns' \<and>
        strip ` records ns' = insert (strip x) (strip ` records ns) \<and> (crowded (Subtree ns) \<longrightarrow> crowded (Subtree ns')) \<and>
        (binary \<in> rec_binary ` records ns \<longrightarrow> ns' = ns))) \<or>
     (res = TREE_ERROR \<and> r = None \<and> binary \<notin> rec_binary ` records ns \<and> strip ` records ns' = strip ` records ns)"

lemma keys_strip: "rec_binary ` A = rec_binary ` strip ` A"
  by (simp add: image_image)

lemma wf_update:
  assumes "wf_node len path ns" "n < 16" "wf_slot len (path @ [n]) s"
  shows "wf_node len path (ns[n := s])"
  using assms by (auto simp: wf_slot_simps nth_list_update)

lemma key_in_slot:
  assumes "wf_node len path ns" "length path < 2 * length binary" "length binary = len"
  shows "binary \<in> rec_binary ` records ns \<longleftrightarrow> binary \<in> rec_binary ` set (recs (ns ! (nibs binary ! length path)))"
proof -
  have "starts binary r \<longleftrightarrow> rec_binary r = binary" if "r \<in> records ns" for r
    using wf_recs [OF assms(1)] that assms(3) by (auto simp: starts_def records_def)
  moreover have "starts binary r \<longleftrightarrow> rec_binary r = binary" if "r \<in> set (recs (ns ! (nibs binary ! length path)))" for r
  proof -
    have "wf_slot len (path @ [nibs binary ! length path]) (ns ! (nibs binary ! length path))"
      using assms by (simp add: wf_slot_simps)
    then have "length (rec_binary r) = len" using wf_recs that by blast
    then show ?thesis using assms(3) by (auto simp: starts_def)
  qed
  ultimately show ?thesis using starts_in_slot [OF assms(1,2)] by blast
qed

text \<open>Replacing what is in the slot of the key.\<close>

lemma insert_result_slot:
  assumes ns: "length ns = 16" "n < 16"
    and key: "binary \<in> rec_binary ` records ns \<longleftrightarrow> binary \<in> rec_binary ` set (recs (ns ! n))"
    and new: "res = TREE_FOUND \<and> (\<exists>x. r = Some x \<and> rec_binary x = binary \<and> x \<in> set (recs s) \<and>
        strip ` set (recs s) = insert (strip x) (strip ` set (recs (ns ! n))) \<and>
        (crowded (ns ! n) \<and> \<not> lone (ns ! n) \<longrightarrow> crowded s \<and> \<not> lone s) \<and>
        (binary \<in> rec_binary ` set (recs (ns ! n)) \<longrightarrow> s = ns ! n)) \<or>
      res = TREE_ERROR \<and> r = None \<and> binary \<notin> rec_binary ` set (recs (ns ! n)) \<and> strip ` set (recs s) = strip ` set (recs (ns ! n))"
  shows "insert_result binary ns res r (ns[n := s])"
proof -
  let ?o = "{r. \<exists>i < 16. i \<noteq> n \<and> r \<in> set (recs (ns ! i))}"
  have a: "records (ns[n := s]) = set (recs s) \<union> ?o" using records_update [OF ns] by auto
  have b: "records ns = set (recs (ns ! n)) \<union> ?o" using records_nth [OF ns(1)] ns(2) by auto
  have c: "crowded (Subtree ns) \<Longrightarrow> crowded s \<and> \<not> lone s \<Longrightarrow> crowded (Subtree (ns[n := s]))"
    using ns by (auto simp: list_all_length nth_list_update in_set_conv_nth [of _ "ns[n := s]"] split: if_splits)
  show ?thesis
    using new
  proof (elim disjE conjE exE)
    fix x
    assume "res = TREE_FOUND" "r = Some x" "rec_binary x = binary" "x \<in> set (recs s)"
      "strip ` set (recs s) = insert (strip x) (strip ` set (recs (ns ! n)))"
      "crowded (ns ! n) \<and> \<not> lone (ns ! n) \<longrightarrow> crowded s \<and> \<not> lone s" "binary \<in> rec_binary ` set (recs (ns ! n)) \<longrightarrow> s = ns ! n"
    then show ?thesis
      unfolding insert_result_def key using c crowded_nth [of ns n] ns by (auto simp: a b image_Un)
  qed (simp add: insert_result_def key, simp add: a b image_Un)
qed

text \<open>Two different keys that agree so far have a further digit.\<close>

lemma more_digits:
  assumes "take (length path) (nibs a) = path" "take (length path) (nibs b) = path" "length a = len" "length b = len"
    "a \<noteq> b" "length path \<le> 2 * len"
  shows "length path < 2 * len"
proof (rule ccontr)
  assume "\<not> length path < 2 * len"
  then have "nibs a = path" "nibs b = path" using assms by simp_all
  then show False using nibs_inj assms(5) by blast
qed

lemma keys_result: "insert_result binary ms TREE_FOUND r ms' \<Longrightarrow> rec_binary ` records ms' = insert binary (rec_binary ` records ms)"
proof -
  assume "insert_result binary ms TREE_FOUND r ms'"
  then obtain x where x: "rec_binary x = binary" "strip ` records ms' = insert (strip x) (strip ` records ms)"
    unfolding insert_result_def by blast
  have "rec_binary ` strip ` records ms' = insert binary (rec_binary ` strip ` records ms)" unfolding x(2) using x(1) by simp
  then show ?thesis by (simp only: keys_strip [symmetric])
qed

lemma finite_records [simp]: "finite (records ns)"
  by (simp add: records_def)

text \<open>An insertion into a subtree in the slot of the key, which is there already or made for the record found there.\<close>

lemma insert_result_down:
  assumes ns: "length ns = 16" "n < 16"
    and key: "binary \<in> rec_binary ` records ns \<longleftrightarrow> binary \<in> rec_binary ` set (recs (ns ! n))"
    and down: "insert_result binary ms res r ms'"
    and slot: "ns ! n = Subtree ms \<or> (\<exists>x. ns ! n = Record x \<and> rec_binary x \<noteq> binary \<and> strip ` records ms = {strip x} \<and> crowded (Subtree ms))"
  shows "insert_result binary ns res r (ns[n := Subtree ms'])"
proof (rule insert_result_slot [OF ns key])
  have same: "strip ` records ms = strip ` set (recs (ns ! n))"
    using slot by (elim disjE exE conjE) (simp_all only: records_def recs.simps list.set image_insert image_empty)
  have keys: "rec_binary ` records ms = rec_binary ` set (recs (ns ! n))"
    by (simp only: keys_strip [of "records ms"] keys_strip [of "set (recs (ns ! n))"] same)
  have c: "crowded (ns ! n) \<and> \<not> lone (ns ! n) \<longrightarrow> crowded (Subtree ms)" using slot by auto
  have l: "\<not> lone (Subtree ms')" if "res = TREE_FOUND" "\<not> lone (ns ! n)"
  proof -
    have k: "rec_binary ` records ms' = insert binary (rec_binary ` records ms)" using keys_result down that(1) by blast
    have "2 \<le> card (insert binary (rec_binary ` records ms))"
    proof (cases "ns ! n")
      case (Record x)
      then show ?thesis using slot keys by auto
    next
      case (Subtree ms2)
      then have "2 \<le> card (rec_binary ` records ms)" using that(2) keys by (simp add: lone_def)
      then show ?thesis using card_insert_le [of "rec_binary ` records ms" binary] by linarith
    qed (use slot in simp)
    then show ?thesis using k by (simp add: lone_def records_def)
  qed
  have i: "binary \<in> rec_binary ` set (recs (ns ! n)) \<longrightarrow> ns ! n = Subtree ms" using slot by auto
  consider x where "res = TREE_FOUND" "r = Some x" "rec_binary x = binary" "x \<in> records ms'"
      "strip ` records ms' = insert (strip x) (strip ` records ms)" "crowded (Subtree ms) \<longrightarrow> crowded (Subtree ms')"
      "binary \<in> rec_binary ` records ms \<longrightarrow> ms' = ms"
    | "res = TREE_ERROR" "r = None" "binary \<notin> rec_binary ` records ms" "strip ` records ms' = strip ` records ms"
    using down unfolding insert_result_def by blast
  then show "res = TREE_FOUND \<and> (\<exists>x. r = Some x \<and> rec_binary x = binary \<and> x \<in> set (recs (Subtree ms')) \<and>
        strip ` set (recs (Subtree ms')) = insert (strip x) (strip ` set (recs (ns ! n))) \<and>
        (crowded (ns ! n) \<and> \<not> lone (ns ! n) \<longrightarrow> crowded (Subtree ms') \<and> \<not> lone (Subtree ms')) \<and>
        (binary \<in> rec_binary ` set (recs (ns ! n)) \<longrightarrow> Subtree ms' = ns ! n)) \<or>
      res = TREE_ERROR \<and> r = None \<and> binary \<notin> rec_binary ` set (recs (ns ! n)) \<and>
        strip ` set (recs (Subtree ms')) = strip ` set (recs (ns ! n))"
  proof cases
    case 1
    then show ?thesis unfolding records_def [symmetric] same [symmetric] keys [symmetric] using c l i keys by metis
  next
    case 2
    then show ?thesis unfolding records_def [symmetric] same [symmetric] keys [symmetric] by simp
  qed
qed

lemma find_loop_insert:
  assumes "creates f" "wf_node len path ns" "take (length path) (nibs binary) = path" "length binary = len"
  shows "\<exists>res r ns' oks'. find_loop len (Some f) binary (length path) ns oks = Some (res, r, ns', oks') \<and>
    wf_node len path ns' \<and> insert_result binary ns res r ns'"
  using assms(2,3)
proof (induction "2 * len - length path" arbitrary: path ns oks rule: less_induct)
  case less
  let ?n = "nibs binary ! length path"
  have lp: "length path < 2 * length binary" using less.prems(1) assms(4) by (simp add: wf_slot_simps)
  have n: "?n < 16" "length path div 2 < length binary" "get_nibble binary (length path) = Some ?n"
    using lp by (simp_all add: get_nibble_nibs)
  have ns: "length ns = 16" "wf_slot len (path @ [?n]) (ns ! ?n)" using less.prems(1) n(1) by (auto simp: wf_slot_simps)
  note key = key_in_slot [OF less.prems(1) lp assms(4)]
  note slot = insert_result_slot [OF ns(1) n(1) key] and down = insert_result_down [OF ns(1) n(1) key]
  have path': "take (length (path @ [?n])) (nibs binary) = path @ [?n]"
    using less.prems(2) lp by (simp add: take_Suc_conv_app_nth)
  have lt: "2 * len - length (path @ [?n]) < 2 * len - length path" using lp assms(4) by simp
  have sub: "\<exists>res r ms' oks'. find_loop len (Some f) binary (Suc (length path)) ms oks = Some (res, r, ms', oks') \<and>
      wf_node len (path @ [?n]) ms' \<and> insert_result binary ms res r ms'" if "wf_node len (path @ [?n]) ms" for ms oks
    using less.hyps [OF lt that path'] by simp
  show ?case
  proof (cases "ns ! ?n")
    case Free
    show ?thesis
    proof (cases "f binary oks")
      case (Pair r oks')
      show ?thesis
      proof (cases r)
        case None
        then have "insert_result binary ns TREE_ERROR None ns" using key Free by (simp add: insert_result_def)
        then show ?thesis using n Free None Pair assms(4) less.prems(1) by (subst find_loop.simps) simp
      next
        case (Some x)
        let ?x = "x\<lparr>tree_depth := (length path + 1) * 4\<rparr>"
        have x: "rec_binary x = binary" using assms(1) Pair Some unfolding creates_def by blast
        then have "wf_slot len (path @ [?n]) (Record ?x)" using path' lp assms(4) by (simp add: wf_slot_simps)
        moreover have "insert_result binary ns TREE_FOUND (Some ?x) (ns[?n := Record ?x])"
          using slot [of TREE_FOUND "Some ?x" "Record ?x"] x Free by (simp add: lone_def)
        ultimately show ?thesis using n Free Some Pair assms(4) wf_update [OF less.prems(1) n(1)]
          by (subst find_loop.simps) (simp add: Let_def)
      qed
    qed
  next
    case (Record x)
    have x: "length (rec_binary x) = len" "take (length (path @ [?n])) (nibs (rec_binary x)) = path @ [?n]"
      "length (path @ [?n]) \<le> 2 * len" using ns(2) Record by (simp_all add: wf_slot_simps)
    show ?thesis
    proof (cases "rec_binary x = binary")
      case True
      have "insert_result binary ns TREE_FOUND (Some x) (ns[?n := Record x])"
        using slot [of TREE_FOUND "Some x" "Record x"] True Record by (simp add: lone_def)
      moreover have "ns[?n := Record x] = ns" using Record by (metis list_update_id)
      ultimately show ?thesis using n Record True less.prems(1) by (subst find_loop.simps) simp
    next
      case False
      let ?p = "length path" and ?k = "nibs (rec_binary x) ! Suc (length path)"
      let ?x = "x\<lparr>tree_depth := (?p + 2) * 4\<rparr>"
      let ?e = "empty_node[?k := Record ?x]"
      have more: "Suc ?p < 2 * len" using more_digits [OF x(2) path' x(1) assms(4) False x(3)] by simp
      then have k: "?k < 16" "get_nibble (rec_binary x) (Suc ?p) = Some ?k" using x(1) by (simp_all add: get_nibble_nibs)
      have ne: "take (length binary) (rec_binary x) \<noteq> binary" using False x(1) assms(4) by simp
      have "take (Suc (Suc ?p)) (nibs (rec_binary x)) = path @ [?n, ?k]"
        using x(1,2) more by (simp add: take_Suc_conv_app_nth [of "Suc ?p"])
      then have e: "wf_node len (path @ [?n]) ?e" using x(1) more
        by (auto simp: wf_slot_simps empty_node_def nth_list_update)
      have rec: "records ?e = {?x}" using k(1) by (auto simp: records_update empty_node_def)
      have c: "crowded (Subtree ?e)"
        using k(1) by (auto simp: empty_node_def list_all_length nth_list_update lone_def dest!: set_update_subset_insert [THEN subsetD])
      show ?thesis
      proof (cases "alloc oks")
        case (Pair ok oks1)
        show ?thesis
        proof (cases ok)
          case True
          obtain res r ms' oks' where f: "find_loop len (Some f) binary (Suc ?p) ?e oks1 = Some (res, r, ms', oks')"
            "wf_node len (path @ [?n]) ms'" "insert_result binary ?e res r ms'" using sub [OF e] by metis
          have "insert_result binary ns res r (ns[?n := Subtree ms'])"
            using Record False rec c by (intro down [OF f(3)]) simp
          then show ?thesis using n Record ne Pair True k(2) f wf_update [OF less.prems(1) n(1) f(2)]
            by (subst find_loop.simps) (simp add: into_def)
        next
          case False
          then have "insert_result binary ns TREE_ERROR None ns" using key Record \<open>rec_binary x \<noteq> binary\<close> by (simp add: insert_result_def)
          then show ?thesis using n Record ne Pair False less.prems(1) by (subst find_loop.simps) simp
        qed
      qed
    qed
  next
    case (Subtree ms)
    then obtain res r ms' oks' where "find_loop len (Some f) binary (Suc (length path)) ms oks = Some (res, r, ms', oks')"
      "wf_node len (path @ [?n]) ms'" "insert_result binary ms res r ms'" using sub ns(2) by metis
    then show ?thesis using n Subtree down [of ms res r ms'] wf_update [OF less.prems(1) n(1)]
      by (subst find_loop.simps) (simp add: into_def)
  qed
qed

section \<open>The tree as a map\<close>

definition contents :: "'a tree_root \<Rightarrow> byte list \<rightharpoonup> 'a tree_record_scheme" where
  "contents root = map_of (map (\<lambda>r. (rec_binary r, strip r)) (recs (Subtree (root_node root))))"

definition wf_root :: "'a tree_root \<Rightarrow> bool" where
  "wf_root root \<longleftrightarrow> wf_node (binary_length root) [] (root_node root)"

lemma wf_unique: "wf_slot len path s \<Longrightarrow> x \<in> set (recs s) \<Longrightarrow> y \<in> set (recs s) \<Longrightarrow> rec_binary x = rec_binary y \<Longrightarrow> x = y"
proof (induction rule: wf_slot.induct)
  case (wf_Subtree ns path)
  have "x \<in> records ns" "y \<in> records ns" using wf_Subtree.prems(1,2) by (simp_all only: records_def)
  then obtain i j where ij: "i < 16" "x \<in> set (recs (ns ! i))" "j < 16" "y \<in> set (recs (ns ! j))"
    using wf_Subtree.hyps(1) records_nth by blast
  then have "i = j" using wf_nibble(1) [OF wf_Subtree.hyps(1,3)] wf_Subtree.prems(3) by metis
  then show ?case using wf_Subtree.IH ij wf_Subtree.prems(3) by blast
qed auto

lemma contents_Some:
  assumes "wf_root root"
  shows "contents root k = Some v \<longleftrightarrow> (\<exists>r \<in> records (root_node root). rec_binary r = k \<and> strip r = v)"
proof
  assume "contents root k = Some v"
  then show "\<exists>r \<in> records (root_node root). rec_binary r = k \<and> strip r = v"
    unfolding contents_def records_def using map_of_SomeD by fastforce
next
  assume "\<exists>r \<in> records (root_node root). rec_binary r = k \<and> strip r = v"
  then obtain r where r: "r \<in> set (recs (Subtree (root_node root)))" "rec_binary r = k" "strip r = v" unfolding records_def by blast
  then obtain v' where v': "contents root k = Some v'" unfolding contents_def
    using weak_map_of_SomeI [of k v] by (metis (mono_tags, lifting) image_eqI list.set_map)
  then obtain r' where "r' \<in> set (recs (Subtree (root_node root)))" "rec_binary r' = k" "strip r' = v'"
    unfolding contents_def using map_of_SomeD by fastforce
  then show "contents root k = Some v" using v' r wf_unique assms unfolding wf_root_def by metis
qed

lemma contents_eqI:
  assumes "wf_root root" "\<And>k v. (\<exists>r \<in> records (root_node root). rec_binary r = k \<and> strip r = v) \<longleftrightarrow> m k = Some v"
  shows "contents root = m"
proof
  fix k
  show "contents root k = m k" using contents_Some [OF assms(1), of k] assms(2) [of k] by (metis option.exhaust)
qed

lemma strip_image: "(\<exists>r \<in> R. rec_binary r = k \<and> strip r = v) \<longleftrightarrow> v \<in> strip ` R \<and> rec_binary v = k"
  by auto

end
