(* ===== verification/Serval_Lookup.thy ===== *)
theory Serval_Lookup
  imports Serval_Index
begin

text \<open>
  The properties of the subscriber index: it implements a map, an abbreviated key finds the one record that has it, the depth
  kept in a record is enough to name it, and what a walk over the records does.
\<close>

section \<open>Insertion\<close>

lemma contents_insert:
  assumes wf: "wf_root root" "wf_root root'" and s: "strip ` records (root_node root') = insert (strip x) (strip ` records (root_node root))"
    and old: "rec_binary x \<in> rec_binary ` records (root_node root) \<longrightarrow> root' = root"
  shows "contents root' = (contents root)(rec_binary x \<mapsto> strip x)"
proof (rule contents_eqI [OF wf(2)])
  fix k v
  have *: "contents root k = Some v \<longleftrightarrow> v \<in> strip ` records (root_node root) \<and> rec_binary v = k" for k v
    using contents_Some [OF wf(1)] strip_image by metis
  show "(\<exists>r \<in> records (root_node root'). rec_binary r = k \<and> strip r = v) \<longleftrightarrow> ((contents root)(rec_binary x \<mapsto> strip x)) k = Some v"
  proof (cases "k = rec_binary x")
    case True
    have "v = strip x" if v: "v \<in> strip ` records (root_node root')" "rec_binary v = rec_binary x"
    proof -
      obtain r where r: "r \<in> records (root_node root')" "strip r = v" using v(1) by blast
      obtain r' where r': "r' \<in> records (root_node root')" "strip r' = strip x" using s by (metis imageE insertI1)
      have "rec_binary r' = rec_binary r" using r' r v(2) by (metis strip_simps(1))
      then show ?thesis using r r' wf(2) wf_unique unfolding wf_root_def records_def by metis
    qed
    then show ?thesis unfolding strip_image using True s by auto
  next
    case False
    then show ?thesis unfolding strip_image using s * [of k v] by auto
  qed
qed

text \<open>
  C12. \<^verbatim>\<open>tree_find\<close> with a constructor implements the update of a map. On a well-formed tree a whole key always gives a
  record with that key, found or made, and the tree then maps the key to it and every other key as before; or memory ran out,
  which only happens for a new key, and every key is mapped as before. The tree stays well-formed, no assertion fails and nothing is
  read outside a key.
\<close>

theorem tree_find_inserts:
  assumes "wf_root root" "length binary = binary_length root" "creates f"
  shows "\<exists>res r root' oks'. tree_find root binary (Some f) oks = Some (res, r, root', oks') \<and> wf_root root' \<and>
    (res = TREE_FOUND \<and> (\<exists>x. r = Some x \<and> rec_binary x = binary \<and> contents root' = (contents root)(binary \<mapsto> strip x) \<and>
       (binary \<in> dom (contents root) \<longrightarrow> root' = root)) \<or>
     res = TREE_ERROR \<and> r = None \<and> binary \<notin> dom (contents root) \<and> contents root' = contents root)"
proof -
  let ?l = "binary_length root" and ?ns = "root_node root"
  have wf: "wf_node ?l [] ?ns" using assms(1) by (simp add: wf_root_def)
  obtain res r ns' oks' where f: "find_loop ?l (Some f) binary 0 ?ns oks = Some (res, r, ns', oks')" "wf_node ?l [] ns'"
    "insert_result binary ?ns res r ns'"
    using find_loop_insert [OF assms(3) wf _ assms(2), of oks] by auto
  let ?root = "root\<lparr>root_node := ns'\<rparr>"
  have t: "tree_find root binary (Some f) oks = Some (res, r, ?root, oks')" using f(1) assms(2) by (simp add: tree_find_def)
  have wf': "wf_root ?root" using f(2) by (simp add: wf_root_def)
  have dom: "binary \<in> dom (contents root) \<longleftrightarrow> binary \<in> rec_binary ` records ?ns"
    using contents_Some [OF assms(1), of binary] by auto
  consider x where "res = TREE_FOUND" "r = Some x" "rec_binary x = binary" "strip ` records ns' = insert (strip x) (strip ` records ?ns)"
      "binary \<in> rec_binary ` records ?ns \<longrightarrow> ns' = ?ns"
    | "res = TREE_ERROR" "r = None" "binary \<notin> rec_binary ` records ?ns" "strip ` records ns' = strip ` records ?ns"
    using f(3) unfolding insert_result_def by blast
  then show ?thesis
  proof cases
    case 1
    have "binary \<in> rec_binary ` records ?ns \<longrightarrow> ?root = root" using 1 by simp
    moreover from this have "contents ?root = (contents root)(binary \<mapsto> strip x)"
      using contents_insert [OF assms(1) wf', of x] 1 by auto
    ultimately show ?thesis using t wf' 1 dom by blast
  next
    case 2
    have "contents ?root = contents root"
    proof (rule contents_eqI [OF wf'])
      fix k v
      have "(\<exists>r \<in> records ns'. rec_binary r = k \<and> strip r = v) \<longleftrightarrow> contents root k = Some v"
        unfolding contents_Some [OF assms(1)] strip_image 2(4) ..
      then show "(\<exists>r \<in> records (root_node ?root). rec_binary r = k \<and> strip r = v) \<longleftrightarrow> contents root k = Some v" by simp
    qed
    then show ?thesis using t wf' 2 dom by blast
  qed
qed

lemma tree_new_wf: "0 < len \<Longrightarrow> wf_root (tree_new len) \<and> crowded (Subtree (root_node (tree_new len)))"
  by (simp add: wf_root_def tree_new_def empty_node_def wf_slot_simps lone_def list_all_length)

definition plain_create :: "unit create_callback" where
  "plain_create binary oks = (case alloc oks of (ok, oks) \<Rightarrow> (if ok then Some \<lparr>tree_depth = 0, rec_binary = binary\<rparr> else None, oks))"

lemma plain_creates: "creates plain_create"
  by (auto simp: creates_def plain_create_def split: prod.splits)

theorem tree_find_inserts_witness:
  "\<exists>r root' oks'. tree_find (tree_new 2) [0x12, 0x34] (Some plain_create) [] = Some (TREE_FOUND, Some r, root', oks') \<and>
    wf_root root' \<and> contents root' = [[0x12, 0x34] \<mapsto> strip r]"
proof -
  have "contents (tree_new 2 :: unit tree_root) = Map.empty" by (simp add: contents_def tree_new_def empty_node_def)
  moreover have "tree_find (tree_new 2) [0x12, 0x34] (Some plain_create) [] = Some (res, r, root', oks') \<Longrightarrow> res \<noteq> TREE_ERROR" for res r root' oks'
    by (auto simp: tree_find_def tree_new_def find_loop.simps get_nibble_def empty_node_def plain_create_def alloc_def Let_def)
  moreover have "length [0x12, 0x34 :: byte] = binary_length (tree_new 2 :: unit tree_root)" by (simp add: tree_new_def)
  ultimately show ?thesis
    using tree_find_inserts [of "tree_new 2" "[0x12, 0x34]" plain_create "[]"] tree_new_wf [of 2] plain_creates by fastforce
qed

section \<open>Abbreviated keys\<close>

text \<open>The trees that searches and insertions make while memory lasts.\<close>

inductive tree_grown :: "'a create_callback \<Rightarrow> nat \<Rightarrow> 'a tree_root \<Rightarrow> bool" for f len where
  grown_new: "tree_grown f len (tree_new len)"
| grown_find: "tree_grown f len root \<Longrightarrow> create = None \<and> binary \<noteq> [] \<or> create = Some f \<and> length binary = len \<Longrightarrow>
    tree_find root binary create oks = Some (res, r, root', oks') \<Longrightarrow> res \<noteq> TREE_ERROR \<Longrightarrow> tree_grown f len root'"

lemma tree_find_search:
  assumes "wf_root root" "binary \<noteq> []" "length binary \<le> binary_length root"
  shows "\<exists>res r. tree_find root binary None oks = Some (res, r, root, oks) \<and> search_result binary (root_node root) res r"
proof -
  obtain res r where "find_loop (binary_length root) None binary 0 (root_node root) oks = Some (res, r, root_node root, oks)"
      "search_result binary (root_node root) res r"
    using find_loop_search [of "binary_length root" "[]" "root_node root" binary oks] assms by (auto simp: wf_root_def)
  then show ?thesis using assms(3) by (simp add: tree_find_def)
qed

lemma grown_ok:
  assumes "tree_grown f len root" "creates f" "0 < len"
  shows "wf_root root \<and> crowded (Subtree (root_node root)) \<and> binary_length root = len"
  using assms(1)
proof induction
  case grown_new
  then show ?case using tree_new_wf [OF assms(3)] by (simp add: tree_new_def)
next
  case (grown_find root create binary oks res r root' oks')
  then have l: "length binary \<le> binary_length root" by (auto simp: tree_find_def split: if_splits)
  show ?case
  proof (cases create)
    case None
    then show ?thesis using grown_find tree_find_search [of root binary oks] l by auto
  next
    case (Some g)
    then have b: "length binary = len" "create = Some f" using grown_find by auto
    have wf: "wf_node len [] (root_node root)" using grown_find.IH by (auto simp: wf_root_def)
    obtain ns' where "find_loop len (Some f) binary 0 (root_node root) oks = Some (res, r, ns', oks')" "root' = root\<lparr>root_node := ns'\<rparr>"
      using grown_find b by (auto simp: tree_find_def)
    moreover from this have "wf_node len [] ns'" "insert_result binary (root_node root) res r ns'"
      using find_loop_insert [OF assms(2) wf, of binary oks] b(1) by auto
    ultimately show ?thesis using grown_find by (auto simp: wf_root_def insert_result_def)
  qed
qed

text \<open>
  C13. In every tree made by insertions while memory lasts, a search with the first bytes of a key is exact:
  \<^verbatim>\<open>TREE_FOUND\<close> is answered when exactly one key of the tree starts with them, and the record is the one of that key;
  \<^verbatim>\<open>TREE_NOT_FOUND\<close> when none does, and \<^verbatim>\<open>TREE_NOT_UNIQUE\<close> when there are two or more. The search changes nothing.
\<close>

theorem abbreviation_exact:
  assumes "tree_grown f len root" "creates f" "0 < len" "binary \<noteq> []" "length binary \<le> len"
  shows "\<exists>res r. tree_find root binary None oks = Some (res, r, root, oks) \<and>
    res = (case card {k \<in> dom (contents root). take (length binary) k = binary} of 0 \<Rightarrow> TREE_NOT_FOUND | Suc 0 \<Rightarrow> TREE_FOUND | _ \<Rightarrow> TREE_NOT_UNIQUE) \<and>
    r = (if res = TREE_FOUND then r else None) \<and>
    (\<forall>x. r = Some x \<longrightarrow> contents root (rec_binary x) = Some (strip x) \<and> take (length binary) (rec_binary x) = binary)"
proof -
  have ok: "wf_root root" "crowded (Subtree (root_node root))" "binary_length root = len" using grown_ok [OF assms(1-3)] by auto
  let ?m = "matching binary (root_node root)"
  have keys: "{k \<in> dom (contents root). take (length binary) k = binary} = rec_binary ` ?m"
    using contents_Some [OF ok(1)] by (auto simp: matching_def starts_def)
  obtain res r where s: "tree_find root binary None oks = Some (res, r, root, oks)" "search_result binary (root_node root) res r"
    using tree_find_search [OF ok(1) assms(4)] assms(5) ok(3) by blast
  show ?thesis
  proof (cases res)
    case TREE_FOUND
    then obtain x where x: "r = Some x" "?m = {x}" using s(2) by (auto simp: search_result_def)
    then have "x \<in> records (root_node root)" "starts binary x" by (auto simp: matching_def)
    then show ?thesis unfolding keys using s(1) TREE_FOUND x contents_Some [OF ok(1)] by (auto simp: starts_def)
  next
    case TREE_NOT_UNIQUE
    then have "2 \<le> card (rec_binary ` ?m)" using s(2) ok(2) by (simp add: search_result_def)
    then obtain n where "card (rec_binary ` ?m) = Suc (Suc n)" by (metis add_2_eq_Suc le_Suc_ex)
    then show ?thesis unfolding keys using s TREE_NOT_UNIQUE by (auto simp: search_result_def)
  next
    case TREE_NOT_FOUND
    then show ?thesis unfolding keys using s by (simp add: search_result_def)
  next
    case TREE_ERROR
    then show ?thesis using s(2) by (simp add: search_result_def)
  qed
qed

text \<open>Two keys that share their first byte, as they are stored.\<close>

definition two_keys :: "unit tree_root" where
  "two_keys = \<lparr>binary_length = 2, root_node = empty_node[1 := Subtree (empty_node[2 := Subtree (empty_node
     [3 := Record \<lparr>tree_depth = 12, rec_binary = [0x12, 0x34]\<rparr>, 5 := Record \<lparr>tree_depth = 12, rec_binary = [0x12, 0x56]\<rparr>])])]\<rparr>"

lemma two_keys_grown: "tree_grown plain_create 2 two_keys"
proof -
  let ?one = "\<lparr>binary_length = 2, root_node = empty_node[1 := Record \<lparr>tree_depth = 4, rec_binary = [0x12, 0x34]\<rparr>]\<rparr> :: unit tree_root"
  have a: "tree_find (tree_new 2) [0x12, 0x34] (Some plain_create) [] = Some (TREE_FOUND, Some \<lparr>tree_depth = 4, rec_binary = [0x12, 0x34]\<rparr>, ?one, [])"
    by (simp add: tree_find_def tree_new_def find_loop.simps get_nibble_def empty_node_def plain_create_def alloc_def Let_def)
  have one: "tree_grown plain_create 2 ?one" by (rule grown_find [OF grown_new _ a]) simp_all
  have b: "tree_find ?one [0x12, 0x56] (Some plain_create) [] = Some (TREE_FOUND, Some \<lparr>tree_depth = 12, rec_binary = [0x12, 0x56]\<rparr>, two_keys, [])"
    by (simp add: two_keys_def tree_find_def find_loop.simps get_nibble_def empty_node_def plain_create_def alloc_def Let_def into_def)
  show ?thesis by (rule grown_find [OF one _ b]) simp_all
qed

theorem abbreviation_exact_witness:
  "\<exists>r. tree_find two_keys [0x12] None [] = Some (TREE_NOT_UNIQUE, r, two_keys, [])"
proof -
  have "contents two_keys = [[0x12, 0x34] \<mapsto> \<lparr>tree_depth = 0, rec_binary = [0x12, 0x34]\<rparr>, [0x12, 0x56] \<mapsto> \<lparr>tree_depth = 0, rec_binary = [0x12, 0x56]\<rparr>]"
    by (auto simp: contents_def two_keys_def empty_node_def strip_def numeral_eq_Suc)
  then have "{k \<in> dom (contents two_keys). take 1 k = [0x12]} = {[0x12, 0x34], [0x12, 0x56]}" by auto
  then have "card {k \<in> dom (contents two_keys). take 1 k = [0x12]} = 2" by simp
  then show ?thesis using abbreviation_exact [OF two_keys_grown plain_creates, of "[0x12]" "[]"] by (auto simp: numeral_2_eq_2)
qed

section \<open>The depth of a record\<close>

lemma wf_depth: "wf_slot len path s \<Longrightarrow> x \<in> set (recs s) \<Longrightarrow> 4 * length path \<le> tree_depth x"
proof (induction rule: wf_slot.induct)
  case (wf_Subtree ns path)
  then obtain i where "i < 16" "x \<in> set (recs (ns ! i))" using records_nth [of ns x] by (auto simp: records_def)
  then show ?case using wf_Subtree.IH [of i] by simp
qed auto

lemma find_loop_depth:
  assumes "wf_node len path ns" "take (length path) (nibs binary) = path" "x \<in> records ns" "starts binary x" "tree_depth x \<le> 8 * length binary"
  shows "find_loop len None binary (length path) ns oks = Some (TREE_FOUND, Some x, ns, oks)"
  using assms(1-3)
proof (induction "2 * length binary - length path" arbitrary: path ns rule: less_induct)
  case less
  let ?n = "nibs binary ! length path"
  obtain i where i: "i < 16" "x \<in> set (recs (ns ! i))" using less.prems by (auto simp: records_nth wf_slot_simps)
  have "wf_slot len (path @ [i]) (ns ! i)" using less.prems(1) i(1) by (simp add: wf_slot_simps)
  then have "4 * (length path + 1) \<le> 8 * length binary" using wf_depth i(2) assms(5) by fastforce
  then have lp: "length path < 2 * length binary" by simp
  have n: "?n < 16" "length path div 2 < length binary" "get_nibble binary (length path) = Some ?n"
    using lp by (simp_all add: get_nibble_nibs)
  have "x \<in> {r \<in> set (recs (ns ! ?n)). starts binary r}" using starts_in_slot [OF less.prems(1) lp] less.prems(3) assms(4) by blast
  then have x: "x \<in> set (recs (ns ! ?n))" by simp
  show ?case
  proof (cases "ns ! ?n")
    case (Record y)
    then show ?thesis using x n assms(4) by (subst find_loop.simps) (simp add: starts_def)
  next
    case (Subtree ms)
    have wf: "wf_node len (path @ [?n]) ms" using less.prems(1) n(1) Subtree by (metis wf_slot_simps(3))
    have path': "take (length (path @ [?n])) (nibs binary) = path @ [?n]" using less.prems(2) lp by (simp add: take_Suc_conv_app_nth)
    have "x \<in> records ms" using x Subtree by (simp add: records_def)
    then have "find_loop len None binary (Suc (length path)) ms oks = Some (TREE_FOUND, Some x, ms, oks)"
      using less.hyps [OF _ wf path'] lp by simp
    moreover have "ns[?n := Subtree ms] = ns" using Subtree by (metis list_update_id)
    ultimately show ?thesis using n Subtree by (subst find_loop.simps) (simp add: into_def)
  qed (use x in simp)
qed

text \<open>
  C14. The depth in a record is a number of bits that identifies it: in a well-formed tree (also one in which memory ran
  out at times), any abbreviation of the record's key that has at least that many bits is found, gives this record, and is the
  start of no other key.
\<close>

theorem depth_identifies:
  assumes "wf_root root" "x \<in> records (root_node root)" "tree_depth x \<le> 8 * k" "k \<le> binary_length root"
  shows "tree_find root (take k (rec_binary x)) None oks = Some (TREE_FOUND, Some x, root, oks) \<and>
    {y \<in> records (root_node root). take k (rec_binary y) = take k (rec_binary x)} = {x}"
proof -
  have wf: "wf_node (binary_length root) [] (root_node root)" using assms(1) by (simp add: wf_root_def)
  have l: "length (rec_binary x) = binary_length root" using wf_recs [OF wf] assms(2) unfolding records_def by blast
  have s: "starts (take k (rec_binary x)) y \<longleftrightarrow> take k (rec_binary y) = take k (rec_binary x)" for y :: "'a tree_record_scheme"
    using l assms(4) by (simp add: starts_def)
  have f: "find_loop (binary_length root) None (take k (rec_binary x)) 0 (root_node root) oks = Some (TREE_FOUND, Some x, root_node root, oks)"
    using find_loop_depth [OF wf _ assms(2), of "take k (rec_binary x)" oks] assms(3,4) l s [of x] by simp
  have "tree_depth x > 0"
  proof -
    obtain i where "i < 16" "x \<in> set (recs (root_node root ! i))" using wf assms(2) by (auto simp: records_nth wf_slot_simps)
    then show ?thesis using wf wf_depth [of "binary_length root" "[i]"] by (fastforce simp: wf_slot_simps)
  qed
  then have "0 < 2 * length (take k (rec_binary x))" "length (take k (rec_binary x)) \<le> binary_length root" using assms(3,4) l by auto
  then have "search_result (take k (rec_binary x)) (root_node root) TREE_FOUND (Some x)"
    using find_loop_search [OF wf, of "take k (rec_binary x)" oks] f by auto
  then have "matching (take k (rec_binary x)) (root_node root) = {x}" by (simp add: search_result_def)
  then show ?thesis using f l assms(4) by (simp add: tree_find_def matching_def s)
qed

theorem depth_identifies_witness:
  "tree_find two_keys (take 2 [0x12, 0x56]) None [] = Some (TREE_FOUND, Some \<lparr>tree_depth = 12, rec_binary = [0x12, 0x56]\<rparr>, two_keys, [])"
proof -
  have "wf_root two_keys" "binary_length two_keys = 2" using grown_ok [OF two_keys_grown plain_creates] by auto
  moreover have "\<lparr>tree_depth = 12, rec_binary = [0x12, 0x56]\<rparr> \<in> records (root_node two_keys)"
    by (simp add: records_def two_keys_def empty_node_def numeral_eq_Suc)
  ultimately show ?thesis using depth_identifies [of two_keys "\<lparr>tree_depth = 12, rec_binary = [0x12, 0x56]\<rparr>" 2 "[]"] by simp
qed

end
