(* ===== verification/Serval_Walk.thy ===== *)
theory Serval_Walk
  imports Serval_Lookup
begin

text \<open>
  Walks over the subscriber index: a callback that only looks sees every record once, in the order of the keys, whatever start
  is given; below a prefix it sees the records that match; and a callback that stops the walk destroys the subtree it is in.
\<close>

section \<open>Walks that only look\<close>

definition visit :: "('a tree_record_scheme \<Rightarrow> 'c \<Rightarrow> 'c) \<Rightarrow> ('a, 'c) walk_callback" where
  "visit f r c = (Some r, 0, f r c)"

lemma not_occupied [simp]: "\<not> occupied s \<longleftrightarrow> s = Free"
  by (cases s) simp_all

lemma walk_visit:
  "cb = visit f \<Longrightarrow> walk_slot cb pos start s c = Some (ret, s', c') \<Longrightarrow> ret = 0 \<and> recs s' = recs s \<and> c' = fold f (recs s) c"
  "cb = visit f \<Longrightarrow> walk_from cb pos start skip emp ss c = Some (ret, emp', ss', c') \<Longrightarrow>
    ret = 0 \<and> concat (map recs ss') = concat (map recs ss) \<and> c' = fold f (concat (map recs ss)) c \<and>
    (emp' \<longrightarrow> emp \<and> concat (map recs ss) = [])"
proof (induction cb pos start s c and cb pos start skip emp ss c arbitrary: ret s' c' and ret emp' ss' c' rule: walk_slot_walk_from.induct)
  case (3 cb pos start ns c)
  then show ?case by (auto split: option.splits if_splits)
next
  case (5 cb pos start skip emp s ss c)
  show ?case
  proof (cases "skip > 0 \<and> \<not> occupied s")
    case True
    then show ?thesis using "5.IH"(1) "5.prems" by auto
  next
    case False
    then obtain ret1 s1 c1 where w: "walk_slot cb pos start s c = Some (ret1, s1, c1)"
      using "5.prems"(2) by (auto simp: not_occupied split: option.splits)
    then have s1: "ret1 = 0" "recs s1 = recs s" "c1 = fold f (recs s) c" using "5.IH"(2) [OF False "5.prems"(1)] by blast+
    let ?e = "(emp \<and> skip = 0) \<and> \<not> occupied s1"
    obtain ss1 where ss1: "walk_from cb pos None 0 ?e ss c1 = Some (ret, emp', ss1, c')" "ss' = s1 # ss1"
      using "5.prems"(2) False w s1(1) by (auto simp: Let_def simp del: not_occupied)
    have nz: "\<not> ret1 \<noteq> 0" using s1(1) by simp
    have "ret = 0 \<and> concat (map recs ss1) = concat (map recs ss) \<and> c' = fold f (concat (map recs ss)) c1 \<and>
        (emp' \<longrightarrow> ?e \<and> concat (map recs ss) = [])"
      by (rule "5.IH"(3) [OF False w refl refl refl nz "5.prems"(1) ss1(1)])
    then show ?thesis using s1 ss1(2) by auto
  qed
qed (auto simp: visit_def)

lemma walk_total:
  "start = None \<Longrightarrow> walk_slot cb pos start s c \<noteq> None"
  "start = None \<Longrightarrow> skip = 0 \<Longrightarrow> walk_from cb pos start skip emp ss c \<noteq> None"
proof (induction cb pos start s c and cb pos start skip emp ss c rule: walk_slot_walk_from.induct)
  case (5 cb pos start skip emp s ss c)
  have F: "\<not> (0 < skip \<and> \<not> occupied s)" using "5.prems"(2) by simp
  then obtain ret1 s1 c1 where w: "walk_slot cb pos start s c = Some (ret1, s1, c1)" using "5.IH"(2) "5.prems"(1) by auto
  show ?case
  proof (cases "ret1 = 0")
    case True
    then have nz: "\<not> ret1 \<noteq> 0" by simp
    show ?thesis using "5.IH"(3) [OF F w refl refl refl nz refl refl] w True "5.prems" by (auto simp: Let_def simp del: not_occupied)
  next
    case False
    then show ?thesis using w "5.prems" by (simp add: Let_def del: not_occupied)
  qed
qed (auto split: prod.splits)

text \<open>In the order of the keys.\<close>

lemma path_less: "take (Suc (length p)) a = p @ [i] \<Longrightarrow> take (Suc (length p)) b = p @ [j] \<Longrightarrow> i < j \<Longrightarrow> a < (b :: nat list)"
proof (induction p arbitrary: a b)
  case Nil
  then show ?case by (cases a; cases b) auto
next
  case (Cons x p)
  then show ?case by (cases a; cases b) auto
qed

lemma sorted_concat:
  assumes "\<And>i. i < length ns \<Longrightarrow> sorted_wrt P (f (ns ! i))"
    and "\<And>i j x y. i < j \<Longrightarrow> j < length ns \<Longrightarrow> x \<in> set (f (ns ! i)) \<Longrightarrow> y \<in> set (f (ns ! j)) \<Longrightarrow> P x y"
  shows "sorted_wrt P (concat (map f ns))"
  using assms
proof (induction ns)
  case (Cons n ns)
  have "sorted_wrt P (concat (map f ns))"
  proof (rule Cons.IH)
    show "sorted_wrt P (f (ns ! i))" if "i < length ns" for i using Cons.prems(1) [of "Suc i"] that by simp
    show "P x y" if "i < j" "j < length ns" "x \<in> set (f (ns ! i))" "y \<in> set (f (ns ! j))" for i j x y
      using Cons.prems(2) [of "Suc i" "Suc j" x y] that by simp
  qed
  moreover have "sorted_wrt P (f n)" using Cons.prems(1) [of 0] by simp
  moreover have "P x y" if "x \<in> set (f n)" "m \<in> set ns" "y \<in> set (f m)" for x y m
    using that Cons.prems(2) [of 0 "Suc j" x y for j] by (auto simp: in_set_conv_nth)
  ultimately show ?case by (auto simp: sorted_wrt_append)
qed simp

lemma recs_sorted: "wf_slot len path s \<Longrightarrow> sorted_wrt (\<lambda>x y. nibs (rec_binary x) < nibs (rec_binary y)) (recs s)"
proof (induction rule: wf_slot.induct)
  case (wf_Subtree ns path)
  show ?case
    unfolding recs.simps
  proof (rule sorted_concat)
    fix i j x y
    assume a: "i < j" "j < length ns" "x \<in> set (recs (ns ! i))" "y \<in> set (recs (ns ! j))"
    then have "i < 16" "j < 16" using wf_Subtree.hyps(1) by simp_all
    then have "take (length (path @ [i])) (nibs (rec_binary x)) = path @ [i]" "take (length (path @ [j])) (nibs (rec_binary y)) = path @ [j]"
      using wf_recs [OF wf_Subtree.hyps(3)] a(3,4) by blast+
    then show "nibs (rec_binary x) < nibs (rec_binary y)" using path_less a(1) by simp
  qed (use wf_Subtree in simp)
qed simp_all

abbreviation all_records :: "'a tree_root \<Rightarrow> 'a tree_record_scheme list" where
  "all_records root \<equiv> recs (Subtree (root_node root))"

lemma walk_result:
  assumes "tree_walk root start (visit f) c = Some (ret, root', c')"
  shows "ret = 0 \<and> all_records root' = all_records root \<and> c' = fold f (all_records root) c"
proof -
  obtain emp ns n st where "root' = root\<lparr>root_node := ns\<rparr>" "walk_from (visit f) 0 st n True (root_node root) c = Some (ret, emp, ns, c')"
    using assms by (auto simp: tree_walk_def walk_def split: if_splits option.splits)
  then show ?thesis using walk_visit(2) [OF refl] by fastforce
qed

text \<open>
  C33. A walk without a start, by a callback that neither stops nor removes, calls it on every record exactly once, in the
  order of the keys (digit by digit), and leaves the map as it was.
\<close>

theorem walk_in_order:
  assumes "wf_root root"
  shows "\<exists>root' rs. tree_walk root None (visit f) c = Some (0, root', fold f rs c) \<and> contents root' = contents root \<and>
    set rs = records (root_node root) \<and> distinct (map rec_binary rs) \<and> sorted (map (\<lambda>r. nibs (rec_binary r)) rs)"
proof -
  have "walk_from (visit f) 0 None 0 True (root_node root) c \<noteq> None" by (rule walk_total(2)) simp_all
  then obtain ret root' c' where w: "tree_walk root None (visit f) c = Some (ret, root', c')"
    by (auto simp: tree_walk_def walk_def)
  have "sorted_wrt (<) (map (\<lambda>r. nibs (rec_binary r)) (all_records root))"
    using recs_sorted [of "binary_length root" "[]"] assms unfolding wf_root_def sorted_wrt_map by blast
  then have s: "sorted (map (\<lambda>r. nibs (rec_binary r)) (all_records root))" "distinct (map (\<lambda>r. nibs (rec_binary r)) (all_records root))"
    by (simp_all add: strict_sorted_iff)
  have "distinct (map rec_binary (all_records root))" using s(2) by (simp add: distinct_map inj_on_def)
  moreover have "contents root' = contents root" using walk_result [OF w] by (simp only: contents_def)
  ultimately show ?thesis using walk_result [OF w] w s(1) unfolding records_def by blast
qed

theorem walk_in_order_witness:
  "\<exists>root' rs. tree_walk two_keys None (visit (\<lambda>r c. rec_binary r # c)) [] = Some (0, root', fold (\<lambda>r c. rec_binary r # c) rs []) \<and>
    contents root' = contents two_keys \<and> set rs = records (root_node two_keys) \<and> distinct (map rec_binary rs) \<and> sorted (map (\<lambda>r. nibs (rec_binary r)) rs)"
  using grown_ok [OF two_keys_grown plain_creates] by (intro walk_in_order) simp

text \<open>
  A start makes no difference to what is seen: the loop that should skip the slots before it stops at the first one that is taken,
  and the walk begins there. Either the walk sees every record of the tree, as without a start, or its assertion fails.
\<close>

theorem walk_start_ignored:
  "tree_walk root (Some start) (visit f) c = None \<or> map_option (\<lambda>(ret, root', c). (ret, c)) (tree_walk root (Some start) (visit f) c) =
    map_option (\<lambda>(ret, root', c). (ret, c)) (tree_walk root None (visit f) c)"
proof (cases "tree_walk root (Some start) (visit f) c")
  case (Some p)
  have "walk_from (visit f) 0 None 0 True (root_node root) c \<noteq> None" by (rule walk_total(2)) simp_all
  then obtain q where "tree_walk root None (visit f) c = Some q" by (auto simp: tree_walk_def walk_def)
  then show ?thesis using Some walk_result [of root "Some start" f c] walk_result [of root None f c] by (cases p; cases q) auto
qed simp

section \<open>Walks below a prefix\<close>

lemma concat_single: "n < length ns \<Longrightarrow> (\<And>i. i < length ns \<Longrightarrow> i \<noteq> n \<Longrightarrow> g (ns ! i) = []) \<Longrightarrow> concat (map g ns) = g (ns ! n)"
proof (induction ns arbitrary: n)
  case (Cons x ns)
  show ?case
  proof (cases n)
    case 0
    have "g m = []" if "m \<in> set ns" for m using Cons.prems(2) [of "Suc i" for i] that 0 by (auto simp: in_set_conv_nth)
    then show ?thesis using 0 by simp
  next
    case (Suc k)
    have "g x = []" using Cons.prems(2) [of 0] Suc by simp
    moreover have "concat (map g ns) = g (ns ! k)" using Cons.prems(1) Cons.prems(2) [of "Suc i" for i] Suc by (intro Cons.IH) auto
    ultimately show ?thesis using Suc by simp
  qed
qed simp

lemma matching_list:
  assumes wf: "wf_node len path ns" and lp: "length path < 2 * length binary"
  shows "filter (starts binary) (recs (Subtree ns)) = filter (starts binary) (recs (ns ! (nibs binary ! length path)))"
proof -
  let ?n = "nibs binary ! length path"
  have l: "length ns = 16" "?n < 16" using wf lp by (simp_all add: wf_slot_simps)
  have "filter (starts binary) (recs (ns ! i)) = []" if i: "i < 16" "i \<noteq> ?n" for i
  proof -
    have "\<not> starts binary r" if r: "r \<in> set (recs (ns ! i))" for r
    proof
      assume s: "starts binary r"
      have "nibs (rec_binary r) ! length path = i" using wf r i(1) by (auto simp: wf_slot_simps intro: wf_nibble)
      moreover have "take (2 * length binary) (nibs (rec_binary r)) ! length path = nibs (rec_binary r) ! length path" using lp by simp
      ultimately show False using s i(2) by (simp add: starts_nibs)
    qed
    then show ?thesis by (simp add: filter_empty_conv)
  qed
  then have "concat (map (\<lambda>s. filter (starts binary) (recs s)) ns) = filter (starts binary) (recs (ns ! ?n))"
    using l by (intro concat_single) auto
  then show ?thesis by (simp add: filter_concat comp_def)
qed

lemma walk_prefix_visit:
  assumes "wf_node len path ns" "take (length path) (nibs binary) = path" "length path \<le> 2 * length binary" "length binary \<le> len"
  shows "\<exists>ns'. walk_prefix (visit f) binary (length path) ns c = Some (0, ns', fold f (filter (starts binary) (recs (Subtree ns))) c)"
  using assms
proof (induction "2 * length binary - length path" arbitrary: path ns rule: less_induct)
  case less
  show ?case
  proof (cases "length path < 2 * length binary")
    case False
    then have "path = nibs binary" using less.prems(2,3) by simp
    then have "records ns = matching binary ns" using matching_all less.prems(1) by metis
    then have "\<forall>r \<in> records ns. starts binary r" unfolding matching_def by blast
    then have "filter (starts binary) (recs (Subtree ns)) = recs (Subtree ns)" unfolding records_def by (metis filter_True)
    moreover have "walk_from (visit f) (Suc (length path)) None 0 True ns c \<noteq> None" by (rule walk_total(2)) simp_all
    then obtain ret emp ns' c' where w: "walk_from (visit f) (Suc (length path)) None 0 True ns c = Some (ret, emp, ns', c')" by auto
    ultimately show ?thesis using walk_visit(2) [OF refl w] False by (subst walk_prefix.simps) (simp add: walk_def)
  next
    case lp: True
    let ?n = "nibs binary ! length path"
    have n: "?n < 16" "get_nibble binary (length path) = Some ?n" using lp by (simp_all add: get_nibble_nibs)
    note m = matching_list [OF less.prems(1) lp]
    show ?thesis
    proof (cases "ns ! ?n")
      case Free
      then show ?thesis using m n lp by (subst walk_prefix.simps) simp
    next
      case (Record x)
      then show ?thesis using m n lp by (subst walk_prefix.simps) (simp add: starts_def visit_def)
    next
      case (Subtree ms)
      have wf: "wf_node len (path @ [?n]) ms" using less.prems(1) n(1) Subtree by (metis wf_slot_simps(3))
      have path': "take (length (path @ [?n])) (nibs binary) = path @ [?n]" using less.prems(2) lp by (simp add: take_Suc_conv_app_nth)
      have lt: "2 * length binary - length (path @ [?n]) < 2 * length binary - length path" using lp by simp
      have "\<exists>ms'. walk_prefix (visit f) binary (Suc (length path)) ms c = Some (0, ms', fold f (filter (starts binary) (recs (Subtree ms))) c)"
        using less.hyps [OF lt wf path'] lp less.prems(4) by simp
      then obtain ms' where "walk_prefix (visit f) binary (Suc (length path)) ms c = Some (0, ms', fold f (filter (starts binary) (recs (Subtree ms))) c)" by blast
      then show ?thesis using n lp Subtree unfolding m by (subst walk_prefix.simps) (simp del: recs.simps)
    qed
  qed
qed

text \<open>
  C34. \<^verbatim>\<open>tree_walk_prefix\<close>, with a callback that neither stops nor removes, calls it on exactly the records whose
  key starts with the prefix, each once and in the order of the keys.
\<close>

theorem prefix_walk_exact:
  assumes "wf_root root" "length binary \<le> binary_length root"
  shows "\<exists>root'. tree_walk_prefix root binary (visit f) c = Some (0, root', fold f (filter (\<lambda>r. take (length binary) (rec_binary r) = binary) (all_records root)) c)"
proof -
  obtain ns' where "walk_prefix (visit f) binary 0 (root_node root) c = Some (0, ns', fold f (filter (starts binary) (all_records root)) c)"
    using walk_prefix_visit [of "binary_length root" "[]" "root_node root" binary f c] assms by (auto simp: wf_root_def)
  then show ?thesis using assms(2) by (simp add: tree_walk_prefix_def starts_def [abs_def])
qed

theorem prefix_walk_exact_witness:
  "\<exists>root'. tree_walk_prefix two_keys [0x12] (visit (\<lambda>r c. rec_binary r # c)) [] = Some (0, root', [[0x12, 0x56], [0x12, 0x34]])"
proof -
  have "wf_root two_keys" "binary_length two_keys = 2" using grown_ok [OF two_keys_grown plain_creates] by auto
  moreover have "all_records two_keys = [\<lparr>tree_depth = 12, rec_binary = [0x12, 0x34]\<rparr>, \<lparr>tree_depth = 12, rec_binary = [0x12, 0x56]\<rparr>]"
    by (simp add: two_keys_def empty_node_def numeral_eq_Suc)
  ultimately show ?thesis using prefix_walk_exact [of two_keys "[0x12]" "\<lambda>r c. rec_binary r # c" "[]"] by simp
qed

section \<open>Walks that stop\<close>

definition stops :: "('a, 'c) walk_callback \<Rightarrow> bool" where
  "stops cb \<longleftrightarrow> (\<forall>r c. fst (snd (cb r c)) \<noteq> 0)"

lemma walk_stops:
  "stops cb \<Longrightarrow> start = None \<Longrightarrow> if recs s = [] then walk_slot cb pos start s c = Some (0, Free, c)
    else (\<exists>ret s' c'. walk_slot cb pos start s c = Some (ret, s', c') \<and> ret \<noteq> 0 \<and> ((\<exists>ns. s = Subtree ns) \<longrightarrow> s' = Free))"
  "stops cb \<Longrightarrow> start = None \<Longrightarrow> skip = 0 \<Longrightarrow> if concat (map recs ss) = [] then (\<exists>ss'. walk_from cb pos start skip emp ss c = Some (0, emp, ss', c))
    else (\<exists>ret ss' c'. walk_from cb pos start skip emp ss c = Some (ret, emp, ss', c') \<and> ret \<noteq> 0)"
proof (induction cb pos start s c and cb pos start skip emp ss c rule: walk_slot_walk_from.induct)
  case (2 cb pos start r c)
  then have "fst (snd (cb r c)) \<noteq> 0" by (simp add: stops_def)
  then show ?case by (cases "cb r c") auto
next
  case (3 cb pos start ns c)
  note w = "3.IH"(1) [OF "3.prems"(2,1) refl refl]
  show ?case
  proof (cases "concat (map recs ns) = []")
    case True
    then show ?thesis using w "3.prems"(2) by auto
  next
    case False
    then obtain ret ss' c' where "walk_from cb (pos + 1) None 0 True ns c = Some (ret, True, ss', c')" "ret \<noteq> 0" using w by (simp only: if_False) blast
    then show ?thesis unfolding recs.simps if_not_P [OF False] using "3.prems"(2) by simp
  qed
next
  case (5 cb pos start skip emp s ss c)
  have F: "\<not> (0 < skip \<and> \<not> occupied s)" using "5.prems"(3) by simp
  show ?case
  proof (cases "recs s = []")
    case True
    then have w: "walk_slot cb pos start s c = Some (0, Free, c)" using "5.IH"(2) [OF F "5.prems"(1,2)] by simp
    show ?thesis using "5.IH"(3) [OF F w refl refl refl _ "5.prems"(1) refl refl] w "5.prems" True
      by (auto simp: Let_def split: if_splits)
  next
    case False
    then show ?thesis using "5.IH"(2) [OF F "5.prems"(1,2)] "5.prems" by (auto simp: Let_def)
  qed
qed auto

text \<open>
  C35. A callback that stops the walk at the first record it sees destroys the subtree that record is in: the walk of that subtree returns
  before it has noted that it is not empty, so the node above it frees it and clears the slot. If the first taken slot of
  the root is a subtree with records, they are all gone afterwards, and the records of the other slots are left.
\<close>

theorem stopping_loses_records:
  assumes "stops cb" "i < length (root_node root)" "\<forall>j < i. root_node root ! j = Free" "root_node root ! i = Subtree ms" "recs (Subtree ms) \<noteq> []"
  shows "\<exists>ret c'. tree_walk root None cb c = Some (ret, root\<lparr>root_node := (root_node root)[i := Free]\<rparr>, c') \<and> ret \<noteq> 0"
proof -
  have "\<exists>ret c'. walk_from cb 0 None 0 True ns c = Some (ret, True, ns[i := Free], c') \<and> ret \<noteq> 0"
    if "i < length ns" "\<forall>j < i. ns ! j = Free" "ns ! i = Subtree ms" for ns
    using that
  proof (induction i arbitrary: ns)
    case 0
    then obtain ss where ns: "ns = Subtree ms # ss" by (cases ns) auto
    obtain ret c' where "walk_slot cb 0 None (Subtree ms) c = Some (ret, Free, c')" "ret \<noteq> 0"
      using walk_stops(1) [OF assms(1) refl, of "Subtree ms" 0 c] unfolding if_not_P [OF assms(5)] by blast
    then show ?case using ns by (auto simp: Let_def simp del: walk_slot.simps)
  next
    case (Suc i)
    then obtain ss where ns: "ns = Free # ss" by (cases ns) auto
    have "\<forall>j < i. ss ! j = Free" using Suc.prems(2) ns by auto
    then show ?case using Suc.IH [of ss] Suc.prems ns by auto
  qed
  then show ?thesis using assms by (fastforce simp: tree_walk_def walk_def)
qed

theorem stopping_loses_records_witness:
  "\<exists>ret c'. tree_walk two_keys None (\<lambda>r c. (Some r, 1, c)) () = Some (ret, two_keys\<lparr>root_node := (root_node two_keys)[1 := Free]\<rparr>, c') \<and> ret \<noteq> 0"
proof -
  let ?ms = "empty_node[2 := Subtree (empty_node
     [3 := Record \<lparr>tree_depth = 12, rec_binary = [0x12, 0x34]\<rparr>, 5 := Record \<lparr>tree_depth = 12, rec_binary = [0x12, 0x56]\<rparr>])]"
  have "root_node two_keys ! 1 = Subtree ?ms" "1 < length (root_node two_keys)" "\<forall>j < 1. root_node two_keys ! j = Free"
    by (simp_all add: two_keys_def empty_node_def)
  moreover have "recs (Subtree ?ms) \<noteq> []" by (simp add: empty_node_def numeral_eq_Suc)
  ultimately show ?thesis by (intro stopping_loses_records) (simp_all add: stops_def)
qed

end
