(* ===== verification/Serval_Address.thy ===== *)
theory Serval_Address
  imports Serval_Fields Serval_Walk
begin

unbundle bit_operations_syntax

text \<open>
  Addresses in packets of the mesh daemon, \<^verbatim>\<open>servald/serval-dna-development/overlay_address.c\<close>: subscribers are kept in the index
  of \<open>Serval_Tree\<close> and named in the buffers of \<open>Serval_Buffer\<close> by a code for someone the packet has mentioned, or by
  the first bytes of their identity (SID). A pointer to a subscriber is the SID. \<open>None\<close> is a failed assertion or
  undefined behaviour; results of the functions are integers as in the code (0 or -1).
\<close>

section \<open>State\<close>

definition SID_SIZE :: nat where
  "SID_SIZE = 32"

definition MDP_MTU :: nat where
  "MDP_MTU = 1160"

type_synonym sid = "byte list"

record subscriber = tree_record +
  send_full :: bool
  id_public :: "byte list"
  id_valid :: bool
  id_combined :: bool
  last_explained :: int

type_synonym sub = "unit subscriber_ext"

record overlay_frame =
  payload :: "overlay_buffer option"
  source_full :: bool

record decode_context =
  local_echo :: bool
  encoding_header :: bool
  invalid_address :: bool
  dont_explain :: bool
  please_explain :: "overlay_frame option"
  sender :: "sid option"
  previous :: "sid option"
  point_to_point_device :: "sid option"

text \<open>
  What comes from the other parts of the daemon: memory, the memory of each new packet buffer, the clock, our own
  identity (\<^verbatim>\<open>get_my_subscriber\<close>), the conversion of signing keys (\<^verbatim>\<open>crypto_sign_to_sid\<close>); and what goes to them, the calls of
  \<^verbatim>\<open>link_explained\<close>.
\<close>

record environment =
  env_allocs :: "bool list"
  env_buffers :: "bool list list"
  env_clock :: "int list"
  env_me :: "sid option"
  env_to_sid :: "byte list \<Rightarrow> sid option"
  env_explained :: "sid list"

definition env_alloc :: "environment \<Rightarrow> bool \<times> environment" where
  "env_alloc e = (case alloc (env_allocs e) of (ok, oks) \<Rightarrow> (ok, e\<lparr>env_allocs := oks\<rparr>))"

definition gettime_ms :: "environment \<Rightarrow> int \<times> environment" where
  "gettime_ms e = (case env_clock e of [] \<Rightarrow> (0, e) | t # ts \<Rightarrow> (t, e\<lparr>env_clock := ts\<rparr>))"

definition env_ob_new :: "environment \<Rightarrow> overlay_buffer option \<times> environment" where
  "env_ob_new e = (case env_buffers e of [] \<Rightarrow> (ob_new [], e) | oks # rest \<Rightarrow> (ob_new oks, e\<lparr>env_buffers := rest\<rparr>))"

section \<open>Subscribers\<close>

definition create_subscriber :: "sub create_callback" where
  "create_subscriber binary oks =
     (case alloc oks of (ok, oks) \<Rightarrow>
        (if ok then Some \<lparr>tree_depth = 0, rec_binary = binary, send_full = False, id_public = replicate SID_SIZE 0, id_valid = False, id_combined = False,
                          last_explained = 0\<rparr> else None, oks))"

definition find_subscriber :: "sid \<Rightarrow> bool \<Rightarrow> sub tree_root \<Rightarrow> environment \<Rightarrow> (sid option \<times> sub tree_root \<times> environment) option" where
  "find_subscriber sid create root e =
     map_option (\<lambda>(res, r, root, oks). (map_option rec_binary r, root, e\<lparr>env_allocs := oks\<rparr>))
       (tree_find root sid (if create \<and> length sid = SID_SIZE then Some create_subscriber else None) (env_allocs e))"

text \<open>Reading and changing the subscriber that a pointer points to.\<close>

definition subscriber_at :: "sub tree_root \<Rightarrow> sid \<Rightarrow> subscriber option" where
  "subscriber_at root sid = find (\<lambda>r. rec_binary r = sid) (recs (Subtree (root_node root)))"

primrec map_slot :: "('a tree_record_scheme \<Rightarrow> 'a tree_record_scheme) \<Rightarrow> 'a slot \<Rightarrow> 'a slot" where
  "map_slot f Free = Free"
| "map_slot f (Record r) = Record (f r)"
| "map_slot f (Subtree ns) = Subtree (map (map_slot f) ns)"

definition change_subscriber :: "(subscriber \<Rightarrow> subscriber) \<Rightarrow> sid \<Rightarrow> sub tree_root \<Rightarrow> sub tree_root" where
  "change_subscriber f sid root = root\<lparr>root_node := map (map_slot (\<lambda>r. if rec_binary r = sid then f r else r)) (root_node root)\<rparr>"

text \<open>All subscribers in turn, from \<^verbatim>\<open>start\<close> on.\<close>

definition enum_subscribers :: "sid option \<Rightarrow> (sub, 'c) walk_callback \<Rightarrow> sub tree_root \<Rightarrow> 'c \<Rightarrow> (sub tree_root \<times> 'c) option" where
  "enum_subscribers start callback root c = map_option (\<lambda>(ret, root, c). (root, c)) (tree_walk root start callback c)"

section \<open>Broadcast addresses\<close>

definition BROADCAST_LEN :: nat where
  "BROADCAST_LEN = 8"

definition BPI_MASK :: "32 word" where
  "BPI_MASK = 0x3FF"

definition bpi_hash :: "byte list \<Rightarrow> 32 word" where
  "bpi_hash bpi = fold (\<lambda>c h. ((push_bit 3 h AND 0xFFF8) + (drop_bit 13 h AND 0x7)) XOR ucast c) bpi 0 AND BPI_MASK"

text \<open>The last identifier seen, for each hash; at first they are all zeros.\<close>

type_synonym bpilist = "nat \<Rightarrow> byte list"

definition bpilist_init :: bpilist where
  "bpilist_init = (\<lambda>_. replicate BROADCAST_LEN 0)"

definition overlay_broadcast_drop_check :: "byte list \<Rightarrow> bpilist \<Rightarrow> bool \<times> bpilist" where
  "overlay_broadcast_drop_check bpi l =
     (let i = unat (bpi_hash bpi) in if l i \<noteq> bpi then (False, l(i := bpi)) else (True, l))"

definition overlay_broadcast_append :: "byte list \<Rightarrow> overlay_buffer \<Rightarrow> overlay_buffer option" where
  "overlay_broadcast_append bpi = ob_append_bytes bpi"

definition overlay_broadcast_parse :: "overlay_buffer \<Rightarrow> (byte list option \<times> overlay_buffer) option" where
  "overlay_broadcast_parse = ob_get_bytes BROADCAST_LEN"

section \<open>Appending an address\<close>

definition OA_CODE_SELF :: byte where "OA_CODE_SELF = 0xFF"
definition OA_CODE_PREVIOUS :: byte where "OA_CODE_PREVIOUS = 0xFE"
definition OA_CODE_P2P_YOU :: byte where "OA_CODE_P2P_YOU = 0xFD"
definition OA_CODE_P2P_ME :: byte where "OA_CODE_P2P_ME = 0xFC"
definition OA_CODE_SIGNKEY :: byte where "OA_CODE_SIGNKEY = 0xFB"

lemmas oa_codes = OA_CODE_SELF_def OA_CODE_PREVIOUS_def OA_CODE_P2P_YOU_def OA_CODE_P2P_ME_def OA_CODE_SIGNKEY_def

text \<open>The number of bytes of an abbreviation.\<close>

definition abbreviation_length :: "decode_context option \<Rightarrow> subscriber \<Rightarrow> nat" where
  "abbreviation_length c s =
     (let len = tree_depth s div 8 + 1;
          len = (case c of Some c \<Rightarrow> if encoding_header c then len + 1 else len | None \<Rightarrow> len)
      in if len > SID_SIZE then SID_SIZE else len)"

definition overlay_address_append :: "decode_context option \<Rightarrow> overlay_buffer \<Rightarrow> sid \<Rightarrow> sub tree_root \<Rightarrow> environment \<Rightarrow>
    (decode_context option \<times> overlay_buffer \<times> sub tree_root) option" where
  "overlay_address_append c b sid root e =
     (case subscriber_at root sid of
        None \<Rightarrow> None
      | Some s \<Rightarrow>
          let is = (\<lambda>field. case c of Some c \<Rightarrow> field c = Some sid | None \<Rightarrow> False);
              me = (case c of Some c \<Rightarrow> \<not> send_full s \<and> Some sid = env_me e \<and> point_to_point_device c \<noteq> None \<and>
                      (\<not> encoding_header c \<or> \<not> local_echo c) | None \<Rightarrow> False)
          in map_option (\<lambda>(b, root). (map_option (\<lambda>c. c\<lparr>previous := Some sid\<rparr>) c, b, root))
            (if is point_to_point_device then map_option (\<lambda>b. (b, root)) (ob_append_byte OA_CODE_P2P_YOU b)
             else if me then map_option (\<lambda>b. (b, root)) (ob_append_byte OA_CODE_P2P_ME b)
             else if is sender then map_option (\<lambda>b. (b, root)) (ob_append_byte OA_CODE_SELF b)
             else if is previous then map_option (\<lambda>b. (b, root)) (ob_append_byte OA_CODE_PREVIOUS b)
             else if send_full s
             then map_option (\<lambda>b. (b, change_subscriber (\<lambda>s. s\<lparr>send_full := False\<rparr>) sid root))
                    (Option.bind (ob_append_byte (of_nat SID_SIZE) b) (ob_append_bytes sid))
             else (let len = abbreviation_length c s
                   in map_option (\<lambda>b. (b, root)) (Option.bind (ob_append_byte (of_nat len) b) (ob_append_bytes (take len sid))))))"

section \<open>Explaining\<close>

text \<open>
  A reply that explains abbreviations. The callback of the walk works on the context and the environment; \<open>None\<close> there is an abort, which
  also ends the walk. \<open>combined\<close> says that the sender of the packet has a combined key.
\<close>

definition new_reply :: "nat \<Rightarrow> environment \<Rightarrow> (overlay_frame \<times> environment) option" where
  "new_reply limit e =
     (case env_ob_new e of
        (None, e) \<Rightarrow> Some (\<lparr>payload = None, source_full = False\<rparr>, e)
      | (Some b, e) \<Rightarrow> map_option (\<lambda>b. (\<lparr>payload = Some b, source_full = False\<rparr>, e)) (ob_limitsize limit b))"

definition explain_bytes :: "bool \<Rightarrow> subscriber \<Rightarrow> byte list" where
  "explain_bytes combined s =
     (if id_combined s \<and> combined then OA_CODE_SIGNKEY # id_public s else of_nat SID_SIZE # rec_binary s)"

definition explain_append :: "bool \<Rightarrow> subscriber \<Rightarrow> overlay_buffer \<Rightarrow> overlay_buffer option" where
  "explain_append combined s b =
     Option.bind (ob_append_byte (hd (explain_bytes combined s)) (ob_checkpoint b)) (ob_append_bytes (tl (explain_bytes combined s)))"

text \<open>The reply the callback writes to; without memory there is none, and the context keeps none.\<close>

definition response_frame :: "decode_context \<Rightarrow> environment \<Rightarrow> (overlay_frame option \<times> environment) option" where
  "response_frame c e =
     (case please_explain c of
        Some fr \<Rightarrow> Some (Some fr, e)
      | None \<Rightarrow>
          (case env_alloc e of
             (False, e) \<Rightarrow> Some (None, e)
           | (True, e) \<Rightarrow> map_option (\<lambda>(fr, e). (if payload fr = None then None else Some fr, e)) (new_reply 1024 e)))"

definition add_explain_response :: "bool \<Rightarrow> (sub, (decode_context \<times> environment) option) walk_callback" where
  "add_explain_response combined s ce =
     (case ce of
        None \<Rightarrow> (Some s, 1, None)
      | Some (c, e) \<Rightarrow>
          (case gettime_ms e of (now, e) \<Rightarrow>
             if now - last_explained s < 500 then (Some s, 0, Some (c, e))
             else
               let s = s\<lparr>last_explained := now\<rparr> in
               case response_frame c e of
                 None \<Rightarrow> (Some s, 1, None)
               | Some (None, e) \<Rightarrow> (Some s, 1, Some (c, e))
               | Some (Some fr, e) \<Rightarrow>
                   if env_me e = Some (rec_binary s)
                   then (Some s, 0, Some (c\<lparr>please_explain := Some (fr\<lparr>source_full := True\<rparr>)\<rparr>, e))
                   else case Option.bind (payload fr) (explain_append combined s) of
                     None \<Rightarrow> (Some s, 1, None)
                   | Some b \<Rightarrow>
                       if ob_overrun b
                       then (Some s, 1, Some (c\<lparr>please_explain := Some (fr\<lparr>payload := Some (ob_rewind b)\<rparr>)\<rparr>, e))
                       else (Some s, 0, Some (c\<lparr>please_explain := Some (fr\<lparr>payload := Some b\<rparr>)\<rparr>,
                                              e\<lparr>env_explained := env_explained e @ [rec_binary s]\<rparr>))))"

definition sender_combined :: "decode_context \<Rightarrow> sub tree_root \<Rightarrow> bool" where
  "sender_combined c root =
     (case sender c of None \<Rightarrow> False | Some sid \<Rightarrow> (case subscriber_at root sid of None \<Rightarrow> False | Some s \<Rightarrow> id_combined s))"

definition explain_matching :: "sid \<Rightarrow> decode_context \<Rightarrow> sub tree_root \<Rightarrow> environment \<Rightarrow>
    (decode_context \<times> sub tree_root \<times> environment) option" where
  "explain_matching sid c root e =
     (case tree_walk_prefix root sid (add_explain_response (sender_combined c root)) (Some (c, e)) of
        Some (ret, root, Some (c, e)) \<Rightarrow> Some (c, root, e)
      | _ \<Rightarrow> None)"

section \<open>Parsing an address\<close>

text \<open>
  The results are the return value, what \<^verbatim>\<open>*subscriber\<close> then holds (\<open>old\<close> if it is not assigned), and the state. In
  \<open>ask\<close> the memory for the reply is not checked.
\<close>

type_synonym parsed = "int \<times> sid option \<times> decode_context option \<times> overlay_buffer \<times> sub tree_root \<times> environment"

definition append_reply :: "(overlay_buffer \<Rightarrow> overlay_buffer option) \<Rightarrow> decode_context \<Rightarrow> decode_context option" where
  "append_reply f c =
     (case please_explain c of
        None \<Rightarrow> None
      | Some fr \<Rightarrow> map_option (\<lambda>b. c\<lparr>please_explain := Some (fr\<lparr>payload := Some b\<rparr>)\<rparr>) (Option.bind (payload fr) f))"

definition ask :: "decode_context \<Rightarrow> environment \<Rightarrow> (bool \<times> decode_context \<times> environment) option" where
  "ask c e =
     (if please_explain c \<noteq> None then Some (True, c, e)
      else case env_alloc e of
        (False, e) \<Rightarrow> None
      | (True, e) \<Rightarrow> map_option (\<lambda>(fr, e). (payload fr \<noteq> None, c\<lparr>please_explain := Some fr\<rparr>, e)) (new_reply MDP_MTU e))"

definition find_subscr_buffer :: "decode_context option \<Rightarrow> overlay_buffer \<Rightarrow> nat \<Rightarrow> sid option \<Rightarrow> sub tree_root \<Rightarrow> environment \<Rightarrow> parsed option" where
  "find_subscr_buffer c b len old root e =
     (if len > SID_SIZE then Some (-1, old, c, b, root, e)
      else case ob_get_bytes_ptr len b of
        (None, b) \<Rightarrow> Some (-1, old, c, b, root, e)
      | (Some p, b) \<Rightarrow>
          (case fetch p len b of
             None \<Rightarrow> None
           | Some sid \<Rightarrow>
               (case find_subscriber sid True root e of
                  None \<Rightarrow> None
                | Some (Some s, root, e) \<Rightarrow> Some (0, Some s, map_option (\<lambda>c. c\<lparr>previous := Some s\<rparr>) c, b, root, e)
                | Some (None, root, e) \<Rightarrow>
                    (case c of
                       None \<Rightarrow> Some (-1, None, c, b, root, e)
                     | Some c \<Rightarrow>
                         let c = c\<lparr>invalid_address := True\<rparr> in
                         if dont_explain c then Some (0, None, Some c, b, root, e)
                         else case ask c e of
                           None \<Rightarrow> None
                         | Some (False, c, e) \<Rightarrow> Some (-1, None, Some c, b, root, e)
                         | Some (True, c, e) \<Rightarrow>
                             (case explain_matching sid c root e of
                                None \<Rightarrow> None
                              | Some (c, root, e) \<Rightarrow>
                                  map_option (\<lambda>c. (0, None, Some c, b, root, e))
                                    (append_reply (\<lambda>p. Option.bind (ob_append_byte (of_nat len) p) (ob_append_bytes sid)) c))))))"

definition decode_sid_from_signkey :: "overlay_buffer \<Rightarrow> sid option \<Rightarrow> sub tree_root \<Rightarrow> environment \<Rightarrow>
    (int \<times> sid option \<times> overlay_buffer \<times> sub tree_root \<times> environment) option" where
  "decode_sid_from_signkey b old root e =
     (case ob_get_bytes_ptr SID_SIZE b of
        (None, b) \<Rightarrow> Some (-1, old, b, root, e)
      | (Some p, b) \<Rightarrow>
          (case fetch p SID_SIZE b of
             None \<Rightarrow> None
           | Some key \<Rightarrow>
               (case env_to_sid e key of
                  None \<Rightarrow> Some (-1, old, b, root, e)
                | Some sid \<Rightarrow>
                    (case find_subscriber sid True root e of
                       None \<Rightarrow> None
                     | Some (s, root, e) \<Rightarrow>
                         let root = (case s of None \<Rightarrow> root
                               | Some s \<Rightarrow> change_subscriber (\<lambda>r. if id_combined r then r
                                   else r\<lparr>id_public := key, id_valid := True, id_combined := True\<rparr>) s root)
                         in Some (0, s, b, root, e)))))"

definition overlay_address_parse :: "decode_context option \<Rightarrow> overlay_buffer \<Rightarrow> sid option \<Rightarrow> sub tree_root \<Rightarrow> environment \<Rightarrow> parsed option" where
  "overlay_address_parse c b old root e =
     (case ob_get b of
        None \<Rightarrow> None
      | Some (len, b) \<Rightarrow>
          if len < 0 then Some (-1, old, c, b, root, e)
          else if of_int len = OA_CODE_SIGNKEY
          then map_option (\<lambda>(ret, s, b, root, e). (ret, s, c, b, root, e)) (decode_sid_from_signkey b old root e)
          else if len < 0xFB then find_subscr_buffer c b (nat len) old root e
          else case c of
            None \<Rightarrow> None
          | Some c \<Rightarrow>
              let invalid = c\<lparr>invalid_address := True\<rparr> in
              if of_int len = OA_CODE_P2P_YOU then
                (if point_to_point_device c \<noteq> None
                 then Some (0, env_me e, Some (c\<lparr>previous := env_me e\<rparr>), b, root, e)
                 else Some (0, old, Some invalid, b, root, e))
              else if of_int len = OA_CODE_P2P_ME then
                (if point_to_point_device c \<noteq> None
                 then Some (0, point_to_point_device c, Some (c\<lparr>previous := point_to_point_device c\<rparr>), b, root, e)
                 else if dont_explain c then Some (0, old, Some invalid, b, root, e)
                 else case ask c e of
                   None \<Rightarrow> None
                 | Some (False, c, e) \<Rightarrow> Some (-1, old, Some c, b, root, e)
                 | Some (True, c, e) \<Rightarrow>
                     map_option (\<lambda>c. (0, old, Some (c\<lparr>invalid_address := True\<rparr>), b, root, e)) (append_reply (ob_append_byte OA_CODE_P2P_YOU) c))
              else if of_int len = OA_CODE_SELF then
                (if sender c = None then Some (0, old, Some invalid, b, root, e)
                 else Some (0, sender c, Some (c\<lparr>previous := sender c\<rparr>), b, root, e))
              else
                (if previous c = None then Some (0, old, Some invalid, b, root, e)
                 else Some (0, previous c, Some c, b, root, e)))"

section \<open>Requests for explanations\<close>

text \<open>
  One turn of the loop in \<^verbatim>\<open>process_explain\<close>: \<open>Inl\<close> is the end with a result, \<open>Inr\<close> the next state. The pointer in the last case
  is not checked; for a null pointer the walk reads the first byte.
\<close>

type_synonym explaining = "decode_context \<times> overlay_buffer \<times> sub tree_root \<times> environment"

definition explain_me :: "decode_context \<Rightarrow> sub tree_root \<Rightarrow> environment \<Rightarrow> (decode_context \<times> sub tree_root \<times> environment) option" where
  "explain_me c root e =
     (case Option.bind (env_me e) (subscriber_at root) of
        None \<Rightarrow> None
      | Some s \<Rightarrow>
          (case add_explain_response (sender_combined c root) s (Some (c, e)) of
             (Some s', ret, Some (c, e)) \<Rightarrow> Some (c, change_subscriber (\<lambda>_. s') (rec_binary s) root, e)
           | _ \<Rightarrow> None))"

definition explain_step :: "explaining \<Rightarrow> (int \<times> explaining + explaining) option" where
  "explain_step st =
     (case st of (c, b, root, e) \<Rightarrow>
        case ob_remaining b of
          None \<Rightarrow> None
        | Some n \<Rightarrow>
            if n = 0 then Some (Inl (0, st))
            else case ob_get b of
              None \<Rightarrow> None
            | Some (len, b) \<Rightarrow>
                if len < 0 then Some (Inl (-1, c, b, root, e))
                else if of_int len = OA_CODE_P2P_YOU
                then map_option (\<lambda>(c, root, e). Inr (c, b, root, e)) (explain_me c root e)
                else if of_int len = OA_CODE_SIGNKEY
                then map_option (\<lambda>(ret, s, b, root, e). Inr (c, b, root, e)) (decode_sid_from_signkey b None root e)
                else if len > int SID_SIZE then Some (Inl (-1, c, b, root, e))
                else case ob_get_bytes_ptr (nat len) b of
                  (None, b) \<Rightarrow> if len = int SID_SIZE then Some (Inl (-1, c, b, root, e)) else None
                | (Some p, b) \<Rightarrow>
                    (case fetch p (nat len) b of
                       None \<Rightarrow> None
                     | Some sid \<Rightarrow>
                         if len = int SID_SIZE
                         then map_option (\<lambda>(s, root, e). Inr (c, b, root, e)) (find_subscriber sid True root e)
                         else map_option (\<lambda>(c, root, e). Inr (c, b, root, e)) (explain_matching sid c root e)))"

partial_function (option) explain_loop :: "explaining \<Rightarrow> (int \<times> explaining) option option" where
  "explain_loop st =
     (case explain_step st of
        None \<Rightarrow> Some None
      | Some (Inl r) \<Rightarrow> Some (Some r)
      | Some (Inr st) \<Rightarrow> explain_loop st)"

text \<open>The whole function; the reply, if there is one, is handed on with the payload's contents.\<close>

definition process_explain :: "sid option \<Rightarrow> overlay_buffer \<Rightarrow> sub tree_root \<Rightarrow> environment \<Rightarrow>
    (int \<times> overlay_frame option \<times> overlay_buffer \<times> sub tree_root \<times> environment) option option" where
  "process_explain source b root e =
     map_option (map_option (\<lambda>(ret, c, b, root, e). (ret, if ret = 0 then please_explain c else None, b, root, e)))
       (explain_loop (\<lparr>local_echo = False, encoding_header = False, invalid_address = False, dont_explain = False, please_explain = None,
          sender = source, previous = None, point_to_point_device = None\<rparr>, b, root, e))"

end
