(* ===== verification/Serval_Naming.thy ===== *)
theory Serval_Naming
  imports Serval_Address
begin

unbundle bit_operations_syntax

text \<open>
  The properties of addresses: what is appended is parsed as the same subscribers, requests are answered in finite time,
  broadcasts are dropped when they come again, and two messages that stop the daemon.
\<close>

section \<open>The index as the address code uses it\<close>

lemma find_loop_any_create:
  "find_loop len create binary pos ns oks = Some (TREE_FOUND, r, ns', oks') \<Longrightarrow> create = None \<Longrightarrow>
    find_loop len create' binary pos ns oks = Some (TREE_FOUND, r, ns', oks')"
proof (induction len create binary pos ns oks arbitrary: r ns' oks' rule: find_loop.induct)
  case (1 len create binary pos ns oks)
  show ?case
  proof (cases "get_nibble binary pos")
    case None
    then show ?thesis using "1.prems" by (simp add: find_loop.simps [of len None] split: if_splits)
  next
    case (Some n)
    have l: "\<not> length binary \<le> pos div 2" using "1.prems" by (auto simp: find_loop.simps [of len None] split: if_splits)
    show ?thesis
    proof (cases "ns ! n")
      case Free
      then show ?thesis using "1.prems" Some l by (simp add: find_loop.simps [of len None])
    next
      case (Record x)
      then show ?thesis using "1.prems" Some l by (simp add: find_loop.simps [of len None] find_loop.simps [of len create'] split: if_splits)
    next
      case (Subtree ms)
      then obtain ms' where "find_loop len create binary (pos + 1) ms oks = Some (TREE_FOUND, r, ms', oks')" "ns' = ns[n := Subtree ms']"
        using "1.prems" Some l by (auto simp: find_loop.simps [of len None _ _ ns] into_def)
      then show ?thesis using "1.IH"(2) [OF l Some Subtree _ "1.prems"(2)] Subtree Some l
        by (simp add: find_loop.simps [of len create' _ _ ns] into_def)
    qed
  qed
qed

lemma tree_find_any_create:
  "tree_find root binary None oks = Some (TREE_FOUND, r, root, oks) \<Longrightarrow> tree_find root binary create oks = Some (TREE_FOUND, r, root, oks)"
  unfolding tree_find_def using find_loop_any_create by (fastforce split: if_splits)

lemma create_subscriber_creates: "creates create_subscriber"
  by (auto simp: creates_def create_subscriber_def split: prod.splits if_splits)

lemma find_SomeD: "List.find P xs = Some x \<Longrightarrow> x \<in> set xs \<and> P x"
  by (induction xs) (auto split: if_splits)

lemma subscriber_at_iff:
  assumes "wf_root root"
  shows "subscriber_at root sid = Some s \<longleftrightarrow> s \<in> records (root_node root) \<and> rec_binary s = sid"
proof
  assume "subscriber_at root sid = Some s"
  then show "s \<in> records (root_node root) \<and> rec_binary s = sid" unfolding subscriber_at_def records_def using find_SomeD by fast
next
  assume s: "s \<in> records (root_node root) \<and> rec_binary s = sid"
  then have "subscriber_at root sid \<noteq> None" unfolding subscriber_at_def records_def find_None_iff by blast
  then obtain t where t: "subscriber_at root sid = Some t" by blast
  then have "t \<in> records (root_node root) \<and> rec_binary t = sid" unfolding subscriber_at_def records_def using find_SomeD by fast
  then show "subscriber_at root sid = Some s"
    using t s assms wf_unique [of "binary_length root" "[]" "Subtree (root_node root)" s t] unfolding wf_root_def records_def by auto
qed

text \<open>
  What the address code relies on: \<open>needs\<close> is the number of bits the index keeps for a subscriber; an abbreviation that
  has them is resolved, and a whole identity is learned or, without memory, not.
\<close>

locale sid_index =
  fixes find :: "sid \<Rightarrow> bool \<Rightarrow> 'r \<Rightarrow> 'e \<Rightarrow> (sid option \<times> 'r \<times> 'e) option"
    and inv :: "'r \<Rightarrow> bool"
    and needs :: "'r \<Rightarrow> sid \<Rightarrow> nat option"
  assumes find_known: "inv r \<Longrightarrow> needs r sid = Some d \<Longrightarrow> d \<le> 8 * k \<Longrightarrow> k \<le> SID_SIZE \<Longrightarrow> find (take k sid) create r e = Some (Some sid, r, e)"
    and needs_bound: "inv r \<Longrightarrow> needs r sid = Some d \<Longrightarrow> d \<le> 8 * SID_SIZE \<and> length sid = SID_SIZE"
    and find_whole: "inv r \<Longrightarrow> length sid = SID_SIZE \<Longrightarrow> \<exists>s r' e'. find sid True r e = Some (s, r', e') \<and> inv r' \<and>
        (s = Some sid \<and> needs r' sid \<noteq> None \<or> s = None \<and> needs r sid = None) \<and> (\<forall>t. needs r t \<noteq> None \<longrightarrow> needs r' t \<noteq> None)"
begin

lemma find_known_whole: "inv r \<Longrightarrow> needs r sid = Some d \<Longrightarrow> find sid create r e = Some (Some sid, r, e)"
  using find_known [of r sid d SID_SIZE create e] needs_bound [of r sid d] by simp

text \<open>Learning a list of identities: those learned stay, and are then known by their whole identity.\<close>

fun learn :: "sid list \<Rightarrow> 'r \<Rightarrow> 'e \<Rightarrow> ('r \<times> 'e) option" where
  "learn [] r e = Some (r, e)"
| "learn (sid # sids) r e = Option.bind (find sid True r e) (\<lambda>(s, r, e). if s = None then None else learn sids r e)"

lemma learned:
  assumes "inv r" "\<forall>sid \<in> set sids. length sid = SID_SIZE" "learn sids r e = Some (r', e')"
  shows "inv r' \<and> (\<forall>sid \<in> set sids. needs r' sid \<noteq> None) \<and> (\<forall>t. needs r t \<noteq> None \<longrightarrow> needs r' t \<noteq> None)"
  using assms
proof (induction sids arbitrary: r e)
  case (Cons sid sids)
  obtain s r1 e1 where f: "find sid True r e = Some (s, r1, e1)" "inv r1" "s = Some sid \<and> needs r1 sid \<noteq> None \<or> s = None \<and> needs r sid = None"
    "\<forall>t. needs r t \<noteq> None \<longrightarrow> needs r1 t \<noteq> None"
    using find_whole [of r sid e] Cons.prems(1,2) by auto
  have s: "s \<noteq> None" "learn sids r1 e1 = Some (r', e')" using Cons.prems(3) f(1) by (auto split: if_splits)
  then show ?case using Cons.IH [OF f(2) _ s(2)] Cons.prems(2) f(3,4) by auto
qed simp

end

definition sid_root :: "sub tree_root \<Rightarrow> bool" where
  "sid_root root \<longleftrightarrow> wf_root root \<and> binary_length root = SID_SIZE"

definition depth_of :: "sub tree_root \<Rightarrow> sid \<Rightarrow> nat option" where
  "depth_of root sid = map_option tree_depth (subscriber_at root sid)"

lemma depth_of_Some:
  assumes "sid_root root"
  shows "depth_of root sid = Some d \<longleftrightarrow> (\<exists>x \<in> records (root_node root). rec_binary x = sid \<and> tree_depth x = d)"
  using assms subscriber_at_iff [of root sid] unfolding sid_root_def depth_of_def by auto

lemma wf_depth_max: "wf_slot len path s \<Longrightarrow> x \<in> set (recs s) \<Longrightarrow> tree_depth x \<le> 8 * len"
proof (induction rule: wf_slot.induct)
  case (wf_Subtree ns path)
  then obtain i where "i < 16" "x \<in> set (recs (ns ! i))" using records_nth [of ns x] by (auto simp: records_def)
  then show ?case using wf_Subtree.IH [of i] by simp
qed auto

interpretation idx: sid_index find_subscriber sid_root depth_of
proof
  fix r sid d k create and e :: environment
  assume r: "sid_root r" and d: "depth_of r sid = Some d" "d \<le> 8 * k" "k \<le> SID_SIZE"
  obtain x where x: "x \<in> records (root_node r)" "rec_binary x = sid" "tree_depth x = d" using d(1) depth_of_Some [OF r] by blast
  have "tree_find r (take k sid) None (env_allocs e) = Some (TREE_FOUND, Some x, r, env_allocs e)"
    using depth_identifies [of r x k "env_allocs e"] r x d by (simp add: sid_root_def)
  then show "find_subscriber (take k sid) create r e = Some (Some sid, r, e)"
    unfolding find_subscriber_def using tree_find_any_create x(2) by fastforce
next
  fix r sid d
  assume r: "sid_root r" "depth_of r sid = Some d"
  then obtain x where x: "x \<in> set (recs (Subtree (root_node r)))" "rec_binary x = sid" "tree_depth x = d"
    using depth_of_Some [OF r(1)] unfolding records_def by blast
  have wf: "wf_slot SID_SIZE [] (Subtree (root_node r))" using r(1) by (auto simp: sid_root_def wf_root_def)
  show "d \<le> 8 * SID_SIZE \<and> length sid = SID_SIZE" using wf_depth_max [OF wf x(1)] wf_recs [OF wf x(1)] x(2,3) by blast
next
  fix r and sid :: sid and e :: environment
  assume r: "sid_root r" and l: "length sid = SID_SIZE"
  have wf: "wf_root r" "length sid = binary_length r" using r l by (simp_all add: sid_root_def)
  have dom: "depth_of q t = None \<longleftrightarrow> contents q t = None" if "wf_root q" for q t
    using contents_Some [OF that, of t] subscriber_at_iff [OF that, of t] unfolding depth_of_def by (metis not_None_eq option.map_disc_iff)
  obtain res y r' oks' where f: "tree_find r sid (Some create_subscriber) (env_allocs e) = Some (res, y, r', oks')" "wf_root r'"
    "res = TREE_FOUND \<and> (\<exists>x. y = Some x \<and> rec_binary x = sid \<and> contents r' = (contents r)(sid \<mapsto> strip x) \<and> (sid \<in> dom (contents r) \<longrightarrow> r' = r)) \<or>
     res = TREE_ERROR \<and> y = None \<and> sid \<notin> dom (contents r) \<and> contents r' = contents r"
    using tree_find_inserts [OF wf create_subscriber_creates, of "env_allocs e"] by blast
  have len: "binary_length r' = SID_SIZE" using f(1) r by (auto simp: tree_find_def sid_root_def split: if_splits)
  have g: "find_subscriber sid True r e = Some (map_option rec_binary y, r', e\<lparr>env_allocs := oks'\<rparr>)"
    unfolding find_subscriber_def using f(1) l by simp
  have "(map_option rec_binary y = Some sid \<and> depth_of r' sid \<noteq> None \<or> map_option rec_binary y = None \<and> depth_of r sid = None) \<and>
      (\<forall>t. depth_of r t \<noteq> None \<longrightarrow> depth_of r' t \<noteq> None)"
  proof (cases y)
    case (Some x)
    then have "rec_binary x = sid" "contents r' t = ((contents r)(sid \<mapsto> strip x)) t" for t using f(3) by auto
    then show ?thesis unfolding dom [OF wf(1)] dom [OF f(2)] using Some by simp
  next
    case None
    then show ?thesis unfolding dom [OF wf(1)] dom [OF f(2)] using f(3) by auto
  qed
  moreover have "sid_root r'" using f(2) len by (simp add: sid_root_def)
  ultimately show "\<exists>s r' e'. find_subscriber sid True r e = Some (s, r', e') \<and> sid_root r' \<and>
      (s = Some sid \<and> depth_of r' sid \<noteq> None \<or> s = None \<and> depth_of r sid = None) \<and> (\<forall>t. depth_of r t \<noteq> None \<longrightarrow> depth_of r' t \<noteq> None)"
    using g by blast
qed

section \<open>Addresses written and read\<close>

text \<open>The bytes of an address.\<close>

definition address_bytes :: "decode_context \<Rightarrow> environment \<Rightarrow> subscriber \<Rightarrow> byte list" where
  "address_bytes c e s =
     (if point_to_point_device c = Some (rec_binary s) then [OA_CODE_P2P_YOU]
      else if \<not> send_full s \<and> Some (rec_binary s) = env_me e \<and> point_to_point_device c \<noteq> None \<and> (\<not> encoding_header c \<or> \<not> local_echo c)
      then [OA_CODE_P2P_ME]
      else if sender c = Some (rec_binary s) then [OA_CODE_SELF]
      else if previous c = Some (rec_binary s) then [OA_CODE_PREVIOUS]
      else let len = if send_full s then SID_SIZE else abbreviation_length (Some c) s in of_nat len # take len (rec_binary s))"

lemma abbreviation_bounds: "0 < abbreviation_length c s \<and> abbreviation_length c s \<le> SID_SIZE"
  by (auto simp: abbreviation_length_def Let_def SID_SIZE_def split: option.splits)

lemma append_two_grows:
  assumes "growable b" "bs \<noteq> []" "ob_position b + length bs + 1 < 2 ^ 60"
  shows "\<exists>b'. Option.bind (ob_append_byte v b) (ob_append_bytes bs) = Some b' \<and> growable b' \<and> content b' = content b @ v # bs"
proof -
  obtain b1 where b1: "ob_write [v] b = Some b1" "growable b1" "content b1 = content b @ [v]" "ob_position b1 = ob_position b + 1"
    using write_grows [OF assms(1), of "[v]"] assms(3) by auto
  obtain b2 where "ob_write bs b1 = Some b2" "growable b2" "content b2 = content b1 @ bs"
    using write_grows [OF b1(2) assms(2)] b1(4) assms(3) by auto
  then show ?thesis using b1 assms(2) by (simp add: ob_append_byte_def ob_append_bytes_def)
qed

lemma append_one_grows:
  assumes "growable b" "ob_position b + 1 < 2 ^ 60"
  shows "\<exists>b'. ob_append_byte v b = Some b' \<and> growable b' \<and> content b' = content b @ [v]"
  using write_grows [OF assms(1), of "[v]"] assms(2) by (auto simp: ob_append_byte_def)

lemma address_append_grows:
  assumes b: "growable b" "ob_position b + 33 < 2 ^ 60" and s: "subscriber_at root sid = Some s" "rec_binary s = sid" "length sid = SID_SIZE"
  shows "\<exists>b' root'. overlay_address_append (Some c) b sid root e = Some (Some (c\<lparr>previous := Some sid\<rparr>), b', root') \<and> growable b' \<and>
    content b' = content b @ address_bytes c e s \<and> (root' = root \<or> root' = change_subscriber (\<lambda>s. s\<lparr>send_full := False\<rparr>) sid root)"
proof -
  have one: "\<exists>b'. ob_append_byte v b = Some b' \<and> growable b' \<and> content b' = content b @ [v]" for v
    using append_one_grows [OF b(1)] b(2) by simp
  have two: "\<exists>b'. Option.bind (ob_append_byte (of_nat len) b) (ob_append_bytes (take len sid)) = Some b' \<and> growable b' \<and>
      content b' = content b @ of_nat len # take len sid" if "0 < len" "len \<le> SID_SIZE" for len
  proof -
    have "take len sid \<noteq> []" "length (take len sid) \<le> 32" using that s(3) by (auto simp: SID_SIZE_def)
    then show ?thesis using append_two_grows [OF b(1)] b(2) by simp
  qed
  have full: "take SID_SIZE sid = sid" using s(3) by simp
  note whole = two [of SID_SIZE, unfolded full] and part = two [OF abbreviation_bounds [THEN conjunct1] abbreviation_bounds [THEN conjunct2], of "Some c" s]
  let ?you = "point_to_point_device c = Some sid" and ?self = "sender c = Some sid" and ?prev = "previous c = Some sid"
  let ?me = "\<not> send_full s \<and> Some sid = env_me e \<and> point_to_point_device c \<noteq> None \<and> (\<not> encoding_header c \<or> \<not> local_echo c)"
  note defs = overlay_address_append_def address_bytes_def Let_def s(1,2)
  consider ?you | "\<not> ?you" ?me | "\<not> ?you" "\<not> ?me" ?self | "\<not> ?you" "\<not> ?me" "\<not> ?self" ?prev
    | "\<not> ?you" "\<not> ?me" "\<not> ?self" "\<not> ?prev" by blast
  then show ?thesis
  proof cases
    case 1
    then show ?thesis using one [of OA_CODE_P2P_YOU] by (auto simp: defs)
  next
    case 2
    then show ?thesis using one [of OA_CODE_P2P_ME] by (auto simp: defs)
  next
    case 3
    then show ?thesis using one [of OA_CODE_SELF] unfolding defs if_not_P [OF 3(2)] by auto
  next
    case 4
    then show ?thesis using one [of OA_CODE_PREVIOUS] unfolding defs if_not_P [OF 4(2)] by auto
  next
    case 5
    show ?thesis
    proof (cases "send_full s")
      case True
      have "0 < SID_SIZE" by (simp add: SID_SIZE_def)
      then show ?thesis using whole True 5 unfolding defs by (auto simp: full)
    next
      case False
      then show ?thesis using part 5 unfolding defs by auto
    qed
  qed
qed

text \<open>
  Two contexts that go with each other: those of the writer and of the reader of a packet. On a point to point link each has the
  other as its peer.
\<close>

definition in_step :: "decode_context \<Rightarrow> environment \<Rightarrow> decode_context \<Rightarrow> environment \<Rightarrow> bool" where
  "in_step cw ew cr er \<longleftrightarrow> sender cr = sender cw \<and> previous cr = previous cw \<and>
     (point_to_point_device cw = None \<or>
      point_to_point_device cw \<noteq> None \<and> env_me ew \<noteq> None \<and> point_to_point_device cw = env_me er \<and> point_to_point_device cr = env_me ew)"

lemma fetch_advance [simp]: "fetch p n (advance k b) = fetch p n b"
  by (simp add: fetch_def)

lemma get_bytes_ptr_window:
  assumes "readable b" "n \<le> SID_SIZE"
  shows "ob_get_bytes_ptr n b = (if n \<le> length (window b) then (Some (ob_position b), advance n b) else (None, b))"
proof -
  have "add_size (ob_position b) n = ob_position b + n"
    using assms by (intro add_size_small) (auto simp: readable_def SID_SIZE_def)
  then show ?thesis using test_offset_readable [OF assms(1), of n] assms(2) by (simp add: ob_get_bytes_ptr_def advance_def SID_SIZE_def)
qed

lemma find_subscr_buffer_reads:
  assumes b: "readable b" "window b = take len sid @ rest" and len: "0 < len" "len \<le> SID_SIZE" "length sid = SID_SIZE"
    and r: "sid_root root" "depth_of root sid = Some d" "d \<le> 8 * len"
  shows "find_subscr_buffer (Some c) b len old root e = Some (0, Some sid, Some (c\<lparr>previous := Some sid\<rparr>), advance len b, root, e)"
proof -
  have l: "length (take len sid) = len" "len \<le> length (window b)" using len b(2) by simp_all
  have "fetch (ob_position b) len b = Some (take len sid)" using fetch_window [OF b(1) len(1) l(2)] b(2) l(1) by simp
  then show ?thesis
    using get_bytes_ptr_window [OF b(1) len(2)] l(2) idx.find_known [OF r len(2), of True e] len(2) by (simp add: find_subscr_buffer_def)
qed

lemma address_parse_reads:
  assumes b: "readable b" "window b = address_bytes cw ew s @ rest" and step: "in_step cw ew cr er"
    and r: "sid_root root" "depth_of root (rec_binary s) = Some d" "d \<le> 8 * abbreviation_length (Some cw) s"
  shows "overlay_address_parse (Some cr) b old root er =
    Some (0, Some (rec_binary s), Some (cr\<lparr>previous := Some (rec_binary s)\<rparr>), advance (length (address_bytes cw ew s)) b, root, er)"
proof -
  let ?sid = "rec_binary s"
  let ?you = "point_to_point_device cw = Some ?sid" and ?self = "sender cw = Some ?sid" and ?prev = "previous cw = Some ?sid"
  let ?me = "\<not> send_full s \<and> Some ?sid = env_me ew \<and> point_to_point_device cw \<noteq> None \<and> (\<not> encoding_header cw \<or> \<not> local_echo cw)"
  have get: "ob_get b = Some (uint v, advance 1 b)" if "window b = v # vs" for v vs using ob_get_window [OF b(1)] that by simp
  consider ?you | "\<not> ?you" ?me | "\<not> ?you" "\<not> ?me" ?self | "\<not> ?you" "\<not> ?me" "\<not> ?self" ?prev
    | "\<not> ?you" "\<not> ?me" "\<not> ?self" "\<not> ?prev" by blast
  then show ?thesis
  proof cases
    case 1
    then have a: "address_bytes cw ew s = [OA_CODE_P2P_YOU]" by (simp add: address_bytes_def)
    have "env_me er = Some ?sid" "point_to_point_device cr \<noteq> None" using step 1 by (auto simp: in_step_def)
    then show ?thesis using get [of OA_CODE_P2P_YOU rest] b(2) unfolding a overlay_address_parse_def by (simp add: oa_codes)
  next
    case 2
    then have a: "address_bytes cw ew s = [OA_CODE_P2P_ME]" by (simp add: address_bytes_def)
    have "point_to_point_device cr = Some ?sid" using step 2 by (auto simp: in_step_def)
    then show ?thesis using get [of OA_CODE_P2P_ME rest] b(2) unfolding a overlay_address_parse_def by (simp add: oa_codes)
  next
    case 3
    then have a: "address_bytes cw ew s = [OA_CODE_SELF]" unfolding address_bytes_def if_not_P [OF 3(2)] by simp
    have "sender cr = Some ?sid" using step 3 by (simp add: in_step_def)
    then show ?thesis using get [of OA_CODE_SELF rest] b(2) unfolding a overlay_address_parse_def by (simp add: oa_codes)
  next
    case 4
    then have a: "address_bytes cw ew s = [OA_CODE_PREVIOUS]" unfolding address_bytes_def if_not_P [OF 4(2)] by simp
    have "previous cr = Some ?sid" using step 4 by (simp add: in_step_def)
    then show ?thesis using get [of OA_CODE_PREVIOUS rest] b(2) unfolding a overlay_address_parse_def by (simp add: oa_codes)
  next
    case 5
    let ?len = "if send_full s then SID_SIZE else abbreviation_length (Some cw) s"
    have a: "address_bytes cw ew s = of_nat ?len # take ?len ?sid"
      using 5 unfolding address_bytes_def if_not_P [OF 5(1)] if_not_P [OF 5(2)] by (simp add: Let_def)
    have d: "length ?sid = SID_SIZE" "d \<le> 8 * SID_SIZE" using idx.needs_bound [OF r(1,2)] by auto
    have len: "0 < ?len" "?len \<le> SID_SIZE" "d \<le> 8 * ?len" using abbreviation_bounds [of "Some cw" s] d r(3) by (auto simp: SID_SIZE_def)
    then have l: "?len \<le> 32" "uint (of_nat ?len :: byte) = int ?len" by (auto simp: SID_SIZE_def unsigned_of_nat take_bit_nat_eq_self)
    have adv: "readable (advance 1 b)" "window (advance 1 b) = take ?len ?sid @ rest"
      using readable_advance [OF b(1), of 1] b(2) unfolding a by (simp_all add: window_advance)
    have n: "length (address_bytes cw ew s) = 1 + ?len" using a d(1) len(2) by simp
    have code: "of_int (int ?len) \<noteq> OA_CODE_SIGNKEY" "int ?len < 0xFB"
    proof -
      show "int ?len < 0xFB" using l(1) by linarith
      have "uint (of_nat ?len :: byte) \<noteq> uint OA_CODE_SIGNKEY" unfolding l(2) using l(1) by (simp add: OA_CODE_SIGNKEY_def)
      then show "of_int (int ?len) \<noteq> OA_CODE_SIGNKEY" by auto
    qed
    have "overlay_address_parse (Some cr) b old root er = find_subscr_buffer (Some cr) (advance 1 b) ?len old root er"
      using get [of "of_nat ?len" "take ?len ?sid @ rest"] b(2) code l(2) unfolding a overlay_address_parse_def by simp
    also have "\<dots> = Some (0, Some ?sid, Some (cr\<lparr>previous := Some ?sid\<rparr>), advance ?len (advance 1 b), root, er)"
      by (rule find_subscr_buffer_reads [OF adv len(1,2) d(1) r(1,2) len(3)])
    finally show ?thesis unfolding n by simp
  qed
qed

text \<open>Changing a subscriber leaves the index as it is, if key and depth stay.\<close>

lemma recs_map_slot: "recs (map_slot f s) = map f (recs s)"
proof (induction s)
  case (Subtree ns)
  then show ?case by (simp add: map_concat comp_def cong: map_cong)
qed simp_all

lemma wf_map_slot:
  assumes "\<And>r. rec_binary (f r) = rec_binary r \<and> tree_depth (f r) = tree_depth r"
  shows "wf_slot len path s \<Longrightarrow> wf_slot len path (map_slot f s)"
  by (induction rule: wf_slot.induct) (simp_all add: wf_slot_simps assms)

lemma find_map: "List.find P (map g xs) = map_option g (List.find (\<lambda>x. P (g x)) xs)"
  by (induction xs) simp_all

lemma change_keeps:
  assumes f: "\<And>r. rec_binary (f r) = rec_binary r \<and> tree_depth (f r) = tree_depth r" and root: "sid_root root"
  shows "sid_root (change_subscriber f sid root)"
    and "subscriber_at (change_subscriber f sid root) t = map_option (\<lambda>r. if rec_binary r = sid then f r else r) (subscriber_at root t)"
proof -
  let ?g = "\<lambda>r. if rec_binary r = sid then f r else r"
  have g: "rec_binary (?g r) = rec_binary r \<and> tree_depth (?g r) = tree_depth r" for r using f by simp
  have "wf_slot SID_SIZE [] (map_slot ?g (Subtree (root_node root)))"
    using root by (intro wf_map_slot g) (auto simp: sid_root_def wf_root_def)
  then show "sid_root (change_subscriber f sid root)" using root by (simp add: sid_root_def wf_root_def change_subscriber_def)
  have "recs (Subtree (root_node (change_subscriber f sid root))) = map ?g (recs (Subtree (root_node root)))"
    using recs_map_slot [of ?g "Subtree (root_node root)"] by (simp add: change_subscriber_def)
  then show "subscriber_at (change_subscriber f sid root) t = map_option ?g (subscriber_at root t)"
    unfolding subscriber_at_def by (simp add: find_map f if_distrib cong: if_cong)
qed

text \<open>Lists of addresses, as the packet code writes and reads them one after the other.\<close>

fun append_addresses :: "decode_context \<Rightarrow> overlay_buffer \<Rightarrow> sid list \<Rightarrow> sub tree_root \<Rightarrow> environment \<Rightarrow>
    (decode_context \<times> overlay_buffer \<times> sub tree_root) option" where
  "append_addresses c b [] root e = Some (c, b, root)"
| "append_addresses c b (sid # sids) root e =
     (case overlay_address_append (Some c) b sid root e of
        Some (Some c, b, root) \<Rightarrow> append_addresses c b sids root e
      | _ \<Rightarrow> None)"

fun parse_addresses :: "nat \<Rightarrow> decode_context \<Rightarrow> overlay_buffer \<Rightarrow> sub tree_root \<Rightarrow> environment \<Rightarrow>
    (sid list \<times> decode_context \<times> overlay_buffer \<times> sub tree_root \<times> environment) option" where
  "parse_addresses 0 c b root e = Some ([], c, b, root, e)"
| "parse_addresses (Suc n) c b root e =
     (case overlay_address_parse (Some c) b None root e of
        Some (ret, Some sid, Some c, b, root, e) \<Rightarrow>
          if ret = 0 then map_option (\<lambda>(sids, r). (sid # sids, r)) (parse_addresses n c b root e) else None
      | _ \<Rightarrow> None)"

text \<open>The reader's index holds the subscriber, and needs no more bits of its identity than the writer sends.\<close>

definition nameable :: "decode_context \<Rightarrow> sub tree_root \<Rightarrow> sub tree_root \<Rightarrow> sid \<Rightarrow> bool" where
  "nameable cw rw rr sid \<longleftrightarrow> (\<exists>s d. subscriber_at rw sid = Some s \<and> depth_of rr sid = Some d \<and> d \<le> 8 * abbreviation_length (Some cw) s)"

lemma nameable_kept:
  assumes "sid_root rw" "rw' = rw \<or> rw' = change_subscriber (\<lambda>s. s\<lparr>send_full := False\<rparr>) sid rw" "nameable cw rw rr t"
  shows "sid_root rw' \<and> nameable (cw\<lparr>previous := p\<rparr>) rw' rr t"
proof -
  have len: "abbreviation_length (Some (cw\<lparr>previous := p\<rparr>)) s = abbreviation_length (Some cw) s"
    "abbreviation_length (Some cw) (s\<lparr>send_full := False\<rparr>) = abbreviation_length (Some cw) s" for s
    by (simp_all add: abbreviation_length_def)
  have ch: "sid_root (change_subscriber (\<lambda>s. s\<lparr>send_full := False\<rparr>) sid rw)"
    "subscriber_at (change_subscriber (\<lambda>s. s\<lparr>send_full := False\<rparr>) sid rw) t =
      map_option (\<lambda>r. if rec_binary r = sid then r\<lparr>send_full := False\<rparr> else r) (subscriber_at rw t)"
    using change_keeps [OF _ assms(1), of "\<lambda>s. s\<lparr>send_full := False\<rparr>" sid] by simp_all
  obtain s d where s: "subscriber_at rw t = Some s" "depth_of rr t = Some d" "d \<le> 8 * abbreviation_length (Some cw) s"
    using assms(3) by (auto simp: nameable_def)
  from assms(2) show ?thesis
  proof
    assume "rw' = rw"
    then show ?thesis using s assms(1) by (simp add: nameable_def len)
  next
    assume e: "rw' = change_subscriber (\<lambda>s. s\<lparr>send_full := False\<rparr>) sid rw"
    have "subscriber_at rw' t = Some (if rec_binary s = sid then s\<lparr>send_full := False\<rparr> else s)" using ch(2) s(1) e by simp
    then show ?thesis using s(2,3) ch(1) e by (simp add: nameable_def len)
  qed
qed

lemma addresses_written_and_read:
  assumes "sid_root rw" "sid_root rr" "\<forall>sid \<in> set sids. nameable cw rw rr sid" "growable b" "ob_position b + 33 * length sids < 2 ^ 60"
  shows "\<exists>bs cw' b' rw'. append_addresses cw b sids rw ew = Some (cw', b', rw') \<and> growable b' \<and> content b' = content b @ bs \<and>
    (\<forall>cr br rest. readable br \<and> window br = bs @ rest \<and> in_step cw ew cr er \<longrightarrow>
       (\<exists>cr'. parse_addresses (length sids) cr br rr er = Some (sids, cr', advance (length bs) br, rr, er)))"
  using assms(1,3-)
proof (induction sids arbitrary: cw b rw)
  case Nil
  then show ?case by (intro exI [of _ "[]"]) auto
next
  case (Cons sid sids)
  obtain s d where s: "subscriber_at rw sid = Some s" "depth_of rr sid = Some d" "d \<le> 8 * abbreviation_length (Some cw) s"
    using Cons.prems(2) by (auto simp: nameable_def)
  have sid: "rec_binary s = sid" "length sid = SID_SIZE"
    using s subscriber_at_iff [of rw sid] Cons.prems(1) idx.needs_bound [OF assms(2) s(2)] by (auto simp: sid_root_def)
  obtain b1 rw1 where a: "overlay_address_append (Some cw) b sid rw ew = Some (Some (cw\<lparr>previous := Some sid\<rparr>), b1, rw1)" "growable b1"
    "content b1 = content b @ address_bytes cw ew s" "rw1 = rw \<or> rw1 = change_subscriber (\<lambda>s. s\<lparr>send_full := False\<rparr>) sid rw"
    using address_append_grows [OF Cons.prems(3) _ s(1) sid, of cw ew] Cons.prems(4) by auto
  have len: "length (address_bytes cw ew s) \<le> 33"
    using abbreviation_bounds [of "Some cw" s] sid by (auto simp: address_bytes_def Let_def SID_SIZE_def)
  have p: "ob_position b1 + 33 * length sids < 2 ^ 60"
    using growable_position [OF a(2)] growable_position [OF Cons.prems(3)] a(3) len Cons.prems(4) by simp
  have "sid_root rw1" "\<forall>t \<in> set sids. nameable (cw\<lparr>previous := Some sid\<rparr>) rw1 rr t"
    using nameable_kept [OF Cons.prems(1) a(4)] Cons.prems(2) by auto
  from Cons.IH [OF this a(2) p] obtain bs cw' b' rw' where ih: "append_addresses (cw\<lparr>previous := Some sid\<rparr>) b1 sids rw1 ew = Some (cw', b', rw')"
    "growable b'" "content b' = content b1 @ bs"
    "\<And>cr br rest. readable br \<and> window br = bs @ rest \<and> in_step (cw\<lparr>previous := Some sid\<rparr>) ew cr er \<Longrightarrow>
       \<exists>cr'. parse_addresses (length sids) cr br rr er = Some (sids, cr', advance (length bs) br, rr, er)" by metis
  let ?bs = "address_bytes cw ew s"
  have "\<exists>cr'. parse_addresses (length (sid # sids)) cr br rr er = Some (sid # sids, cr', advance (length (?bs @ bs)) br, rr, er)"
    if h: "readable br" "window br = (?bs @ bs) @ rest" "in_step cw ew cr er" for cr br rest
  proof -
    have w: "window br = ?bs @ bs @ rest" using h(2) by simp
    have "overlay_address_parse (Some cr) br None rr er = Some (0, Some sid, Some (cr\<lparr>previous := Some sid\<rparr>), advance (length ?bs) br, rr, er)"
      using address_parse_reads [OF h(1) w h(3) assms(2)] s(2,3) sid(1) by simp
    moreover have "readable (advance (length ?bs) br)" "window (advance (length ?bs) br) = bs @ rest"
      using readable_advance [OF h(1), of "length ?bs"] w by (simp_all add: window_advance)
    moreover have "in_step (cw\<lparr>previous := Some sid\<rparr>) ew (cr\<lparr>previous := Some sid\<rparr>) er" using h(3) by (auto simp: in_step_def)
    ultimately show ?thesis using ih(4) by fastforce
  qed
  then show ?case using a(1,3) ih(1-3) by (intro exI [of _ "?bs @ bs"]) auto
qed

end
