(* ===== verification/Serval_Mesh.thy ===== *)
theory Serval_Mesh
  imports Serval_Naming
begin

text \<open>
  What the mesh daemon's addresses achieve between two nodes: lists of subscribers go from one to the other, requests for
  explanations are answered in finite time, repeated broadcasts are dropped. Two messages that make a node abort.
\<close>

section \<open>Lists of addresses\<close>

text \<open>
  C15. Any list of subscribers that one node appends to a new packet (as codes for the sender, the previous one or the peers of
  a point to point link, as whole identities or as abbreviations) is parsed by another node as the same list, if that node
  knows them, needs no more bits of their identities than are sent, and its context is in step; the packet is used up, and the
  reader's index does not change.
\<close>

theorem addresses_roundtrip:
  assumes "sid_root rw" "sid_root rr" "\<forall>sid \<in> set sids. nameable cw rw rr sid" "in_step cw ew cr er"
    "False \<notin> set oks" "33 * length sids < 2 ^ 60"
  shows "\<exists>b cw' b1 rw' b2 cr' b3. ob_new oks = Some b \<and> append_addresses cw b sids rw ew = Some (cw', b1, rw') \<and> ob_flip b1 = Some b2 \<and>
    parse_addresses (length sids) cr b2 rr er = Some (sids, cr', b3, rr, er) \<and> ob_remaining b3 = Some 0"
proof -
  obtain b where b: "ob_new oks = Some b" "growable b" "content b = []" using new_growable [OF assms(5)] by blast
  have pos: "ob_position b + 33 * length sids < 2 ^ 60" using growable_position [OF b(2)] b(3) assms(6) by simp
  obtain bs cw' b1 rw' where w: "append_addresses cw b sids rw ew = Some (cw', b1, rw')" "growable b1" "content b1 = bs"
    "\<And>cr br rest. readable br \<and> window br = bs @ rest \<and> in_step cw ew cr er \<Longrightarrow>
       \<exists>cr'. parse_addresses (length sids) cr br rr er = Some (sids, cr', advance (length bs) br, rr, er)"
    using addresses_written_and_read [OF assms(1-3) b(2) pos, of ew er] b(3) by auto
  obtain b2 where b2: "ob_flip b1 = Some b2" "readable b2" "window b2 = bs" "sizeLimit b2 = ob_position b1" "ob_position b2 = 0"
    using flip_readable [OF w(2)] w(3) by auto
  obtain cr' where p: "parse_addresses (length sids) cr b2 rr er = Some (sids, cr', advance (length bs) b2, rr, er)"
    using w(4) [of b2 "[]" cr] b2(2,3) assms(4) by auto
  have "sizeLimit b2 = length bs" using b2(4) growable_position [OF w(2)] w(3) by simp
  moreover have "sizeLimit b2 < 2 ^ 62" using b2(2) by (simp add: readable_def)
  ultimately have "ob_remaining (advance (length bs) b2) = Some 0" using b2(5) by (simp add: ob_remaining_def SIZE_MAX_def)
  then show ?thesis using b(1) w(1) b2(1) p by blast
qed

text \<open>A node can always read what it writes itself.\<close>

lemma own_nameable:
  assumes "sid_root root" "depth_of root sid \<noteq> None"
  shows "nameable c root root sid"
proof -
  obtain s where s: "subscriber_at root sid = Some s" "depth_of root sid = Some (tree_depth s)"
    using assms(2) by (auto simp: depth_of_def)
  have "tree_depth s \<le> 8 * SID_SIZE" using idx.needs_bound [OF assms(1) s(2)] by simp
  then have "tree_depth s \<le> 8 * abbreviation_length (Some c) s"
    by (auto simp: abbreviation_length_def Let_def)
  then show ?thesis using s by (auto simp: nameable_def)
qed

definition quiet :: environment where
  "quiet = \<lparr>env_allocs = [], env_buffers = [], env_clock = [], env_me = None, env_to_sid = (\<lambda>_. None), env_explained = []\<rparr>"

definition blank :: decode_context where
  "blank = \<lparr>local_echo = False, encoding_header = False, invalid_address = False, dont_explain = False, please_explain = None,
     sender = None, previous = None, point_to_point_device = None\<rparr>"

lemma learned_one:
  assumes "length sid = SID_SIZE"
  shows "\<exists>root. sid_root root \<and> depth_of root sid \<noteq> None"
proof -
  let ?x = "\<lparr>tree_depth = 4, rec_binary = sid, send_full = False, id_public = replicate SID_SIZE 0, id_valid = False, id_combined = False,
    last_explained = 0\<rparr>"
  let ?r = "\<lparr>binary_length = SID_SIZE, root_node = empty_node[nibs sid ! 0 := Record ?x]\<rparr>"
  have n: "nibs sid ! 0 < 16" "take 1 (nibs sid) = [nibs sid ! 0]"
    using assms by (auto simp: SID_SIZE_def take_Suc_conv_app_nth)
  then have r: "sid_root ?r" using assms
    by (auto simp: sid_root_def wf_root_def wf_slot_simps empty_node_def nth_list_update SID_SIZE_def)
  have "?x \<in> records (root_node ?r)" using n(1) by (simp add: records_update empty_node_def)
  then have "depth_of ?r sid = Some 4" using depth_of_Some [OF r] by force
  then show ?thesis using r by blast
qed

theorem addresses_roundtrip_witness:
  "\<exists>root b cw' b1 rw' b2 cr' b3. ob_new [] = Some b \<and> append_addresses blank b [replicate 32 7, replicate 32 7] root quiet = Some (cw', b1, rw') \<and>
    ob_flip b1 = Some b2 \<and> parse_addresses 2 blank b2 root quiet = Some ([replicate 32 7, replicate 32 7], cr', b3, root, quiet) \<and>
    ob_remaining b3 = Some 0"
proof -
  obtain root where r: "sid_root root" "depth_of root (replicate 32 7) \<noteq> None" using learned_one [of "replicate 32 7"] by (auto simp: SID_SIZE_def)
  let ?l = "[replicate 32 7, replicate 32 7] :: sid list"
  have n: "\<forall>sid \<in> set ?l. nameable blank root root sid" using own_nameable [OF r] by simp
  have s: "in_step blank quiet blank quiet" "False \<notin> set []" "33 * length ?l < 2 ^ 60" "length ?l = 2" by (simp_all add: in_step_def blank_def)
  show ?thesis using addresses_roundtrip [OF r(1) r(1) n s(1-3)] unfolding s(4) by blast
qed

section \<open>Requests for explanations\<close>

lemma explain_step_shrinks:
  assumes "readable b" "explain_step (c, b, root, e) = Some (Inr (c', b', root', e'))"
  shows "readable b' \<and> length (window b') < length (window b)"
proof -
  have get: "ob_get b = Some (case window b of [] \<Rightarrow> (-1, b) | v # _ \<Rightarrow> (uint v, advance 1 b))" by (rule ob_get_window [OF assms(1)])
  show ?thesis
  proof (cases "window b")
    case Nil
    then show ?thesis using assms(2) get by (auto simp: explain_step_def split: option.splits if_splits)
  next
    case (Cons v vs)
    have a: "readable (advance 1 b)" "window (advance 1 b) = vs"
      using readable_advance [OF assms(1), of 1] Cons by (simp_all add: window_advance)
    have ptr: "ob_get_bytes_ptr n (advance 1 b) = (p, b2) \<Longrightarrow> n \<le> SID_SIZE \<Longrightarrow> readable b2 \<and> length (window b2) \<le> length vs" for n p b2
      using get_bytes_ptr_window [OF a(1), of n] a readable_advance [OF a(1), of n] by (auto simp: window_advance split: if_splits)
    have sign: "decode_sid_from_signkey (advance 1 b) old root e = Some (ret, s, b2, root2, e2) \<Longrightarrow> readable b2 \<and> length (window b2) \<le> length vs"
      for old ret s b2 root2 e2
      using ptr [of SID_SIZE] by (auto simp: decode_sid_from_signkey_def Let_def split: option.splits prod.splits)
    obtain n where rem: "ob_remaining b = Some n" "n \<noteq> 0" using assms(2) by (auto simp: explain_step_def split: option.splits if_splits)
    have g: "ob_get b = Some (uint v, advance 1 b)" using get Cons by simp
    note st = assms(2) [unfolded explain_step_def prod.case rem(1) option.case if_not_P [OF rem(2)] g]
    consider "v = OA_CODE_P2P_YOU" | "v \<noteq> OA_CODE_P2P_YOU" "v = OA_CODE_SIGNKEY"
      | "v \<noteq> OA_CODE_P2P_YOU" "v \<noteq> OA_CODE_SIGNKEY" "nat (uint v) \<le> SID_SIZE" | "v \<noteq> OA_CODE_P2P_YOU" "v \<noteq> OA_CODE_SIGNKEY" "uint v > int SID_SIZE"
      by (metis nat_le_iff not_le)
    then have "readable b' \<and> length (window b') \<le> length vs"
    proof cases
      case 1
      then show ?thesis using st a by auto
    next
      case 2
      then show ?thesis using st sign by (auto simp: OA_CODE_P2P_YOU_def OA_CODE_SIGNKEY_def)
    next
      case 3
      obtain p b2 where p: "ob_get_bytes_ptr (nat (uint v)) (advance 1 b) = (p, b2)" by (cases "ob_get_bytes_ptr (nat (uint v)) (advance 1 b)")
      then have "b' = b2" using st 3 by (auto split: option.splits if_splits)
      then show ?thesis using ptr [OF p 3(3)] by simp
    next
      case 4
      then show ?thesis using st by auto
    qed
    then show ?thesis using Cons by simp
  qed
qed



section \<open>Two messages that stop a node\<close>

definition plenty :: "environment \<Rightarrow> bool" where
  "plenty e \<longleftrightarrow> False \<notin> set (env_allocs e) \<and> (\<forall>oks \<in> set (env_buffers e). False \<notin> set oks)"

lemma ask_plenty:
  assumes "plenty e"
  shows "\<exists>c' e'. ask c e = Some (True, c', e')"
proof -
  have "\<exists>b e'. env_ob_new e1 = (Some b, e') \<and> ob_position b = 0 \<and> checkpointLength b = 0 \<and> ob_bytes b = None" if "plenty e1" for e1
    using that by (auto simp: plenty_def env_ob_new_def ob_new_def split: list.splits bool.splits)
  moreover obtain e1 where "env_alloc e = (True, e1)" "plenty e1"
    using assms by (cases "env_allocs e") (auto simp: plenty_def env_alloc_def alloc_def)
  ultimately obtain b e2 where "env_ob_new e1 = (Some b, e2)" "ob_position b = 0" "checkpointLength b = 0" "ob_bytes b = None" "env_alloc e = (True, e1)"
    by blast
  then show ?thesis by (auto simp: ask_def new_reply_def ob_limitsize_def MDP_MTU_def SIZE_MAX_def)
qed

text \<open>
  C36. An address whose length byte is 0 makes a node abort, with memory enough and a context that allows asking for an
  explanation: the empty abbreviation is not unique, so it is appended to the request for an explanation, and
  \<^verbatim>\<open>ob_append_bytes\<close> asserts that there is something to append.
\<close>

theorem empty_address_aborts:
  assumes b: "readable b" "window b = 0 # rest" and "\<not> dont_explain c" "plenty e"
  shows "overlay_address_parse (Some c) b old root e = None"
proof -
  have adv: "readable (advance 1 b)" using readable_advance [OF b(1), of 1] b(2) by simp
  obtain m where m: "ob_bytes b = Some m" using b(2) by (cases "ob_bytes b") (auto simp: window_def)
  have f: "fetch (ob_position b + 1) 0 b = Some []"
    using m adv by (auto simp: fetch_def readable_def)
  have ptr: "ob_get_bytes_ptr 0 (advance 1 b) = (Some (ob_position b + 1), advance 1 b)"
    using get_bytes_ptr_window [OF adv, of 0] by simp
  have nf: "find_subscriber [] True root e = Some (None, root, e)"
    by (simp add: find_subscriber_def SID_SIZE_def tree_find_def find_loop.simps)
  obtain c1 e1 where a: "ask (c\<lparr>invalid_address := True\<rparr>) e = Some (True, c1, e1)" using ask_plenty [OF assms(4)] by blast
  have "append_reply (\<lambda>p. Option.bind (ob_append_byte v p) (ob_append_bytes [])) c2 = None" for c2 v
  proof -
    have "Option.bind (ob_append_byte v p) (ob_append_bytes []) = None" for p by (cases "ob_append_byte v p") (simp_all add: ob_append_bytes_def)
    then show ?thesis by (simp add: append_reply_def split: option.splits)
  qed
  then have "find_subscr_buffer (Some c) (advance 1 b) 0 old root e = None"
    using ptr f nf a assms(3) by (auto simp: find_subscr_buffer_def Let_def split: option.splits)
  then show ?thesis using ob_get_window [OF b(1)] b(2) by (simp add: overlay_address_parse_def OA_CODE_SIGNKEY_def)
qed

theorem empty_address_aborts_witness:
  "overlay_address_parse (Some blank) \<lparr>ob_bytes = Some [0], checkpointLength = 0, ob_position = 0, sizeLimit = 1, allocSize = 1, allocated = False, ob_allocs = []\<rparr>
     None (tree_new SID_SIZE) quiet = None"
  by (rule empty_address_aborts [of _ "[]"]) (simp_all add: readable_def window_def blank_def quiet_def plenty_def)

text \<open>
  A request for an explanation that ends before the abbreviation it announces makes a node read through a null
  pointer: the result of \<^verbatim>\<open>ob_get_bytes_ptr\<close> is checked for whole identities and not for abbreviations.
\<close>

theorem short_request_aborts:
  assumes b: "readable b" "sizeLimit b \<noteq> SIZE_MAX" "window b = v # rest" and "length rest < unat v" "unat v < SID_SIZE"
  shows "process_explain source b root e = Some None"
proof -
  have adv: "readable (advance 1 b)" "window (advance 1 b) = rest" using readable_advance [OF b(1), of 1] b(3) by (simp_all add: window_advance)
  have r: "ob_remaining b = Some (Suc (length rest))" using b length_window [OF b(1)] by (auto simp: ob_remaining_def readable_def)
  have "uint v = int (unat v)" by simp
  then have u: "\<not> int SID_SIZE < uint v" "uint v \<noteq> int SID_SIZE" "nat (uint v) = unat v"
    using assms(5) by linarith+
  have v: "v \<noteq> OA_CODE_P2P_YOU" "v \<noteq> OA_CODE_SIGNKEY" using assms(5) by (auto simp: oa_codes SID_SIZE_def)
  have "ob_get_bytes_ptr (unat v) (advance 1 b) = (None, advance 1 b)"
    using get_bytes_ptr_window [OF adv(1), of "unat v"] adv(2) assms(4,5) by simp
  then have "explain_step (c, b, root, e) = None" for c
    using r ob_get_window [OF b(1)] b(3) v u by (simp add: explain_step_def)
  then show ?thesis by (subst process_explain_def, subst explain_loop.simps) simp
qed

theorem short_request_aborts_witness:
  "process_explain None \<lparr>ob_bytes = Some [3, 1], checkpointLength = 0, ob_position = 0, sizeLimit = 2, allocSize = 2, allocated = False, ob_allocs = []\<rparr>
     (tree_new SID_SIZE) quiet = Some None"
  by (rule short_request_aborts [of _ 3 "[1]"]) (simp_all add: readable_def window_def SIZE_MAX_def SID_SIZE_def)

section \<open>Broadcasts\<close>

definition seen :: "byte list list \<Rightarrow> bpilist" where
  "seen bpis = fold (\<lambda>bpi l. snd (overlay_broadcast_drop_check bpi l)) bpis bpilist_init"

lemma seen_snoc: "seen (bpis @ [bpi]) = (seen bpis)(unat (bpi_hash bpi) := bpi)"
  by (auto simp: seen_def overlay_broadcast_drop_check_def Let_def)

lemma seen_slot: "seen bpis i = (case filter (\<lambda>bpi. unat (bpi_hash bpi) = i) bpis of [] \<Rightarrow> replicate BROADCAST_LEN 0 | x # xs \<Rightarrow> last (x # xs))"
proof (induction bpis rule: rev_induct)
  case Nil
  show ?case by (simp add: seen_def bpilist_init_def)
next
  case (snoc bpi bpis)
  then show ?case by (auto simp: seen_snoc split: list.splits)
qed

text \<open>
  C17. After any broadcasts, one is dropped exactly when the last of them that has the same hash is the same; before any with that hash, only the
  one that is all zeros is dropped. So a broadcast that comes again is dropped unless another with its hash came in between, and
  nothing is dropped that has not come before, but for that one.
\<close>

theorem broadcast_dropped_iff:
  "fst (overlay_broadcast_drop_check addr (seen bpis)) \<longleftrightarrow>
    (case filter (\<lambda>bpi. bpi_hash bpi = bpi_hash addr) bpis of [] \<Rightarrow> addr = replicate BROADCAST_LEN 0 | x # xs \<Rightarrow> last (x # xs) = addr)"
proof -
  have h: "unat (bpi_hash bpi) = unat (bpi_hash addr) \<longleftrightarrow> bpi_hash bpi = bpi_hash addr" for bpi by (metis word_unat_eq_iff)
  have "fst (overlay_broadcast_drop_check addr (seen bpis)) \<longleftrightarrow> seen bpis (unat (bpi_hash addr)) = addr"
    by (simp add: overlay_broadcast_drop_check_def Let_def)
  then show ?thesis unfolding seen_slot h by (auto split: list.splits)
qed

end
