(* ===== verification/Serval_Text.thy ===== *)
theory Serval_Text
  imports Prelude
begin

unbundle bit_operations_syntax

text \<open>
  Binary data as text in the mesh daemon: \<^verbatim>\<open>servald/serval-dna-development/base64.c\<close> and the hexadecimal functions of
  \<^verbatim>\<open>str.c\<close>. Characters are bytes. A source is the array of characters from the pointer to the end of its memory; \<open>None\<close> is
  a read outside of it or of a table, or a failed assertion. What is written is the list of bytes written.
\<close>

section \<open>Base64: tables\<close>

definition base64_symbols :: "byte list" where
  "base64_symbols = map word_of_nat ([65..<91] @ [97..<123] @ [48..<58]) @ [43, 47, 61]"

definition base64url_symbols :: "byte list" where
  "base64url_symbols = map word_of_nat ([65..<91] @ [97..<123] @ [48..<58]) @ [45, 95, 61]"

text \<open>The character classes; the table has 255 entries, and none for the character 255.\<close>

definition serval_ctype_0 :: "byte \<Rightarrow> byte option" where
  "serval_ctype_0 c =
     (if c = 255 then None
      else Some (if 65 \<le> c \<and> c \<le> 90 then 0xC0 OR (c - 65)
        else if 97 \<le> c \<and> c \<le> 122 then 0xC0 OR (c - 71)
        else if 48 \<le> c \<and> c \<le> 57 then 0xC0 OR (c + 4)
        else if c = 43 then 0x40 OR 62
        else if c = 47 then 0x40 OR 63
        else if c = 45 then 0x80 OR 62
        else if c = 95 then 0x80 OR 63
        else 0))"

definition is_base64_digit :: "byte \<Rightarrow> bool option" where
  "is_base64_digit c = map_option (\<lambda>t. t AND 0x40 \<noteq> 0) (serval_ctype_0 c)"

definition is_base64url_digit :: "byte \<Rightarrow> bool option" where
  "is_base64url_digit c = map_option (\<lambda>t. t AND 0x80 \<noteq> 0) (serval_ctype_0 c)"

definition is_base64_pad :: "byte \<Rightarrow> bool" where
  "is_base64_pad c \<longleftrightarrow> c = 61"

definition base64_digit :: "byte \<Rightarrow> byte option" where
  "base64_digit c = map_option (\<lambda>t. t AND 0x3F) (serval_ctype_0 c)"

section \<open>Base64: encoding\<close>

definition encode_byte :: "byte list \<Rightarrow> byte \<Rightarrow> nat \<times> byte \<times> byte list \<Rightarrow> nat \<times> byte \<times> byte list" where
  "encode_byte symbols c st =
     (case st of (place, buf, dst) \<Rightarrow>
        if place = 0 then (1, push_bit 4 c AND 0x3F, dst @ [symbols ! unat (drop_bit 2 c)])
        else if place = 1 then (2, push_bit 2 c AND 0x3F, dst @ [symbols ! unat (drop_bit 4 c OR buf)])
        else (0, buf, dst @ [symbols ! unat (drop_bit 6 c OR buf), symbols ! unat (c AND 0x3F)]))"

definition encode_end :: "byte list \<Rightarrow> nat \<times> byte \<times> byte list \<Rightarrow> byte list" where
  "encode_end symbols st =
     (case st of (place, buf, dst) \<Rightarrow>
        (if place \<noteq> 0 then dst @ [symbols ! unat buf] else dst) @
        (if place = 1 then [symbols ! 64, symbols ! 64] else if place = 2 then [symbols ! 64] else []))"

definition base64_encodev_with :: "byte list \<Rightarrow> byte list list \<Rightarrow> byte list" where
  "base64_encodev_with symbols iov = encode_end symbols (fold (\<lambda>src. fold (encode_byte symbols) src) iov (0, 0, []))"

definition base64_encodev :: "byte list list \<Rightarrow> byte list" where
  "base64_encodev = base64_encodev_with base64_symbols"

definition base64url_encodev :: "byte list list \<Rightarrow> byte list" where
  "base64url_encodev = base64_encodev_with base64url_symbols"

definition base64_encode :: "byte list \<Rightarrow> byte list" where
  "base64_encode src = base64_encodev_with base64_symbols [src]"

definition base64url_encode :: "byte list \<Rightarrow> byte list" where
  "base64url_encode src = base64_encodev_with base64url_symbols [src]"

definition to_base64_str :: "byte list \<Rightarrow> byte list" where
  "to_base64_str src = base64_encode src @ [0]"

definition to_base64url_str :: "byte list \<Rightarrow> byte list" where
  "to_base64url_str src = base64url_encode src @ [0]"

definition BASE64_ENCODED_LEN :: "nat \<Rightarrow> nat" where
  "BASE64_ENCODED_LEN n = (n + 2) div 3 * 4"

section \<open>Base64: decoding\<close>

record decoding =
  d_buf :: byte
  d_digits :: nat
  d_pads :: nat
  d_bytes :: nat
  d_out :: "byte list"
  d_first_pad :: nat

text \<open>The value of a digit goes to the output; \<^verbatim>\<open>place\<close> is the number of the digit in its group of four.\<close>

definition decode_digit :: "byte \<Rightarrow> nat \<Rightarrow> decoding \<Rightarrow> decoding" where
  "decode_digit d place st =
     (if place = 0 then st\<lparr>d_buf := push_bit 2 d\<rparr>
      else if place = 1 then st\<lparr>d_out := d_out st @ [d_buf st OR drop_bit 4 d], d_bytes := d_bytes st + 1, d_buf := push_bit 4 d\<rparr>
      else if place = 2 then st\<lparr>d_out := d_out st @ [d_buf st OR drop_bit 2 d], d_bytes := d_bytes st + 1, d_buf := push_bit 6 d\<rparr>
      else st\<lparr>d_out := d_out st @ [d_buf st OR d], d_bytes := d_bytes st + 1\<rparr>)"

text \<open>
  The loop over the characters \<open>cs\<close> from index \<open>i\<close>; the result is where the source pointer is left, and the state. \<open>dst\<close> is the size of the
  destination, 0 also without one.
\<close>

fun decode_loop :: "(byte \<Rightarrow> bool option) \<Rightarrow> (byte \<Rightarrow> bool) \<Rightarrow> nat \<Rightarrow> bool \<Rightarrow> nat \<Rightarrow> nat \<Rightarrow> byte list \<Rightarrow> decoding \<Rightarrow>
    (nat \<times> decoding) option" where
  "decode_loop isdigit skip dst consume_all srclen i cs st =
     (if srclen \<noteq> 0 \<and> i \<ge> srclen then Some (i, st)
      else case cs of
        [] \<Rightarrow> None
      | c # cs \<Rightarrow>
          (case (isdigit c, base64_digit c) of
             (Some digit, Some d) \<Rightarrow>
               let pad = is_base64_pad c;
                   place = d_digits st mod 4;
                   next = decode_loop isdigit skip dst consume_all srclen (i + 1) cs
               in if \<not> digit \<and> \<not> pad \<and> skip c then next st
                  else if d_pads st = 2 then Some (i, st)
                  else if d_pads st = 1 then
                    (if place = 3 then Some (i, st)
                     else if place \<noteq> 2 then None
                     else if pad then next (st\<lparr>d_pads := 2\<rparr>)
                     else Some (d_first_pad st, st))
                  else if pad \<and> place \<ge> 2 then next (st\<lparr>d_first_pad := i, d_pads := 1\<rparr>)
                  else if \<not> digit then Some (i, st)
                  else
                    let st = st\<lparr>d_digits := d_digits st + 1\<rparr> in
                    if d_bytes st < dst then next (decode_digit d place st)
                    else if consume_all then next (if place = 0 then st else st\<lparr>d_bytes := d_bytes st + 1\<rparr>)
                    else Some (i, st)
           | _ \<Rightarrow> None))"

declare decode_loop.simps [simp del]

definition decode_start :: decoding where
  "decode_start = \<lparr>d_buf = 0, d_digits = 0, d_pads = 0, d_bytes = 0, d_out = [], d_first_pad = 0\<rparr>"

text \<open>
  The whole function: the number returned, the bytes written, and \<open>*afterp\<close> as an index. Without \<^verbatim>\<open>afterp\<close> the character where
  the decoding stopped is read, and must be NUL.
\<close>

definition base64_decode_with :: "(byte \<Rightarrow> bool option) \<Rightarrow> nat \<Rightarrow> byte list \<Rightarrow> nat \<Rightarrow> bool \<Rightarrow> bool \<Rightarrow> (byte \<Rightarrow> bool) \<Rightarrow>
    (nat \<times> byte list \<times> nat) option" where
  "base64_decode_with isdigit dst src srclen afterp consume_all skip =
     (case decode_loop isdigit skip dst consume_all srclen 0 src decode_start of
        None \<Rightarrow> None
      | Some (i, st) \<Rightarrow>
          if afterp then Some (d_bytes st, d_out st, i)
          else if i \<ge> length src then None
          else Some (if src ! i \<noteq> 0 then 0 else d_bytes st, d_out st, i))"

definition base64_decode :: "nat \<Rightarrow> byte list \<Rightarrow> nat \<Rightarrow> bool \<Rightarrow> bool \<Rightarrow> (byte \<Rightarrow> bool) \<Rightarrow> (nat \<times> byte list \<times> nat) option" where
  "base64_decode = base64_decode_with is_base64_digit"

definition base64url_decode :: "nat \<Rightarrow> byte list \<Rightarrow> nat \<Rightarrow> bool \<Rightarrow> bool \<Rightarrow> (byte \<Rightarrow> bool) \<Rightarrow> (nat \<times> byte list \<times> nat) option" where
  "base64url_decode = base64_decode_with is_base64url_digit"

section \<open>Hexadecimal\<close>

definition hexdigit_upper :: "byte list" where
  "hexdigit_upper = map word_of_nat ([48..<58] @ [65..<71])"

text \<open>\<^verbatim>\<open>dstStrLen\<close> digits of the bytes at the source.\<close>

definition tohex :: "nat \<Rightarrow> byte list \<Rightarrow> byte list option" where
  "tohex n src =
     (if n \<le> 2 * length src
      then Some (map (\<lambda>i. hexdigit_upper ! unat (if odd i then src ! (i div 2) AND 0xF else drop_bit 4 (src ! (i div 2)))) [0..<n] @ [0])
      else None)"

definition hexvalue :: "byte \<Rightarrow> byte option" where
  "hexvalue c =
     (if 48 \<le> c \<and> c \<le> 57 then Some (c - 48)
      else if 65 \<le> c \<and> c \<le> 70 then Some (c - 55)
      else if 97 \<le> c \<and> c \<le> 102 then Some (c - 87)
      else None)"

text \<open>
  The loop of \<^verbatim>\<open>strn_fromhex\<close>: \<open>limit\<close> is how many bytes may still be produced (\<open>None\<close> for the size -1). The result is the bytes, and the rest of the
  source.
\<close>

fun fromhex_loop :: "nat option \<Rightarrow> byte list \<Rightarrow> (byte list \<times> byte list) option" where
  "fromhex_loop limit src =
     (if limit = Some 0 then Some ([], src)
      else case src of
        [] \<Rightarrow> None
      | h # rest \<Rightarrow>
          (case hexvalue h of
             None \<Rightarrow> Some ([], src)
           | Some high \<Rightarrow>
               (case rest of
                  [] \<Rightarrow> None
                | l # rest \<Rightarrow>
                    (case hexvalue l of
                       None \<Rightarrow> Some ([], src)
                     | Some low \<Rightarrow> map_option (\<lambda>(bs, r). ((push_bit 4 high + low) # bs, r)) (fromhex_loop (map_option (\<lambda>n. n - 1) limit) rest)))))"

declare fromhex_loop.simps [simp del]

definition strn_fromhex :: "nat option \<Rightarrow> byte list \<Rightarrow> (byte list \<times> byte list) option" where
  "strn_fromhex dstsiz src = fromhex_loop dstsiz src"

text \<open>The results -1 are \<open>None\<close> inside the option of a run without a read outside the source.\<close>

definition fromhex :: "byte list \<Rightarrow> nat \<Rightarrow> byte list option option" where
  "fromhex src nbinary = map_option (\<lambda>(bs, r). if length bs = nbinary then Some bs else None) (strn_fromhex (Some nbinary) src)"

definition fromhexstr :: "nat \<Rightarrow> byte list \<Rightarrow> byte list option option" where
  "fromhexstr nbinary src =
     (case strn_fromhex (Some nbinary) src of
        None \<Rightarrow> None
      | Some (bs, r) \<Rightarrow>
          if length bs = nbinary then (case r of [] \<Rightarrow> None | c # _ \<Rightarrow> Some (if c = 0 then Some bs else None)) else Some None)"

definition fromhexstrn :: "nat \<Rightarrow> byte list \<Rightarrow> nat \<Rightarrow> (byte list \<times> byte list) option option" where
  "fromhexstrn nbinary src nHex =
     (if nbinary * 2 = nHex
      then map_option (\<lambda>(bs, r). if length bs = nbinary then Some (bs, r) else None) (strn_fromhex (Some nbinary) src)
      else Some None)"

end
