(* ===== verification/Serval_Base64.thy ===== *)
theory Serval_Base64
  imports Serval_Text
begin

unbundle bit_operations_syntax

text \<open>
  Properties of the text encodings: base64 is the encoding of RFC 4648, whatever pieces the data is in, and is decoded to the same
  data; hexadecimal text is read back.
\<close>

section \<open>The symbols\<close>

definition good_symbols :: "byte list \<Rightarrow> (byte \<Rightarrow> bool option) \<Rightarrow> bool" where
  "good_symbols symbols isdigit \<longleftrightarrow> symbols ! 64 = 61 \<and> isdigit 61 = Some False \<and> isdigit 0 = Some False \<and>
     (\<forall>i < 64. isdigit (symbols ! i) = Some True \<and> base64_digit (symbols ! i) = Some (word_of_nat i) \<and> symbols ! i \<noteq> 61)"

lemma all_lt_64: "(\<forall>i < 64. P i) \<longleftrightarrow> list_all P [0..<64]" for P :: "nat \<Rightarrow> bool"
  by (auto simp: list_all_iff)

lemma good_base64: "good_symbols base64_symbols is_base64_digit"
  unfolding good_symbols_def all_lt_64 by code_simp

lemma good_base64url: "good_symbols base64url_symbols is_base64url_digit"
  unfolding good_symbols_def all_lt_64 by code_simp

section \<open>RFC 4648\<close>

text \<open>The reference: 24 bit groups, cut into four numbers of six bits; a last group that is not full is filled up with the pad.\<close>

definition sextet :: "24 word \<Rightarrow> nat \<Rightarrow> nat" where
  "sextet n k = unat (take_bit 6 (drop_bit (6 * k) n))"

definition group :: "byte \<Rightarrow> byte \<Rightarrow> byte \<Rightarrow> 24 word" where
  "group a b c = push_bit 16 (ucast a) OR push_bit 8 (ucast b) OR ucast c"

fun rfc4648 :: "byte list \<Rightarrow> byte list \<Rightarrow> byte list" where
  "rfc4648 symbols [] = []"
| "rfc4648 symbols [a] = map (\<lambda>k. symbols ! sextet (group a 0 0) k) [3, 2] @ [symbols ! 64, symbols ! 64]"
| "rfc4648 symbols [a, b] = map (\<lambda>k. symbols ! sextet (group a b 0) k) [3, 2, 1] @ [symbols ! 64]"
| "rfc4648 symbols (a # b # c # bs) = map (\<lambda>k. symbols ! sextet (group a b c) k) [3, 2, 1, 0] @ rfc4648 symbols bs"

lemma unat_24: "unat (w :: byte) = unat (ucast w :: 24 word)"
proof -
  have "unat w < 2 ^ 8" using unsigned_less [of w] by simp
  then have "unat w < 2 ^ 24" by simp
  then have "take_bit 24 (unat w) = unat w" by (rule take_bit_nat_eq_self)
  then show ?thesis by (simp add: unsigned_ucast_eq)
qed

lemma low_6: "x AND 0x3F = take_bit 6 (x :: byte)"
  by (simp add: take_bit_eq_mask mask_eq_exp_minus_1)

lemma sextets:
  "unat (drop_bit 2 a) = sextet (group a b c) 3"
  "unat (drop_bit 4 b OR (push_bit 4 a AND 0x3F)) = sextet (group a b c) 2"
  "unat (drop_bit 6 c OR (push_bit 2 b AND 0x3F)) = sextet (group a b c) 1"
  "unat (c AND 0x3F) = sextet (group a b c) 0"
  unfolding sextet_def unat_24 group_def low_6
  by (rule arg_cong [where f = unat], rule bit_word_eqI, auto simp: bit_simps not_less dest: bit_imp_le_length)+

lemma encode_groups:
  "encode_end symbols (fold (encode_byte symbols) bs (0, buf, dst)) = dst @ rfc4648 symbols bs"
proof (induction symbols bs arbitrary: buf dst rule: rfc4648.induct)
  case (2 symbols a)
  show ?case using sextets(1) [of a 0 0] sextets(2) [of 0 a 0] by (simp add: encode_byte_def encode_end_def)
next
  case (3 symbols a b)
  show ?case using sextets(1) [of a b 0] sextets(2) [of b a 0] sextets(3) [of 0 b a] by (simp add: encode_byte_def encode_end_def)
next
  case (4 symbols a b c bs)
  have "fold (encode_byte symbols) (a # b # c # bs) (0, buf, dst) =
      fold (encode_byte symbols) bs (0, push_bit 2 b AND 0x3F, dst @ map (\<lambda>k. symbols ! sextet (group a b c) k) [3, 2, 1, 0])"
    using sextets [of a b c] sextets(2) [of b a c] sextets(3) [of c b a] sextets(4) [of c a b] by (simp add: encode_byte_def)
  then show ?case using "4.IH" by simp
qed (simp add: encode_end_def)

lemma rfc4648_length: "length (rfc4648 symbols bs) = BASE64_ENCODED_LEN (length bs)"
proof (induction symbols bs rule: rfc4648.induct)
  case (4 symbols a b c bs)
  have "BASE64_ENCODED_LEN (Suc (Suc (Suc n))) = 4 + BASE64_ENCODED_LEN n" for n
    unfolding BASE64_ENCODED_LEN_def by presburger
  with 4 show ?case by simp
qed (simp_all add: BASE64_ENCODED_LEN_def)

text \<open>
  C21. Base64 and its variant for URLs are encoded as RFC 4648 says, in whatever pieces (\<^verbatim>\<open>iovec\<close>) the data is given: only the
  concatenation of the pieces counts. The length is the one that callers reserve, \<^verbatim>\<open>BASE64_ENCODED_LEN\<close>.
\<close>

theorem base64_is_rfc4648:
  "base64_encodev iov = rfc4648 base64_symbols (concat iov) \<and> base64url_encodev iov = rfc4648 base64url_symbols (concat iov) \<and>
    length (base64_encodev iov) = BASE64_ENCODED_LEN (length (concat iov))"
proof -
  have f: "fold (\<lambda>src. fold (encode_byte symbols) src) iov st = fold (encode_byte symbols) (concat iov) st" for symbols st
    by (induction iov arbitrary: st) simp_all
  show ?thesis
    unfolding base64_encodev_def base64url_encodev_def base64_encodev_with_def f by (simp add: encode_groups rfc4648_length)
qed

section \<open>Decoding\<close>

lemma sextet_values:
  "word_of_nat (sextet (group a b c) 3) = drop_bit 2 a"
  "word_of_nat (sextet (group a b c) 2) = drop_bit 4 b OR (push_bit 4 a AND 0x3F)"
  "word_of_nat (sextet (group a b c) 1) = drop_bit 6 c OR (push_bit 2 b AND 0x3F)"
  "word_of_nat (sextet (group a b c) 0) = c AND 0x3F"
  using sextets(1) [of a b c] sextets(2) [of b a c] sextets(3) [of c b a] sextets(4) [of c a b]
  by (simp_all add: eq_commute [of "unat _"])

lemma byte_eqI: "(\<And>n. n \<in> {0, 1, 2, 3, 4, 5, 6, 7} \<Longrightarrow> bit x n = bit y n) \<Longrightarrow> x = y" for x y :: byte
  by (rule bit_word_eqI) (force simp: less_Suc_eq eval_nat_numeral)

lemma joined:
  "push_bit 2 (drop_bit 2 a) OR drop_bit 4 (drop_bit 4 b OR (push_bit 4 a AND 0x3F)) = (a :: byte)"
  "push_bit 4 (drop_bit 4 b OR (push_bit 4 a AND 0x3F)) OR drop_bit 2 (drop_bit 6 c OR (push_bit 2 b AND 0x3F)) = (b :: byte)"
  "push_bit 6 (drop_bit 6 c OR (push_bit 2 b AND 0x3F)) OR (c AND 0x3F) = (c :: byte)"
  unfolding low_6 by (rule byte_eqI; auto simp: bit_simps; simp add: eval_nat_numeral)+

lemma sextet_less: "sextet g k < 64"
proof -
  have "unat (take_bit 6 (drop_bit (6 * k) g)) = take_bit 6 (unat (drop_bit (6 * k) g))" by (simp add: unsigned_take_bit_eq)
  then show ?thesis unfolding sextet_def using take_bit_nat_less_exp [of 6 "unat (drop_bit (6 * k) g)"] by simp
qed

lemma digit_step:
  assumes "good_symbols symbols isdigit" "d_pads st = 0" "srclen = 0 \<or> i < srclen" "d_bytes st < dst" "k < 64"
  shows "decode_loop isdigit skip dst all srclen i (symbols ! k # cs) st =
    decode_loop isdigit skip dst all srclen (i + 1) cs (decode_digit (word_of_nat k) (d_digits st mod 4) (st\<lparr>d_digits := d_digits st + 1\<rparr>))"
proof -
  from assms(1,5) have "isdigit (symbols ! k) = Some True" "base64_digit (symbols ! k) = Some (word_of_nat k)" "symbols ! k \<noteq> 61"
    unfolding good_symbols_def by blast+
  with assms(2-4) show ?thesis by (subst decode_loop.simps) (auto simp: is_base64_pad_def)
qed

lemma pad_step:
  assumes "good_symbols symbols isdigit" "srclen = 0 \<or> i < srclen" "2 \<le> d_digits st mod 4"
  shows "d_pads st = 0 \<Longrightarrow> decode_loop isdigit skip dst all srclen i (symbols ! 64 # cs) st =
      decode_loop isdigit skip dst all srclen (i + 1) cs (st\<lparr>d_first_pad := i, d_pads := 1\<rparr>)"
    "d_pads st = 1 \<Longrightarrow> d_digits st mod 4 = 2 \<Longrightarrow> decode_loop isdigit skip dst all srclen i (symbols ! 64 # cs) st =
      decode_loop isdigit skip dst all srclen (i + 1) cs (st\<lparr>d_pads := 2\<rparr>)"
proof -
  have "base64_digit 61 = Some 0" by code_simp
  moreover have "isdigit 61 = Some False" "symbols ! 64 = 61" using assms(1) by (simp_all add: good_symbols_def)
  ultimately show "d_pads st = 0 \<Longrightarrow> decode_loop isdigit skip dst all srclen i (symbols ! 64 # cs) st =
      decode_loop isdigit skip dst all srclen (i + 1) cs (st\<lparr>d_first_pad := i, d_pads := 1\<rparr>)"
    "d_pads st = 1 \<Longrightarrow> d_digits st mod 4 = 2 \<Longrightarrow> decode_loop isdigit skip dst all srclen i (symbols ! 64 # cs) st =
      decode_loop isdigit skip dst all srclen (i + 1) cs (st\<lparr>d_pads := 2\<rparr>)"
    using assms(2,3) by (subst decode_loop.simps, auto simp: is_base64_pad_def)+
qed

text \<open>The end of the text: the length given, or a NUL that is not skipped.\<close>

definition text_ends :: "(byte \<Rightarrow> bool) \<Rightarrow> nat \<Rightarrow> nat \<Rightarrow> byte list \<Rightarrow> bool" where
  "text_ends skip srclen i cs \<longleftrightarrow> (srclen = 0 \<and> cs \<noteq> [] \<and> hd cs = 0 \<and> \<not> skip 0) \<or> (srclen \<noteq> 0 \<and> srclen = i)"

lemma stops_at_end:
  assumes "good_symbols symbols isdigit" "text_ends skip srclen i cs"
    "d_pads st = 2 \<or> (d_pads st = 1 \<and> d_digits st mod 4 = 3) \<or> (d_pads st = 0 \<and> d_digits st mod 4 = 0)"
  shows "decode_loop isdigit skip dst all srclen i cs st = Some (i, st)"
proof -
  have "isdigit 0 = Some False" using assms(1) by (simp add: good_symbols_def)
  moreover have "base64_digit 0 = Some 0" by code_simp
  ultimately show ?thesis
    using assms(2,3) unfolding text_ends_def
    by (subst decode_loop.simps) (auto simp: is_base64_pad_def neq_Nil_conv Let_def)
qed

text \<open>A full group, and what is left of two bytes or one.\<close>

definition digit_value :: "byte \<Rightarrow> byte \<Rightarrow> byte \<Rightarrow> nat \<Rightarrow> byte" where
  "digit_value a b c k = word_of_nat (sextet (group a b c) k)"

lemma digit_values:
  "push_bit 2 (digit_value a b c 3) OR drop_bit 4 (digit_value a b c 2) = a"
  "push_bit 4 (digit_value a b c 2) OR drop_bit 2 (digit_value a b c 1) = b"
  "push_bit 6 (digit_value a b c 1) OR digit_value a b c 0 = c"
  unfolding digit_value_def sextet_values by (rule joined)+

lemma group_digit:
  assumes "good_symbols symbols isdigit" "d_pads st = 0" "srclen = 0 \<or> i < srclen" "d_bytes st < dst"
  shows "decode_loop isdigit skip dst all srclen i (symbols ! sextet (group a b c) k # cs) st =
    decode_loop isdigit skip dst all srclen (i + 1) cs (decode_digit (digit_value a b c k) (d_digits st mod 4) (st\<lparr>d_digits := d_digits st + 1\<rparr>))"
  unfolding digit_value_def by (rule digit_step [OF assms sextet_less])

lemma first_two_digits:
  assumes "good_symbols symbols isdigit" "d_pads st = 0" "d_digits st mod 4 = 0" "d_bytes st < dst" "srclen = 0 \<or> i + 1 < srclen"
  shows "decode_loop isdigit skip dst all srclen i (symbols ! sextet (group a b c) 3 # symbols ! sextet (group a b c) 2 # cs) st =
      decode_loop isdigit skip dst all srclen (i + 2) cs (st\<lparr>d_buf := push_bit 4 (digit_value a b c 2),
        d_digits := d_digits st + 2, d_bytes := d_bytes st + 1, d_out := d_out st @ [a]\<rparr>)"
  using assms digit_values(1) [of a b c] by (cases st) (auto simp: group_digit decode_digit_def mod_Suc)

lemma third_digit:
  assumes "good_symbols symbols isdigit" "d_pads st = 0" "d_digits st mod 4 = 2" "d_bytes st < dst" "srclen = 0 \<or> i < srclen"
    "d_buf st = push_bit 4 (digit_value a b c 2)"
  shows "decode_loop isdigit skip dst all srclen i (symbols ! sextet (group a b c) 1 # cs) st =
      decode_loop isdigit skip dst all srclen (i + 1) cs (st\<lparr>d_buf := push_bit 6 (digit_value a b c 1),
        d_digits := d_digits st + 1, d_bytes := d_bytes st + 1, d_out := d_out st @ [b]\<rparr>)"
  using assms digit_values(2) [of a b c] by (cases st) (auto simp: group_digit decode_digit_def mod_Suc)

lemma last_digit:
  assumes "good_symbols symbols isdigit" "d_pads st = 0" "d_digits st mod 4 = 3" "d_bytes st < dst" "srclen = 0 \<or> i < srclen"
    "d_buf st = push_bit 6 (digit_value a b c 1)"
  shows "decode_loop isdigit skip dst all srclen i (symbols ! sextet (group a b c) 0 # cs) st =
      decode_loop isdigit skip dst all srclen (i + 1) cs
        (st\<lparr>d_digits := d_digits st + 1, d_bytes := d_bytes st + 1, d_out := d_out st @ [c]\<rparr>)"
  using assms digit_values(3) [of a b c] by (cases st) (auto simp: group_digit decode_digit_def mod_Suc)

lemma decodes_rfc4648:
  assumes "good_symbols symbols isdigit" "text_ends skip srclen (i + length (rfc4648 symbols bs)) rest"
    "d_pads st = 0" "d_digits st mod 4 = 0" "d_bytes st + length bs \<le> dst"
  shows "\<exists>st'. decode_loop isdigit skip dst all srclen i (rfc4648 symbols bs @ rest) st = Some (i + length (rfc4648 symbols bs), st') \<and>
    d_bytes st' = d_bytes st + length bs \<and> d_out st' = d_out st @ bs"
  using assms
proof (induction symbols bs arbitrary: i st rule: rfc4648.induct)
  case (1 symbols)
  then show ?case by (auto simp: stops_at_end)
next
  case (2 symbols a)
  then have s: "srclen = 0 \<or> i + 3 < srclen" by (auto simp: text_ends_def)
  show ?case using 2 s by (auto simp: first_two_digits pad_step mod_Suc stops_at_end)
next
  case (3 symbols a b)
  then have s: "srclen = 0 \<or> i + 3 < srclen" by (auto simp: text_ends_def)
  show ?case using 3 s by (auto simp: first_two_digits third_digit [unfolded One_nat_def] pad_step mod_Suc stops_at_end)
next
  case (4 symbols a b c bs)
  then have s: "srclen = 0 \<or> i + 3 < srclen" by (auto simp: text_ends_def)
  let ?st = "st\<lparr>d_buf := push_bit 6 (digit_value a b c 1), d_digits := d_digits st + 4, d_bytes := d_bytes st + 3,
    d_out := d_out st @ [a, b, c]\<rparr>"
  have n: "n + 3 = Suc (Suc (Suc n))" "n + 4 = Suc (Suc (Suc (Suc n)))" for n :: nat by simp_all
  have "decode_loop isdigit skip dst all srclen i (rfc4648 symbols (a # b # c # bs) @ rest) st =
      decode_loop isdigit skip dst all srclen (i + 4) (rfc4648 symbols bs @ rest) ?st"
    using 4(2-) s by (auto simp: first_two_digits third_digit [unfolded One_nat_def] last_digit mod_Suc n)
  then show ?case using 4(2-) "4.IH" [of "i + 4" ?st] by (simp add: n)
qed

lemma decode_with_encoded:
  assumes "good_symbols symbols isdigit" "length bs \<le> dst"
  shows "\<not> skip 0 \<Longrightarrow> base64_decode_with isdigit dst (base64_encodev_with symbols [bs] @ 0 # junk) 0 afterp all skip =
      Some (length bs, bs, BASE64_ENCODED_LEN (length bs))"
    "bs \<noteq> [] \<Longrightarrow> base64_decode_with isdigit dst (base64_encodev_with symbols [bs] @ junk) (BASE64_ENCODED_LEN (length bs)) True all skip =
      Some (length bs, bs, BASE64_ENCODED_LEN (length bs))"
proof -
  have e: "base64_encodev_with symbols [bs] = rfc4648 symbols bs" by (simp add: base64_encodev_with_def encode_groups)
  note d = decodes_rfc4648 [OF assms(1), of skip _ 0 bs _ decode_start dst all]
  assume "\<not> skip 0"
  then show "base64_decode_with isdigit dst (base64_encodev_with symbols [bs] @ 0 # junk) 0 afterp all skip =
      Some (length bs, bs, BASE64_ENCODED_LEN (length bs))"
    using d [of 0 "0 # junk"] assms(2)
    by (auto simp: base64_decode_with_def e decode_start_def text_ends_def rfc4648_length nth_append)
next
  have e: "base64_encodev_with symbols [bs] = rfc4648 symbols bs" by (simp add: base64_encodev_with_def encode_groups)
  assume "bs \<noteq> []"
  then have "BASE64_ENCODED_LEN (length bs) \<noteq> 0" by (cases bs) (simp_all add: BASE64_ENCODED_LEN_def)
  then show "base64_decode_with isdigit dst (base64_encodev_with symbols [bs] @ junk) (BASE64_ENCODED_LEN (length bs)) True all skip =
      Some (length bs, bs, BASE64_ENCODED_LEN (length bs))"
    using decodes_rfc4648 [OF assms(1), of skip "BASE64_ENCODED_LEN (length bs)" 0 bs junk decode_start dst all] assms(2)
    by (auto simp: base64_decode_with_def e decode_start_def text_ends_def rfc4648_length)
qed

text \<open>
  C20. What \<^verbatim>\<open>base64_encode\<close> and \<^verbatim>\<open>base64url_encode\<close> write is decoded to the same bytes, whatever the length (the padding included), when the
  destination is large enough: as a string with its NUL (\<^verbatim>\<open>to_base64_str\<close>) whether \<^verbatim>\<open>afterp\<close> is given or not, and as characters with their length.
  The pointer is left behind the text. The other arguments do not matter, a predicate that skips the NUL apart.
\<close>

theorem base64_roundtrip:
  assumes "length bs \<le> dst" "bs \<noteq> []" "\<not> skip 0"
  shows "base64_decode dst (to_base64_str bs @ junk) 0 afterp all skip = Some (length bs, bs, BASE64_ENCODED_LEN (length bs)) \<and>
    base64url_decode dst (to_base64url_str bs @ junk) 0 afterp all skip = Some (length bs, bs, BASE64_ENCODED_LEN (length bs)) \<and>
    base64_decode dst (base64_encode bs @ junk) (BASE64_ENCODED_LEN (length bs)) True all skip =
      Some (length bs, bs, BASE64_ENCODED_LEN (length bs)) \<and>
    base64url_decode dst (base64url_encode bs @ junk) (BASE64_ENCODED_LEN (length bs)) True all skip =
      Some (length bs, bs, BASE64_ENCODED_LEN (length bs))"
  using decode_with_encoded [OF good_base64 assms(1)] decode_with_encoded [OF good_base64url assms(1)] assms(2,3)
  by (simp add: base64_decode_def base64url_decode_def to_base64_str_def to_base64url_str_def base64_encode_def base64url_encode_def)

theorem base64_roundtrip_witness:
  "base64_decode 8 (to_base64_str [255, 0, 7, 128] @ [9]) 0 False False (\<lambda>c. c = 32) = Some (4, [255, 0, 7, 128], 8)"
  using base64_roundtrip [of "[255, 0, 7, 128]" 8 "\<lambda>c. c = 32" "[9]" False False] by (simp add: BASE64_ENCODED_LEN_def)

section \<open>Hexadecimal\<close>

lemma hexvalues: "\<forall>i < 16. hexvalue (hexdigit_upper ! i) = Some (word_of_nat i)"
proof -
  have "list_all (\<lambda>i. hexvalue (hexdigit_upper ! i) = Some (word_of_nat i)) [0..<16]" by code_simp
  then show ?thesis by (simp only: list_all_iff set_upt) simp
qed

lemma nibbles: "unat (drop_bit 4 (b :: byte)) < 16" "unat (b AND 0xF) < 16" "push_bit 4 (drop_bit 4 b) + (b AND 0xF) = b"
proof -
  have m: "b AND 0xF = take_bit 4 b" by (simp add: take_bit_eq_mask mask_eq_exp_minus_1)
  show "unat (drop_bit 4 b) < 16" using unsigned_less [of b, where ?'a = nat] by (simp add: unat_div_distrib drop_bit_eq_div)
  show "unat (b AND 0xF) < 16" using take_bit_nat_less_exp [of 4 "unat b"] by (simp add: m unsigned_take_bit_eq)
  have "push_bit 4 (drop_bit 4 b) + take_bit 4 b = b" by (rule bits_ident)
  then show "push_bit 4 (drop_bit 4 b) + (b AND 0xF) = b" by (simp only: m)
qed

lemma tohex_bytes: "tohex (2 * length bs) bs =
    Some (concat (map (\<lambda>b. [hexdigit_upper ! unat (drop_bit 4 b), hexdigit_upper ! unat (b AND 0xF)]) bs) @ [0])"
proof -
  have pairs: "map f [0..<2 * n] = concat (map (\<lambda>j. [f (2 * j), f (2 * j + 1)]) [0..<n])" for f :: "nat \<Rightarrow> byte" and n
    by (induction n) simp_all
  have "map (\<lambda>b. [hexdigit_upper ! unat (drop_bit 4 b), hexdigit_upper ! unat (b AND 0xF)]) bs =
      map (\<lambda>j. [hexdigit_upper ! unat (drop_bit 4 (bs ! j)), hexdigit_upper ! unat (bs ! j AND 0xF)]) [0..<length bs]"
    by (rule nth_equalityI) simp_all
  then show ?thesis unfolding tohex_def pairs by simp
qed

lemma fromhex_bytes:
  "fromhex_loop (Some (length bs)) (concat (map (\<lambda>b. [hexdigit_upper ! unat (drop_bit 4 b), hexdigit_upper ! unat (b AND 0xF)]) bs) @ rest) =
    Some (bs, rest)"
proof (induction bs)
  case Nil
  show ?case by (subst fromhex_loop.simps) simp
next
  case (Cons b bs)
  have "hexvalue (hexdigit_upper ! unat (drop_bit 4 b)) = Some (drop_bit 4 b)" "hexvalue (hexdigit_upper ! unat (b AND 0xF)) = Some (b AND 0xF)"
    using hexvalues nibbles(1,2) [of b] by simp_all
  with Cons nibbles(3) [of b] show ?case by (subst fromhex_loop.simps) simp
qed

text \<open>
  The hexadecimal text of a binary value is read back to the value by every reader, \<^verbatim>\<open>fromhexstr\<close> (a whole string), \<^verbatim>\<open>fromhex\<close>
  (a prefix) and \<^verbatim>\<open>fromhexstrn\<close> (a given number of digits).
\<close>

theorem hex_text_roundtrip:
  "\<exists>text. tohex (2 * length bs) bs = Some text \<and> length text = 2 * length bs + 1 \<and>
    (\<forall>junk. fromhexstr (length bs) (text @ junk) = Some (Some bs) \<and> fromhex (text @ junk) (length bs) = Some (Some bs) \<and>
      fromhexstrn (length bs) (text @ junk) (2 * length bs) = Some (Some (bs, 0 # junk)))"
  unfolding tohex_bytes
  using fromhex_bytes [of bs]
  by (simp add: fromhexstr_def fromhex_def fromhexstrn_def strn_fromhex_def length_concat comp_def sum_list_triv)

end
