(* ===== verification/Serval_Golay.thy ===== *)
theory Serval_Golay
  imports Prelude
begin

unbundle bit_operations_syntax

text \<open>
  The error correcting code of the packet radio link: \<^verbatim>\<open>servald/serval-dna-development/golay.c\<close>. Twelve bits of data are sent as the 23 bits
  of a Golay code word and a parity bit. A \<^verbatim>\<open>uint32_t\<close> is a \<open>32 word\<close>; the three bytes at \<^verbatim>\<open>data\<close> are a list.
\<close>

section \<open>Code words\<close>

abbreviation (input) POLY :: "32 word" where
  "POLY \<equiv> 0xAE3"

text \<open>The loop over the data bits, in \<^verbatim>\<open>golay\<close> and in \<^verbatim>\<open>syndrome\<close>.\<close>

fun divide :: "nat \<Rightarrow> 32 word \<Rightarrow> 32 word" where
  "divide 0 cw = cw"
| "divide (Suc n) cw = divide n (drop_bit 1 (if cw AND 1 \<noteq> 0 then cw XOR POLY else cw))"

definition golay :: "32 word \<Rightarrow> 32 word" where
  "golay cw = (let c = cw AND 0xFFF in push_bit 12 (divide 12 c) OR c)"

definition parity :: "32 word \<Rightarrow> bool" where
  "parity cw =
     (let p = ucast (cw AND 0xFF) :: byte;
          p = p XOR ucast (drop_bit 8 cw AND 0xFF);
          p = p XOR ucast (drop_bit 16 cw AND 0xFF);
          p = p XOR drop_bit 4 p;
          p = p XOR drop_bit 2 p;
          p = p XOR drop_bit 1 p
      in p AND 1 \<noteq> 0)"

definition word_of_bytes :: "byte list \<Rightarrow> 32 word" where
  "word_of_bytes data = ucast (data ! 0) OR push_bit 8 (ucast (data ! 1)) OR push_bit 16 (ucast (data ! 2))"

definition bytes_of_word :: "32 word \<Rightarrow> byte list" where
  "bytes_of_word cw = [ucast (cw AND 0xFF), ucast (drop_bit 8 cw AND 0xFF), ucast (drop_bit 16 cw AND 0xFF)]"

definition golay_encode :: "byte list \<Rightarrow> byte list" where
  "golay_encode data =
     (let cw = golay (word_of_bytes data) in bytes_of_word (if parity cw then cw OR 0x800000 else cw))"

section \<open>Correction\<close>

definition syndrome :: "32 word \<Rightarrow> 32 word" where
  "syndrome cw = push_bit 12 (divide 12 (cw AND 0x7FFFFF))"

definition wgt :: "nat list" where
  "wgt = [0, 1, 1, 2, 1, 2, 2, 3, 1, 2, 2, 3, 2, 3, 3, 4]"

text \<open>\<open>n\<close> is the number of nibbles left.\<close>

fun weight_loop :: "nat \<Rightarrow> 32 word \<Rightarrow> nat \<Rightarrow> nat" where
  "weight_loop 0 cw bits = bits"
| "weight_loop (Suc n) cw bits = (if cw = 0 then bits else weight_loop n (drop_bit 4 cw) (bits + wgt ! unat (cw AND 0xF)))"

definition weight :: "32 word \<Rightarrow> nat" where
  "weight cw = weight_loop 6 cw 0"

fun left :: "nat \<Rightarrow> 32 word \<Rightarrow> 32 word" where
  "left 0 cw = cw"
| "left (Suc n) cw = left n (if cw AND 0x400000 \<noteq> 0 then push_bit 1 cw OR 1 else push_bit 1 cw)"

definition rotate_left :: "32 word \<Rightarrow> nat \<Rightarrow> 32 word" where
  "rotate_left cw n = left n cw AND 0x7FFFFF"

fun right :: "nat \<Rightarrow> 32 word \<Rightarrow> 32 word" where
  "right 0 cw = cw"
| "right (Suc n) cw = right n (if cw AND 1 \<noteq> 0 then drop_bit 1 cw OR 0x400000 else drop_bit 1 cw)"

definition rotate_right :: "32 word \<Rightarrow> nat \<Rightarrow> 32 word" where
  "rotate_right cw n = right n cw AND 0x7FFFFF"

text \<open>
  The shifts \<open>i\<close>, \<dots>, 22 of a word: the number for \<^verbatim>\<open>*errs\<close>, and the word returned when a syndrome of at most the weight \<open>w\<close> was
  found.
\<close>

fun try_shifts :: "nat \<Rightarrow> nat \<Rightarrow> nat \<Rightarrow> nat \<Rightarrow> 32 word \<Rightarrow> 32 word \<Rightarrow> nat \<times> 32 word option" where
  "try_shifts w 0 i errs cw s = (errs, None)"
| "try_shifts w (Suc n) i errs cw s =
     (let errs = weight s in
      if errs \<le> w then (errs, Some (rotate_right (cw XOR s) i))
      else let cw = rotate_left cw 1 in try_shifts w n (i + 1) errs cw (syndrome cw))"

text \<open>The trial bits from \<open>j\<close> on; -1 is the pass without one.\<close>

function correct_loop :: "32 word \<Rightarrow> int \<Rightarrow> 32 word \<Rightarrow> nat \<Rightarrow> 32 word \<times> nat" where
  "correct_loop cwsaver j trial errs =
     (if j < 23 then
        let trial = (if j > 0 then trial + trial else trial);
            cw = (if j \<noteq> -1 then cwsaver XOR trial else cwsaver);
            w = (if j \<noteq> -1 then 2 else 3);
            s = syndrome cw
        in if s \<noteq> 0
           then case try_shifts w 23 0 errs cw s of
                  (errs, Some r) \<Rightarrow> (r, errs)
                | (errs, None) \<Rightarrow> correct_loop cwsaver (j + 1) trial errs
           else (cw, errs)
      else (cwsaver, errs))"
  by pat_completeness auto
termination by (relation "measure (\<lambda>(_, j, _). nat (23 - j))") auto

declare correct_loop.simps [simp del]

definition correct :: "32 word \<Rightarrow> 32 word \<times> nat" where
  "correct cw = correct_loop cw (-1) 1 0"

definition golay_decode :: "byte list \<Rightarrow> 32 word \<times> nat" where
  "golay_decode data =
     (let cw = word_of_bytes data;
          parity_bit = cw AND 0x800000;
          (cw, errs) = correct (cw AND NOT 0x800000);
          cw = cw OR parity_bit
      in (cw AND 0xFFF, if parity cw then errs + 1 else errs))"

end
