(* ===== verification/Serval_Code.thy ===== *)
theory Serval_Code
  imports Serval_Golay
begin

unbundle bit_operations_syntax

text \<open>
  The Golay code of the radio link. The loops are linear over exclusive or, so a fact about all words is a check of the
  powers of two: the code is cyclic. A word with bits only in the places of the check bits is its own syndrome. Two code words differ in
  seven bits at least, by a search over the choices of data bits.
\<close>

section \<open>Linear functions\<close>

definition linear :: "(32 word \<Rightarrow> 32 word) \<Rightarrow> bool" where
  "linear f \<longleftrightarrow> (\<forall>x y. f (x XOR y) = f x XOR f y)"

definition units :: "nat \<Rightarrow> 32 word list" where
  "units n = map (\<lambda>i. 2 ^ i) [0..<n]"

lemma linear_0: "linear f \<Longrightarrow> f 0 = 0"
  unfolding linear_def by (metis xor_self_eq)

lemma linear_units:
  assumes "linear f" "\<forall>u \<in> set (units n). f u = 0" "n \<le> 32"
  shows "f (take_bit n x) = 0"
  using assms(2,3)
proof (induction n)
  case 0
  show ?case using assms(1) by (simp add: linear_0)
next
  case (Suc n)
  have "take_bit (Suc n) x = take_bit n x XOR (if bit x n then 2 ^ n else 0)"
    using Suc.prems(2) by (intro bit_word_eqI) (auto simp: bit_simps less_Suc_eq)
  moreover have "f (2 ^ n) = 0" "\<forall>u \<in> set (units n). f u = 0" using Suc.prems(1) by (simp_all add: units_def)
  ultimately show ?case using Suc assms(1) by (auto simp: linear_def linear_0)
qed

lemma low_bits: "x AND 0xFFF = take_bit 12 x" "x AND 0x7FFFFF = take_bit 23 x" "x AND 1 \<noteq> 0 \<longleftrightarrow> bit x 0" "x AND 0x400000 \<noteq> 0 \<longleftrightarrow> bit x 22"
  for x :: "32 word"
proof -
  show "x AND 0xFFF = take_bit 12 x" "x AND 0x7FFFFF = take_bit 23 x" by (simp_all add: take_bit_eq_mask mask_eq_exp_minus_1)
  show "x AND 1 \<noteq> 0 \<longleftrightarrow> bit x 0" by (simp add: and_one_eq bit_0 odd_iff_mod_2_eq_one)
  have "x AND 2 ^ 22 = (if bit x 22 then 2 ^ 22 else 0)"
    by (rule bit_word_eqI) (auto simp only: bit_and_iff bit_exp_iff bit_0_eq split: if_splits)
  then show "x AND 0x400000 \<noteq> 0 \<longleftrightarrow> bit x 22" by simp
qed

lemma linear_divide: "linear (divide n)"
proof (induction n)
  case (Suc n)
  have "drop_bit 1 (if (x XOR y) AND 1 \<noteq> 0 then (x XOR y) XOR POLY else x XOR y) =
      drop_bit 1 (if x AND 1 \<noteq> 0 then x XOR POLY else x) XOR drop_bit 1 (if y AND 1 \<noteq> 0 then y XOR POLY else y)" for x y :: "32 word"
    unfolding low_bits by (auto simp: drop_bit_xor bit_xor_iff xor.assoc xor.left_commute xor.commute)
  with Suc show ?case by (simp add: linear_def)
qed (simp add: linear_def)

lemma linear_syndrome: "linear syndrome"
  using linear_divide by (simp add: linear_def syndrome_def low_bits take_bit_xor push_bit_xor)

lemma golay_xor: "golay x = push_bit 12 (divide 12 (take_bit 12 x)) XOR take_bit 12 x"
  unfolding golay_def Let_def low_bits by (rule bit_word_eqI) (auto simp: bit_simps)

lemma linear_golay: "linear golay"
  using linear_divide by (simp add: linear_def golay_xor take_bit_xor push_bit_xor xor.assoc xor.left_commute)

lemma syndrome_take: "syndrome (take_bit 23 x) = syndrome x"
  by (simp add: syndrome_def low_bits)

lemma golay_syndrome: "golay x = syndrome (take_bit 12 x) XOR take_bit 12 x"
  by (simp add: golay_xor syndrome_def low_bits)

text \<open>The places of the check bits. A word with bits only there is its own syndrome, and every syndrome is such a word.\<close>

definition in_checks :: "32 word \<Rightarrow> bool" where
  "in_checks x \<longleftrightarrow> (\<forall>n. bit x n \<longrightarrow> 12 \<le> n \<and> n < 23)"

lemma take_bit_eq: "take_bit n x = x \<longleftrightarrow> (\<forall>k. bit x k \<longrightarrow> k < n)" for x :: "32 word"
proof
  show "\<forall>k. bit x k \<longrightarrow> k < n" if "take_bit n x = x" using that by (metis bit_take_bit_iff)
qed (auto intro!: bit_word_eqI simp: bit_simps)

lemma poly_bits: "bit POLY n \<Longrightarrow> n < 12"
proof -
  have "take_bit 12 POLY = POLY" by simp
  then show "bit POLY n \<Longrightarrow> n < 12" by (simp only: take_bit_eq)
qed

lemma divide_bound: "(\<And>k. bit x k \<Longrightarrow> k < n + 11) \<Longrightarrow> bit (divide n x) k \<Longrightarrow> k < 11"
proof (induction n arbitrary: x)
  case (Suc n)
  have "k < n + 11" if "bit (drop_bit 1 (if x AND 1 \<noteq> 0 then x XOR POLY else x)) k" for k
    using that Suc.prems(1) [of "Suc k"] poly_bits [of "Suc k"] by (auto simp: bit_simps split: if_splits)
  from Suc.IH [OF this] Suc.prems(2) show ?case by (simp only: divide.simps)
qed auto

lemma syndrome_in_checks: "in_checks (syndrome x)"
  unfolding in_checks_def syndrome_def low_bits
  using divide_bound [of "take_bit 23 x" 12] by (fastforce simp: bit_simps)

lemma divide_shifted: "(\<And>k. bit x k \<Longrightarrow> k < 11) \<Longrightarrow> n \<le> 12 \<Longrightarrow> divide n (push_bit n x) = x"
proof (induction n)
  case (Suc n)
  have "\<not> bit (push_bit (Suc n) x) 0" by (simp only: bit_push_bit_iff) simp
  moreover have "drop_bit 1 (push_bit (Suc n) x) = push_bit n x"
  proof (rule bit_word_eqI)
    fix m
    show "bit (drop_bit 1 (push_bit (Suc n) x)) m = bit (push_bit n x) m"
      using Suc.prems(1) [of "m - n"] Suc.prems(2) unfolding bit_drop_bit_eq bit_push_bit_iff comp_def by auto
  qed
  ultimately show ?case using Suc by (simp only: divide.simps low_bits if_False)
qed simp

lemma syndrome_checks: "in_checks x \<Longrightarrow> syndrome x = x"
proof -
  assume x: "in_checks x"
  have "push_bit 12 (drop_bit 12 x) = x" using x unfolding in_checks_def by (intro bit_word_eqI) (auto simp: bit_simps)
  moreover have "take_bit 23 x = x" using x by (auto simp: take_bit_eq in_checks_def)
  moreover have "divide 12 (push_bit 12 (drop_bit 12 x)) = drop_bit 12 x"
    using x by (intro divide_shifted) (auto simp: in_checks_def bit_simps)
  ultimately show ?thesis unfolding syndrome_def low_bits by simp
qed

section \<open>Shifts and weights\<close>

definition places :: "32 word \<Rightarrow> nat set" where
  "places x = {n. n < 23 \<and> bit x n}"

definition rl :: "32 word \<Rightarrow> 32 word" where
  "rl x = rotate_left x 1"

definition rr :: "32 word \<Rightarrow> 32 word" where
  "rr x = rotate_right x 1"

lemma rl_fold: "rotate_left x (Suc 0) = rl x"
  by (simp add: rl_def)

lemma finite_places [simp]: "finite (places x)"
  by (simp add: places_def)

lemma bit_rl: "bit (rl x) n \<longleftrightarrow> n < 23 \<and> bit x (if n = 0 then 22 else n - 1)"
proof -
  have "bit (push_bit 1 x) n \<longleftrightarrow> n \<noteq> 0 \<and> n < 32 \<and> bit x (n - 1)" unfolding bit_push_bit_iff by auto
  then show ?thesis
    unfolding rl_def rotate_left_def One_nat_def left.simps low_bits bit_take_bit_iff by (auto simp: bit_or_iff bit_1_iff split: if_splits)
qed

lemma bit_22: "bit (0x400000 :: 32 word) n \<longleftrightarrow> n = 22"
proof -
  have "bit (2 ^ 22 :: 32 word) n \<longleftrightarrow> n = 22" by (auto simp only: bit_exp_iff) simp_all
  then show ?thesis by simp
qed

lemma bit_rr: "take_bit 23 x = x \<Longrightarrow> bit (rr x) n \<longleftrightarrow> n < 23 \<and> bit x (if n = 22 then 0 else n + 1)"
  unfolding rr_def rotate_right_def One_nat_def right.simps low_bits take_bit_eq
  using bit_22 [of n] by (auto simp: bit_take_bit_iff bit_or_iff bit_drop_bit_eq)

lemma shifts_23 [simp]: "take_bit 23 (rl x) = rl x" "take_bit 23 (rr x) = rr x"
  by (simp_all add: rl_def rr_def rotate_left_def rotate_right_def low_bits)

lemma places_rl: "places (rl x) = (\<lambda>n. (n + 1) mod 23) ` places x"
proof (rule set_eqI)
  fix n
  show "n \<in> places (rl x) \<longleftrightarrow> n \<in> (\<lambda>n. (n + 1) mod 23) ` places x"
  proof
    assume "n \<in> places (rl x)"
    then have "(if n = 0 then 22 else n - 1) \<in> places x \<and> n = ((if n = 0 then 22 else n - 1) + 1) mod 23"
      by (auto simp: places_def bit_rl)
    then show "n \<in> (\<lambda>n. (n + 1) mod 23) ` places x" by blast
  next
    assume "n \<in> (\<lambda>n. (n + 1) mod 23) ` places x"
    then obtain m where "m < 23" "bit x m" "n = (m + 1) mod 23" by (auto simp: places_def)
    then show "n \<in> places (rl x)" by (cases "m = 22") (auto simp: places_def bit_rl)
  qed
qed

lemma rr_rl: "take_bit 23 x = x \<Longrightarrow> rr (rl x) = x"
  by (rule bit_word_eqI) (auto simp: bit_rr bit_rl take_bit_eq)

lemma rl_rr: "take_bit 23 x = x \<Longrightarrow> rl (rr x) = x"
  by (rule bit_word_eqI) (auto simp: bit_rr bit_rl take_bit_eq)

lemma rl_xor: "rl (x XOR y) = rl x XOR rl y"
  by (rule bit_word_eqI) (auto simp: bit_rl bit_xor_iff)

lemma rr_xor: "take_bit 23 x = x \<Longrightarrow> take_bit 23 y = y \<Longrightarrow> rr (x XOR y) = rr x XOR rr y"
  by (rule bit_word_eqI) (auto simp: bit_rr bit_xor_iff take_bit_xor)

lemma card_places_rl: "card (places (rl x)) = card (places x)"
proof -
  have "inj_on (\<lambda>n :: nat. (n + 1) mod 23) (places x)" by (auto simp: inj_on_def places_def mod_Suc split: if_splits)
  then show ?thesis by (simp add: places_rl card_image)
qed

lemma card_places_rr: "take_bit 23 x = x \<Longrightarrow> card (places (rr x)) = card (places x)"
  using card_places_rl [of "rr x"] by (simp add: rl_rr)

lemma card_places_xor: "card (places (x XOR y)) \<le> card (places x) + card (places y)"
proof -
  have "card (places (x XOR y)) \<le> card (places x \<union> places y)" by (rule card_mono) (auto simp: places_def bit_xor_iff)
  then show ?thesis using card_Un_le [of "places x" "places y"] by simp
qed

lemma wgt_nibble: "wgt ! unat (x AND 0xF) = (\<Sum>k<4. of_bool (bit x k))" for x :: "32 word"
proof -
  have m: "x AND 0xF = take_bit 4 x" by (simp add: take_bit_eq_mask mask_eq_exp_minus_1)
  have "unat (take_bit 4 x) = take_bit 4 (unat x)" by (rule unsigned_take_bit_eq)
  also have "\<dots> = 8 * of_bool (bit x 3) + (4 * of_bool (bit x 2) + (2 * of_bool (bit x 1) + of_bool (bit x 0)))"
    by (simp add: eval_nat_numeral take_bit_Suc_from_most bit_unsigned_iff)
  finally show ?thesis unfolding m by (simp add: wgt_def eval_nat_numeral)
qed

lemma sum_split: "(\<Sum>k<m + n. f k) = (\<Sum>k<m. f k) + (\<Sum>k<n. f (m + k))" for f :: "nat \<Rightarrow> nat"
  by (induction n) (simp_all add: add.assoc)

lemma weight_loop_sum: "weight_loop n x bits = bits + (\<Sum>k<4 * n. of_bool (bit x k))"
proof (induction n arbitrary: x bits)
  case (Suc n)
  have "(\<Sum>k<4 + 4 * n. of_bool (bit x k)) = (\<Sum>k<4. of_bool (bit x k)) + (\<Sum>k<4 * n. of_bool (bit (drop_bit 4 x) k) :: nat)"
    by (simp only: sum_split bit_drop_bit_eq comp_def)
  then show ?case using Suc by (auto simp: wgt_nibble)
qed simp

lemma weight_places: "take_bit 23 x = x \<Longrightarrow> weight x = card (places x)"
proof -
  assume "take_bit 23 x = x"
  then have "\<not> bit x 23" by (auto simp: take_bit_eq)
  moreover have "{..<23} \<inter> {n. bit x n} = places x" by (auto simp: places_def)
  moreover have "(\<Sum>k<24. of_bool (bit x k)) = (\<Sum>k<23. of_bool (bit x k)) + (of_bool (bit x 23) :: nat)"
    using sum_split [of "\<lambda>k. of_bool (bit x k)" 23 1] by simp
  ultimately show ?thesis unfolding weight_def weight_loop_sum by (simp add: sum_of_bool_eq)
qed

section \<open>Code words\<close>

definition codeword :: "32 word \<Rightarrow> bool" where
  "codeword x \<longleftrightarrow> take_bit 23 x = x \<and> syndrome x = 0"

lemma syndrome_xor: "syndrome (x XOR y) = syndrome x XOR syndrome y"
  using linear_syndrome by (simp add: linear_def)

lemma codeword_xor: "codeword x \<Longrightarrow> codeword y \<Longrightarrow> codeword (x XOR y)"
  by (simp add: codeword_def syndrome_xor take_bit_xor)

lemma in_checks_23: "in_checks x \<Longrightarrow> take_bit 23 x = x"
  by (auto simp: in_checks_def take_bit_eq)

lemmas syndrome_syndrome = syndrome_checks [OF syndrome_in_checks]
lemmas syndrome_23 = in_checks_23 [OF syndrome_in_checks]

lemma corrected_codeword: "take_bit 23 x = x \<Longrightarrow> codeword (x XOR syndrome x)"
  by (simp add: codeword_def syndrome_xor syndrome_syndrome take_bit_xor syndrome_23)

lemma golay_codeword: "codeword (golay x)"
proof -
  have "take_bit 23 (take_bit 12 x) = take_bit 12 x" by simp
  then have "codeword (take_bit 12 x XOR syndrome (take_bit 12 x))" by (rule corrected_codeword)
  then show ?thesis by (simp add: golay_syndrome xor.commute)
qed

lemma codeword_golay: "codeword x \<Longrightarrow> golay x = x"
proof -
  assume x: "codeword x"
  let ?h = "x XOR take_bit 12 x"
  have h: "in_checks ?h"
    using x unfolding in_checks_def codeword_def take_bit_eq by (auto simp: bit_simps not_less)
  have "syndrome (take_bit 12 x) = syndrome (x XOR ?h)" by (simp flip: xor.assoc)
  also have "\<dots> = syndrome x XOR syndrome ?h" by (rule syndrome_xor)
  also have "\<dots> = ?h" using x by (simp add: syndrome_checks [OF h] codeword_def)
  finally show ?thesis by (simp add: golay_syndrome xor.assoc)
qed

text \<open>The code is cyclic: checked on the code words of single data bits.\<close>

definition shifted_right :: "32 word \<Rightarrow> 32 word" where
  "shifted_right x = syndrome (rr (golay x))"

definition shifted_left :: "32 word \<Rightarrow> 32 word" where
  "shifted_left x = syndrome (rl (golay x))"

definition is_zero :: "32 word \<Rightarrow> bool" where
  "is_zero x \<longleftrightarrow> x = 0"

lemma shifted_units: "list_all is_zero (map shifted_right (units 12))" "list_all is_zero (map shifted_left (units 12))"
  by code_simp+

lemma golay_linear: "golay (x XOR y) = golay x XOR golay y"
  using linear_golay by (simp add: linear_def)

lemma codeword_23: "codeword x \<Longrightarrow> take_bit 23 x = x"
  by (simp add: codeword_def)

lemma codeword_rr: "codeword x \<Longrightarrow> codeword (rr x)"
proof -
  assume x: "codeword x"
  have "linear shifted_right"
    by (simp add: linear_def shifted_right_def golay_linear syndrome_xor rr_xor codeword_23 golay_codeword)
  then have "shifted_right (take_bit 12 x) = 0"
    by (rule linear_units) (use shifted_units(1) in \<open>simp_all add: list_all_iff is_zero_def\<close>)
  then show ?thesis
    using codeword_golay [OF x] by (simp add: shifted_right_def codeword_def golay_syndrome)
qed

lemma codeword_rl: "codeword x \<Longrightarrow> codeword (rl x)"
proof -
  assume x: "codeword x"
  have "linear shifted_left" by (simp add: linear_def shifted_left_def golay_linear syndrome_xor rl_xor)
  then have "shifted_left (take_bit 12 x) = 0"
    by (rule linear_units) (use shifted_units(2) in \<open>simp_all add: list_all_iff is_zero_def\<close>)
  then show ?thesis
    using codeword_golay [OF x] by (simp add: shifted_left_def codeword_def golay_syndrome)
qed

section \<open>The distance of the code\<close>

text \<open>The sum of the rows that a choice of data bits selects: 7 ones at least, counting the data bits, or no data bit.\<close>

fun xors :: "bool list \<Rightarrow> bool list \<Rightarrow> bool list" where
  "xors (a # as) (b # bs) = (a \<noteq> b) # xors as bs"
| "xors _ _ = []"

fun at_least :: "nat \<Rightarrow> bool list \<Rightarrow> bool" where
  "at_least 0 _ = True"
| "at_least (Suc k) [] = False"
| "at_least (Suc k) (b # bs) = (if b then at_least k bs else at_least (Suc k) bs)"

fun distant :: "bool list list \<Rightarrow> bool list \<Rightarrow> nat \<Rightarrow> bool" where
  "distant [] acc need = (need = 7 \<or> at_least need acc)"
| "distant (row # rows) acc need = (need = 0 \<or> (distant rows acc need \<and> distant rows (xors row acc) (need - 1)))"

definition checks :: "32 word \<Rightarrow> bool list" where
  "checks x = map (bit x) [12..<23]"

definition row :: "32 word \<Rightarrow> bool list" where
  "row x = checks (golay x)"

lemma rows_distant: "distant (map row (units 12)) (replicate 11 False) 7"
  by code_simp

lemma xors_checks: "xors (checks x) (checks y) = checks (x XOR y)"
proof -
  have "xors (map f xs) (map g xs) = map (\<lambda>n. f n \<noteq> g n) xs" for f g and xs :: "nat list" by (induction xs) simp_all
  then show ?thesis by (simp add: checks_def bit_xor_iff [abs_def])
qed

lemma at_least_checks: "at_least k bs \<longleftrightarrow> k \<le> count_list bs True"
  by (induction k bs rule: at_least.induct) auto

definition data_places :: "nat \<Rightarrow> 32 word \<Rightarrow> nat set" where
  "data_places i x = {n. i \<le> n \<and> n < 12 \<and> bit x n}"

lemma data_places_step:
  assumes "i < 12"
  shows "data_places i x = (if bit x i then insert i (data_places (Suc i) x) else data_places (Suc i) x)"
    "card (data_places i x) = of_bool (bit x i) + card (data_places (Suc i) x)"
proof -
  have "i \<le> n \<longleftrightarrow> n = i \<or> Suc i \<le> n" for n by auto
  with assms show *: "data_places i x = (if bit x i then insert i (data_places (Suc i) x) else data_places (Suc i) x)"
    by (auto simp: data_places_def)
  have "finite (data_places (Suc i) x)" "i \<notin> data_places (Suc i) x" by (simp_all add: data_places_def)
  with * show "card (data_places i x) = of_bool (bit x i) + card (data_places (Suc i) x)" by simp
qed

lemma distant_rows:
  assumes "distant (map row (drop i (units 12))) (row (take_bit i x)) need" "i \<le> 12" "take_bit 12 x = x" "need \<le> 7"
  shows "need = 7 \<and> data_places i x = {} \<or> need \<le> card (data_places i x) + count_list (row x) True"
  using assms
proof (induction "12 - i" arbitrary: i need)
  case 0
  then have "i = 12" by simp
  moreover have "data_places 12 x = {}" by (simp add: data_places_def)
  ultimately show ?case using 0 by (simp add: units_def at_least_checks)
next
  case (Suc d)
  then have i: "i < 12" "drop i (units 12) = 2 ^ i # drop (Suc i) (units 12)" by (auto simp: units_def Cons_nth_drop_Suc [symmetric])
  have "take_bit (Suc i) x = (if bit x i then 2 ^ i XOR take_bit i x else take_bit i x)"
    using i(1) by (intro bit_word_eqI) (auto simp: bit_simps less_Suc_eq)
  then have "row (take_bit (Suc i) x) = (if bit x i then xors (row (2 ^ i)) (row (take_bit i x)) else row (take_bit i x))"
    by (simp add: row_def xors_checks golay_linear)
  then have "need = 0 \<or> distant (map row (drop (Suc i) (units 12))) (row (take_bit (Suc i) x)) (if bit x i then need - 1 else need)"
    using Suc.prems(1) i(2) by auto
  moreover have "d = 12 - Suc i" "Suc i \<le> 12" "(if bit x i then need - 1 else need) \<le> 7" using Suc.hyps(2) Suc.prems(4) i(1) by auto
  ultimately show ?case
    using Suc.hyps(1) [of "Suc i" "if bit x i then need - 1 else need"] Suc.prems(3,4) data_places_step [OF i(1), of x]
    by (auto split: if_splits)
qed

text \<open>No code word but 0 has fewer than seven ones.\<close>

lemma codeword_distance: "codeword x \<Longrightarrow> x \<noteq> 0 \<Longrightarrow> 7 \<le> card (places x)"
proof -
  assume x: "codeword x" "x \<noteq> 0"
  let ?d = "take_bit 12 x"
  have "row 0 = replicate 11 False" by code_simp
  then have "distant (map row (drop 0 (units 12))) (row (take_bit 0 ?d)) 7" using rows_distant by simp
  then have *: "data_places 0 ?d = {} \<or> 7 \<le> card (data_places 0 ?d) + count_list (row ?d) True"
    using distant_rows [of 0 ?d 7] by simp
  have r: "row ?d = checks x" using codeword_golay [OF x(1)] by (simp add: row_def golay_syndrome)
  have "count_list (map f xs) True = length (filter f xs)" for f and xs :: "nat list" by (induction xs) simp_all
  then have "count_list (map f xs) True = card {n \<in> set xs. f n}" if "distinct xs" for f and xs :: "nat list"
    using that by (simp add: distinct_length_filter Int_def conj_commute)
  from this [of "[12..<23]" "bit x"] have c: "count_list (checks x) True = card {n \<in> {12..<23}. bit x n}"
    unfolding checks_def set_upt by simp
  have "card (places x) = card (data_places 0 ?d \<union> {n \<in> {12..<23}. bit x n})"
    by (rule arg_cong [where f = card]) (auto simp: places_def data_places_def bit_simps)
  also have "\<dots> = card (data_places 0 ?d) + card {n \<in> {12..<23}. bit x n}"
    by (rule card_Un_disjoint) (auto simp: data_places_def)
  finally have p: "card (places x) = card (data_places 0 ?d) + count_list (row ?d) True" by (simp add: r c)
  have "data_places 0 ?d \<noteq> {}"
  proof
    assume "data_places 0 ?d = {}"
    then have "?d = 0" by (intro bit_word_eqI) (auto simp: data_places_def bit_simps)
    then show False using codeword_golay [OF x(1)] x(2) linear_0 [OF linear_syndrome] by (simp add: golay_syndrome)
  qed
  with * p show ?thesis by simp
qed

end
