(* ===== verification/Serval_Correction.thy ===== *)
theory Serval_Correction
  imports Serval_Code
begin

unbundle bit_operations_syntax

text \<open>
  The radio link's code corrects up to three wrong bits: every pattern of up to three is found by the trial flips and shifts, and whatever
  is found is the code word sent, because of the distance.
\<close>

section \<open>Correction\<close>

text \<open>A hit of the inner loop gives the code word at the distance of the weight found.\<close>

lemma shifts:
  assumes "take_bit 23 x = x"
  shows "take_bit 23 ((rr ^^ n) x) = (rr ^^ n) x" "take_bit 23 ((rl ^^ n) x) = (rl ^^ n) x"
    "card (places ((rr ^^ n) x)) = card (places x)"
proof -
  show t: "take_bit 23 ((rr ^^ n) x) = (rr ^^ n) x" for n using assms by (cases n) simp_all
  show "take_bit 23 ((rl ^^ n) x) = (rl ^^ n) x" using assms by (cases n) simp_all
  show "card (places ((rr ^^ n) x)) = card (places x)" by (induction n) (simp_all add: card_places_rr t)
qed

lemma shifts_xor:
  "take_bit 23 x = x \<Longrightarrow> take_bit 23 y = y \<Longrightarrow> (rr ^^ n) (x XOR y) = (rr ^^ n) x XOR (rr ^^ n) y"
  "(rl ^^ n) (x XOR y) = (rl ^^ n) x XOR (rl ^^ n) y"
  by (induction n) (simp_all add: rr_xor shifts rl_xor)

lemma codeword_shifts: "codeword x \<Longrightarrow> codeword ((rr ^^ n) x)" "codeword x \<Longrightarrow> codeword ((rl ^^ n) x)"
  by (induction n) (simp_all add: codeword_rr codeword_rl)

lemma unshift: "take_bit 23 x = x \<Longrightarrow> (rr ^^ n) ((rl ^^ n) x) = x"
proof (induction n)
  case (Suc n)
  then show ?case using shifts(2) [OF Suc.prems, of n] by (simp add: funpow_Suc_right [of n rr] funpow.simps(2) [of n rl] rr_rl del: funpow.simps(2))
qed simp

lemma reshift: "take_bit 23 x = x \<Longrightarrow> (rl ^^ n) ((rr ^^ n) x) = x"
proof (induction n)
  case (Suc n)
  then show ?case using shifts(1) [OF Suc.prems, of n] by (simp add: funpow_Suc_right [of n rl] funpow.simps(2) [of n rr] rl_rr del: funpow.simps(2))
qed simp

lemma right_rr: "take_bit 23 x = x \<Longrightarrow> right 1 x = rr x"
  unfolding rr_def rotate_right_def One_nat_def right.simps low_bits
proof (rule bit_word_eqI)
  fix n
  assume "take_bit 23 x = x"
  then show "bit (if bit x 0 then drop_bit (Suc 0) x OR 0x400000 else drop_bit (Suc 0) x) n =
      bit (take_bit 23 (if bit x 0 then drop_bit (Suc 0) x OR 0x400000 else drop_bit (Suc 0) x)) n"
    using bit_22 [of n] by (auto simp: bit_take_bit_iff bit_or_iff bit_drop_bit_eq take_bit_eq)
qed

lemma rotate_right_rr: "take_bit 23 x = x \<Longrightarrow> rotate_right x n = (rr ^^ n) x"
proof (induction n arbitrary: x)
  case (Suc n)
  have "right (Suc n) x = right n (right 1 x)" by (simp only: right.simps One_nat_def)
  then have "rotate_right x (Suc n) = rotate_right (rr x) n" by (simp only: rotate_right_def right_rr [OF Suc.prems])
  then show ?case using Suc.IH [of "rr x"] by (simp add: funpow_swap1)
qed (simp add: rotate_right_def low_bits)

lemma hit_sound:
  assumes "take_bit 23 cw = cw"
    "try_shifts w n i errs ((rl ^^ i) cw) (syndrome ((rl ^^ i) cw)) = (e, Some r)"
  shows "codeword r \<and> card (places (r XOR cw)) = e \<and> e \<le> w \<and> (\<exists>k < i + n. in_checks ((rl ^^ k) (r XOR cw)))"
  using assms(2)
proof (induction n arbitrary: i errs)
  case (Suc n)
  let ?z = "(rl ^^ i) cw"
  note z = shifts(2) [OF assms(1), of i]
  show ?case
  proof (cases "weight (syndrome ?z) \<le> w")
    case True
    then have r: "r = (rr ^^ i) (?z XOR syndrome ?z)" "e = weight (syndrome ?z)"
      using Suc.prems by (simp_all add: Let_def rotate_right_rr take_bit_xor z syndrome_23)
    then have "r = cw XOR (rr ^^ i) (syndrome ?z)" by (simp add: shifts_xor(1) [OF z syndrome_23] unshift [OF assms(1)])
    then have "r XOR cw = (rr ^^ i) (syndrome ?z)" by (simp add: xor.commute xor.left_commute)
    moreover have "in_checks ((rl ^^ i) ((rr ^^ i) (syndrome ?z)))" by (simp add: reshift syndrome_23 syndrome_in_checks)
    ultimately show ?thesis
      using r True codeword_shifts(1) [OF corrected_codeword [OF z]] by (auto simp: shifts syndrome_23 weight_places intro!: exI [of _ i])
  next
    case False
    then show ?thesis using Suc.prems Suc.IH [of "Suc i"] by (auto simp: Let_def rl_fold)
  qed
qed simp

lemma hit_exists:
  "\<exists>k < n. weight (syndrome ((rl ^^ k) cw)) \<le> w \<Longrightarrow> \<exists>e r. try_shifts w n i errs cw (syndrome cw) = (e, Some r)"
proof (induction n arbitrary: i errs cw)
  case (Suc n)
  then obtain k where k: "k < Suc n" "weight (syndrome ((rl ^^ k) cw)) \<le> w" by blast
  show ?case
  proof (cases "weight (syndrome cw) \<le> w")
    case False
    with k obtain k' where "k' < n" "weight (syndrome ((rl ^^ k') (rl cw))) \<le> w" by (cases k) (auto simp: funpow_swap1)
    then show ?thesis using Suc.IH [of "rl cw" "Suc i" "weight (syndrome cw)"] False by (auto simp: Let_def rl_fold)
  qed (simp add: Let_def)
qed simp

text \<open>Which bits to flip: of up to three places, two fit into the places of the check bits after some shift.\<close>

lemma pair_fits:
  assumes "a < 23" "b < (23 :: nat)" "a \<le> b" "b - a \<le> 10 \<or> 13 \<le> b - a"
  shows "\<exists>k < 23. 12 \<le> (a + k) mod 23 \<and> 12 \<le> (b + k) mod 23"
proof (cases "b - a \<le> 10")
  case True
  let ?k = "if a \<le> 12 then 12 - a else 35 - a"
  have "(a + ?k) mod 23 = 12" "(b + ?k) mod 23 = 12 + (b - a)" using assms True by (auto simp: mod_if)
  then show ?thesis using assms by (intro exI [of _ ?k]) auto
next
  case False
  let ?k = "if b \<le> 12 then 12 - b else 35 - b"
  have "(b + ?k) mod 23 = 12" "(a + ?k) mod 23 = 35 - (b - a)" using assms False by (auto simp: mod_if)
  then show ?thesis using assms False by (intro exI [of _ ?k]) auto
qed

lemma flip_fits_sorted:
  assumes "a \<le> b" "b \<le> c" "c < (23 :: nat)" "E = {a, b, c}"
  shows "\<exists>j \<in> E. \<exists>k < 23. \<forall>n \<in> E - {j}. 12 \<le> (n + k) mod 23"
proof -
  consider "b - a \<le> 10 \<or> 13 \<le> b - a" | "c - b \<le> 10 \<or> 13 \<le> c - b" | "13 \<le> c - a" using assms(1-3) by linarith
  then show ?thesis
  proof cases
    case 1
    then show ?thesis using pair_fits [of a b] assms by (intro bexI [of _ c]) auto
  next
    case 2
    then show ?thesis using pair_fits [of b c] assms by (intro bexI [of _ a]) auto
  next
    case 3
    then show ?thesis using pair_fits [of a c] assms by (intro bexI [of _ b]) auto
  qed
qed

lemma flip_fits:
  assumes "E \<subseteq> {..<23 :: nat}" "E \<noteq> {}" "card E \<le> 3"
  shows "\<exists>j \<in> E. \<exists>k < 23. \<forall>n \<in> E - {j}. 12 \<le> (n + k) mod 23"
proof -
  have "finite E" using finite_subset [OF assms(1)] by simp
  define xs where "xs = sorted_list_of_set E"
  have xs: "set xs = E" "sorted xs" "length xs \<le> 3" "xs \<noteq> []"
    using \<open>finite E\<close> assms(2,3) unfolding xs_def by simp_all
  have "length xs = 1 \<or> length xs = 2 \<or> length xs = 3" using xs(3) length_0_conv [of xs] xs(4) by linarith
  then consider a where "xs = [a]" | a b where "xs = [a, b]" | a b c where "xs = [a, b, c]"
    by (auto simp: length_Suc_conv eval_nat_numeral)
  then show ?thesis
  proof cases
    case 1
    then show ?thesis using flip_fits_sorted [of a a a E] xs(1) assms(1) by auto
  next
    case 2
    then show ?thesis using flip_fits_sorted [of a b b E] xs(1,2) assms(1) by auto
  next
    case 3
    then show ?thesis using flip_fits_sorted [of a b c E] xs(1,2) assms(1) by auto
  qed
qed

lemma places_rls: "places ((rl ^^ k) x) = (\<lambda>n. (n + k) mod 23) ` places x"
proof (induction k)
  case 0
  show ?case by (force simp: places_def)
next
  case (Suc k)
  show ?case by (simp add: places_rl Suc image_image mod_Suc_eq)
qed

text \<open>A word with few wrong bits, all in the places of the check bits after a shift: the weight of the syndrome is their number.\<close>

lemma shifted_weight:
  assumes "codeword c" "take_bit 23 e = e" "\<forall>n \<in> places e. 12 \<le> (n + k) mod 23"
  shows "weight (syndrome ((rl ^^ k) (c XOR e))) = card (places e)"
proof -
  let ?e = "(rl ^^ k) e"
  have "take_bit 23 ?e = ?e" using assms(2) by (rule shifts)
  moreover have "12 \<le> n" if "n \<in> places ?e" for n using that assms(3) by (auto simp: places_rls)
  ultimately have c: "in_checks ?e" by (auto simp: in_checks_def take_bit_eq places_def)
  have "syndrome ((rl ^^ k) (c XOR e)) = ?e"
    using codeword_shifts(2) [OF assms(1), of k] by (simp add: shifts_xor syndrome_xor syndrome_checks [OF c] codeword_def)
  moreover have "card (places ?e) = card (places e)" by (induction k) (simp_all add: card_places_rl)
  ultimately show ?thesis by (simp add: weight_places in_checks_23 [OF c])
qed

lemma near_unique:
  assumes "codeword r" "codeword c" "card (places (r XOR y)) \<le> 3" "card (places (c XOR y)) \<le> 3"
  shows "r = c"
proof (rule ccontr)
  assume "r \<noteq> c"
  then have "r XOR c \<noteq> 0" by (metis xor.right_neutral xor_self_eq xor.left_commute)
  then have "7 \<le> card (places (r XOR c))" using codeword_distance codeword_xor [OF assms(1,2)] by blast
  also have "r XOR c = (r XOR y) XOR (c XOR y)" by (simp add: xor.commute xor.left_commute)
  also have "card (places \<dots>) \<le> 3 + 3" using card_places_xor [of "r XOR y" "c XOR y"] assms(3,4) by linarith
  finally show False by simp
qed

text \<open>The passes with a trial bit. Pass \<open>t\<close> hits when the flipped word is a code word or has a shift with a light syndrome.\<close>

definition hits :: "32 word \<Rightarrow> nat \<Rightarrow> bool" where
  "hits y t \<longleftrightarrow> syndrome (y XOR 2 ^ t) = 0 \<or> (\<exists>k < 23. weight (syndrome ((rl ^^ k) (y XOR 2 ^ t))) \<le> 2)"

lemma flip_23: "take_bit 23 y = y \<Longrightarrow> t < 23 \<Longrightarrow> take_bit 23 (y XOR 2 ^ t) = y XOR 2 ^ t" for y :: "32 word"
  unfolding take_bit_eq by (auto simp: bit_xor_iff bit_exp_iff)

lemma pass:
  assumes "j < 23"
  shows "correct_loop y (int j) (2 ^ (j - 1)) errs =
    (if syndrome (y XOR 2 ^ j) = 0 then (y XOR 2 ^ j, errs)
     else case try_shifts 2 23 0 errs (y XOR 2 ^ j) (syndrome (y XOR 2 ^ j)) of
        (e, Some r) \<Rightarrow> (r, e) | (e, None) \<Rightarrow> correct_loop y (int (Suc j)) (2 ^ (Suc j - 1)) e)"
proof -
  have "(if int j > 0 then 2 ^ (j - 1) + 2 ^ (j - 1) else 2 ^ (j - 1) :: 32 word) = 2 ^ j" by (cases j) simp_all
  then show ?thesis using assms by (subst correct_loop.simps) (simp add: Let_def add.commute)
qed

lemma later_passes:
  assumes "take_bit 23 y = y" "t < 23" "hits y t" "j \<le> t"
  shows "\<exists>r e t'. correct_loop y (int j) (2 ^ (j - 1)) errs = (r, e) \<and> t' < 23 \<and> codeword r \<and>
    (r = y XOR 2 ^ t' \<or> e = card (places (r XOR (y XOR 2 ^ t'))) \<and> e \<le> 2)"
  using assms(4)
proof (induction "t - j" arbitrary: j errs rule: less_induct)
  case less
  let ?cw = "y XOR 2 ^ j"
  from less.prems assms(2) have j: "j < 23" by simp
  note cw = flip_23 [OF assms(1) j]
  note step = pass [OF j, of y errs, unfolded One_nat_def]
  obtain e hit where try_eq: "try_shifts 2 23 0 errs ?cw (syndrome ?cw) = (e, hit)" by fastforce
  show ?case
  proof (cases "syndrome ?cw = 0")
    case True
    then show ?thesis using cw j by (auto simp: step codeword_def simp del: take_bit_xor)
  next
    case nonzero: False
    show ?thesis
    proof (cases hit)
      case (Some r)
      then show ?thesis using hit_sound [OF cw, of 2 23 0 errs e r] try_eq j nonzero by (auto simp: step)
    next
      case None
      then have "j \<noteq> t" using assms(3) nonzero hit_exists [of 23 ?cw 2 0 errs] try_eq by (auto simp: hits_def)
      then show ?thesis using less.hyps [of "Suc j" e] less.prems None try_eq nonzero j by (simp add: step)
    qed
  qed
qed

text \<open>The whole correction: the code word, and the number reported.\<close>

lemma first_pass:
  "correct y =
    (if syndrome y = 0 then (y, 0)
     else case try_shifts 3 23 0 0 y (syndrome y) of (e, Some r) \<Rightarrow> (r, e) | (e, None) \<Rightarrow> correct_loop y (int 0) (2 ^ (0 - 1)) e)"
  unfolding correct_def by (subst correct_loop.simps) (simp add: Let_def)

lemma places_flip: "t < 23 \<Longrightarrow> places (e XOR 2 ^ t) = (if t \<in> places e then places e - {t} else insert t (places e))"
  by (auto simp: places_def bit_xor_iff bit_exp_iff)

lemma places_empty: "take_bit 23 e = e \<Longrightarrow> places e = {} \<longleftrightarrow> e = 0"
  unfolding take_bit_eq by (auto simp: places_def intro!: bit_word_eqI)

lemma pass_hits:
  assumes "codeword c" "take_bit 23 e = e" "card (places e) \<le> 3" "e \<noteq> 0"
  shows "\<exists>t < 23. hits (c XOR e) t"
proof -
  have "places e \<subseteq> {..<23}" "places e \<noteq> {}" using places_empty [OF assms(2)] assms(4) by (auto simp: places_def)
  from flip_fits [OF this assms(3)] obtain t k where t: "t \<in> places e" "k < 23" "\<forall>n \<in> places e - {t}. 12 \<le> (n + k) mod 23" by blast
  then have "t < 23" by (simp add: places_def)
  then have "weight (syndrome ((rl ^^ k) (c XOR (e XOR 2 ^ t)))) = card (places e - {t})"
    using shifted_weight [OF assms(1) flip_23 [OF assms(2)], of t k] t by (simp add: places_flip)
  also have "\<dots> \<le> 2" using assms(3) t(1) by simp
  finally show ?thesis using t(2) \<open>t < 23\<close> by (auto simp: hits_def xor.assoc)
qed

text \<open>Wrong bits that fit, after some shift, into the places of the check bits: these are found without a trial bit.\<close>

definition fits :: "32 word \<Rightarrow> bool" where
  "fits e \<longleftrightarrow> (\<exists>k < 23. \<forall>n < 23. bit e n \<longrightarrow> 12 \<le> (n + k) mod 23)"

lemma fits_places: "fits e \<longleftrightarrow> (\<exists>k < 23. \<forall>n \<in> places e. 12 \<le> (n + k) mod 23)"
  unfolding fits_def places_def by blast

lemma fits_single:
  assumes "card (places e) < 2"
  shows "fits e"
proof (cases "places e = {}")
  case False
  with assms have "card (places e) = 1" by (cases "card (places e)") auto
  then obtain n where n: "places e = {n}" by (auto simp: card_1_singleton_iff)
  then have "n < 23" by (auto simp: places_def)
  from pair_fits [OF this this] show ?thesis unfolding fits_places n by auto
qed (auto simp: fits_places intro: exI [of _ 0])

lemma fits_checks: "k < 23 \<Longrightarrow> in_checks ((rl ^^ k) e) \<Longrightarrow> fits e"
proof -
  assume k: "k < 23" "in_checks ((rl ^^ k) e)"
  have "12 \<le> (n + k) mod 23" if "n \<in> places e" for n
  proof -
    have "(n + k) mod 23 \<in> places ((rl ^^ k) e)" using that unfolding places_rls by blast
    then show ?thesis using k(2) by (simp add: in_checks_def places_def)
  qed
  with k(1) show ?thesis unfolding fits_places by blast
qed

lemma fits_weight:
  assumes "codeword c" "take_bit 23 e = e" "card (places e) \<le> 3" "fits e"
  shows "\<exists>k < 23. weight (syndrome ((rl ^^ k) (c XOR e))) \<le> 3"
proof -
  obtain k where "k < 23" "\<forall>n \<in> places e. 12 \<le> (n + k) mod 23" using assms(4) unfolding fits_places by blast
  then show ?thesis using shifted_weight [OF assms(1,2), of k] assms(3) by auto
qed

lemma later_report:
  assumes "codeword r" "codeword c" "card (places e) \<le> 3" "2 \<le> card (places e)" "t < 23"
    "r = (c XOR e) XOR 2 ^ t \<or> e' = card (places (r XOR ((c XOR e) XOR 2 ^ t))) \<and> e' \<le> 2"
  shows "r = c \<and> e' + 1 = card (places e)"
proof -
  let ?y = "c XOR e"
  have one: "card (places (2 ^ t)) = 1" using assms(5) places_flip [of t 0] by (simp add: places_def)
  have cy: "c XOR ?y = e" by (simp flip: xor.assoc)
  have "card (places (r XOR ?y)) \<le> 3"
  proof -
    have "card (places (r XOR (?y XOR 2 ^ t))) \<le> 2" using assms(6) by (auto simp: places_def)
    then show ?thesis
      using card_places_xor [of "r XOR (?y XOR 2 ^ t)" "2 ^ t"] one by (simp add: xor.assoc)
  qed
  then have rc: "r = c" using near_unique [OF assms(1,2)] cy assms(3) by simp
  have "places (e XOR 2 ^ t) \<noteq> {}" using assms(4,5) by (auto simp: places_flip dest: card_mono [rotated])
  then have "e XOR 2 ^ t \<noteq> 0" by (auto simp: places_def)
  moreover have "r XOR (?y XOR 2 ^ t) = e XOR 2 ^ t" unfolding rc by (simp flip: xor.assoc)
  ultimately have "r \<noteq> ?y XOR 2 ^ t" by auto
  with assms(6) \<open>r XOR (?y XOR 2 ^ t) = e XOR 2 ^ t\<close> have "e' = card (places (e XOR 2 ^ t))" "e' \<le> 2" by auto
  then show ?thesis using rc assms(4,5) by (auto simp: places_flip split: if_splits)
qed

lemma correct_near:
  assumes "codeword c" "take_bit 23 e = e" "card (places e) \<le> 3"
  shows "\<exists>errs. correct (c XOR e) = (c, errs) \<and> card (places e) = errs + of_bool (\<not> fits e)"
proof -
  let ?y = "c XOR e"
  have y: "take_bit 23 ?y = ?y" using codeword_23 [OF assms(1)] assms(2) by simp
  have cy: "c XOR ?y = e" by (simp flip: xor.assoc)
  note unique = near_unique [OF _ assms(1), of _ ?y, unfolded cy, OF _ _ assms(3)]
  obtain e1 hit where try_eq: "try_shifts 3 23 0 0 ?y (syndrome ?y) = (e1, hit)" by fastforce
  consider "e = 0" | r where "e \<noteq> 0" "syndrome ?y \<noteq> 0" "hit = Some r" | "e \<noteq> 0" "syndrome ?y \<noteq> 0" "hit = None"
    | "e \<noteq> 0" "syndrome ?y = 0" by (cases hit) auto
  then show ?thesis
  proof cases
    case 1
    then show ?thesis using assms(1) fits_single [of 0] by (simp add: first_pass codeword_def places_def)
  next
    case 2
    then have h: "codeword r" "card (places (r XOR ?y)) = e1" "e1 \<le> 3" "\<exists>k < 23. in_checks ((rl ^^ k) (r XOR ?y))"
      using hit_sound [OF y, of 3 23 0 0 e1 r] try_eq by auto
    then have "r = c" using unique by simp
    with h(4) obtain k where "k < 23" "in_checks ((rl ^^ k) e)" using cy by auto
    then have "fits e" by (rule fits_checks)
    with h(2) \<open>r = c\<close> show ?thesis using 2 try_eq cy by (simp add: first_pass)
  next
    case 3
    then have "\<not> fits e"
      using fits_weight [OF assms] hit_exists [of 23 ?y 3 0 0] try_eq by auto
    then have two: "2 \<le> card (places e)" using fits_single [of e] by linarith
    obtain t where "t < 23" "hits ?y t" using pass_hits [OF assms 3(1)] by blast
    from later_passes [OF y this, of 0 e1] obtain r e' t' where l: "correct_loop ?y (int 0) (2 ^ (0 - 1)) e1 = (r, e')"
      "t' < 23" "codeword r" "r = ?y XOR 2 ^ t' \<or> e' = card (places (r XOR (?y XOR 2 ^ t'))) \<and> e' \<le> 2" by blast
    then show ?thesis using later_report [OF l(3) assms(1,3) two l(2,4)] \<open>\<not> fits e\<close> 3 try_eq by (simp add: first_pass)
  next
    case 4
    then have "?y = c" using unique [of ?y] y by (simp add: codeword_def places_def)
    then show ?thesis using cy 4(1) by simp
  qed
qed

section \<open>Three bytes on the air\<close>

lemma byte_bits: "bit (b :: byte) n \<Longrightarrow> n < 8"
  using bit_imp_le_length [of b n] by simp

lemma bit_word_of_bytes: "length data = 3 \<Longrightarrow>
    bit (word_of_bytes data) n \<longleftrightarrow> (n < 8 \<and> bit (data ! 0) n) \<or> (8 \<le> n \<and> n < 16 \<and> bit (data ! 1) (n - 8)) \<or>
      (16 \<le> n \<and> n < 24 \<and> bit (data ! 2) (n - 16))"
  unfolding word_of_bytes_def bit_or_iff bit_push_bit_iff bit_unsigned_iff
  using byte_bits [of "data ! 0" n] byte_bits [of "data ! 1" "n - 8"] byte_bits [of "data ! 2" "n - 16"] by auto

lemma word_of_bytes_xor:
  "length xs = 3 \<Longrightarrow> length ys = 3 \<Longrightarrow> word_of_bytes (map2 (XOR) xs ys) = word_of_bytes xs XOR word_of_bytes ys"
  by (rule bit_word_eqI) (auto simp: bit_word_of_bytes bit_xor_iff)

lemma word_of_bytes_of_word: "word_of_bytes (bytes_of_word w) = take_bit 24 w"
proof (rule bit_word_eqI)
  fix n
  have "x AND 0xFF = take_bit 8 x" for x :: "32 word" by (simp add: take_bit_eq_mask mask_eq_exp_minus_1)
  then show "bit (word_of_bytes (bytes_of_word w)) n = bit (take_bit 24 w) n"
    by (cases "16 \<le> n") (auto simp: bit_word_of_bytes bytes_of_word_def bit_unsigned_iff bit_take_bit_iff bit_drop_bit_eq)
qed

definition fold_bits :: "nat \<Rightarrow> byte \<Rightarrow> byte" where
  "fold_bits k p = p XOR drop_bit k p"

lemma fold_bits_xor: "fold_bits k (p XOR q) = fold_bits k p XOR fold_bits k q"
  by (simp add: fold_bits_def drop_bit_xor xor.assoc xor.left_commute)

definition all_bytes :: "32 word \<Rightarrow> byte" where
  "all_bytes x = ucast (x AND 0xFF) XOR ucast (drop_bit 8 x AND 0xFF) XOR ucast (drop_bit 16 x AND 0xFF)"

lemma all_bytes_xor: "all_bytes (x XOR y) = all_bytes x XOR all_bytes y"
proof -
  have "(ucast ((x XOR y) AND 0xFF) :: byte) = ucast (x AND 0xFF) XOR ucast (y AND 0xFF)" for x y :: "32 word"
    by (rule bit_word_eqI) (auto simp: bit_simps)
  then show ?thesis unfolding all_bytes_def drop_bit_xor by (simp only: xor.assoc xor.left_commute xor.commute)
qed

lemma parity_bits: "parity x \<longleftrightarrow> bit (fold_bits 1 (fold_bits 2 (fold_bits 4 (all_bytes x)))) 0"
proof -
  have "p AND 1 \<noteq> 0 \<longleftrightarrow> bit p 0" for p :: byte by (simp add: and_one_eq bit_0 odd_iff_mod_2_eq_one)
  then show ?thesis unfolding parity_def Let_def fold_bits_def all_bytes_def xor.assoc by blast
qed

lemma parity_xor: "parity (x XOR y) \<longleftrightarrow> parity x \<noteq> parity y"
  by (simp add: parity_bits fold_bits_xor all_bytes_xor bit_xor_iff)

lemma parity_top: "parity 0x800000" "\<not> parity 0"
  by code_simp+

lemma golay_data: "take_bit 12 (golay x) = take_bit 12 x"
proof -
  have "take_bit 12 (syndrome z) = 0" for z
    using syndrome_in_checks [of z] unfolding in_checks_def by (intro bit_word_eqI) (auto simp: bit_take_bit_iff)
  then show ?thesis by (simp add: golay_syndrome)
qed

lemma bit_top: "bit (0x800000 :: 32 word) n \<longleftrightarrow> n = 23"
proof -
  have "bit (2 ^ 23 :: 32 word) n \<longleftrightarrow> n = 23" by (auto simp only: bit_exp_iff) simp_all
  then show ?thesis by simp
qed

definition top :: "bool \<Rightarrow> 32 word" where
  "top b = (if b then 0x800000 else 0)"

lemma bit_top_word: "bit (top b) n \<longleftrightarrow> b \<and> n = 23"
  using bit_top [of n] by (simp add: top_def)

lemma parity_top_word: "parity (top b) = b"
  by (simp add: top_def parity_top)

lemma length_encoded: "length (golay_encode data) = 3"
  by (simp add: golay_encode_def bytes_of_word_def Let_def)

lemma encoded_word: "length data = 3 \<Longrightarrow>
    word_of_bytes (golay_encode data) = golay (word_of_bytes data) XOR top (parity (golay (word_of_bytes data)))"
proof -
  let ?g = "golay (word_of_bytes data)"
  have g: "bit ?g n \<Longrightarrow> n < 23" for n using codeword_23 [OF golay_codeword] by (simp add: take_bit_eq)
  have "take_bit 24 (if parity ?g then ?g OR 0x800000 else ?g) = ?g XOR top (parity ?g)"
  proof (rule bit_word_eqI)
    fix n
    show "bit (take_bit 24 (if parity ?g then ?g OR 0x800000 else ?g)) n = bit (?g XOR top (parity ?g)) n"
      unfolding if_distrib [where f = "\<lambda>w. bit w n"] if_distrib [where f = "take_bit 24"] bit_take_bit_iff bit_or_iff bit_xor_iff
        bit_top bit_top_word using g [of n] g [of 23] by auto
  qed
  then show ?thesis unfolding golay_encode_def Let_def by (simp only: word_of_bytes_of_word)
qed

lemma top_parts:
  assumes "take_bit 23 x = x"
  shows "(x XOR top b) AND 0x800000 = top b" "(x XOR top b) AND NOT 0x800000 = x" "x OR top b = x XOR top b"
    "take_bit 12 (x XOR top b) = take_bit 12 x"
proof -
  have x: "bit x n \<Longrightarrow> n < 23" for n using assms by (simp add: take_bit_eq)
  have n: "bit (NOT 0x800000 :: 32 word) n \<longleftrightarrow> n < 32 \<and> n \<noteq> 23" for n
    unfolding bit_not_iff bit_top possible_bit_word by simp
  note bits = bit_and_iff bit_or_iff bit_xor_iff n bit_take_bit_iff bit_top bit_top_word
  have eq: "y = z" if "\<And>n. \<not> bit x 23 \<Longrightarrow> bit y n \<longleftrightarrow> bit z n" for y z :: "32 word"
    using that x [of 23] by (auto intro: bit_word_eqI)
  show "(x XOR top b) AND 0x800000 = top b" by (rule eq) (unfold bits, auto)
  show "(x XOR top b) AND NOT 0x800000 = x" by (rule eq) (unfold bits, auto dest: x)
  show "x OR top b = x XOR top b" by (rule eq) (unfold bits, auto)
  show "take_bit 12 (x XOR top b) = take_bit 12 x" by (rule eq) (unfold bits, auto)
qed

lemma decode_word:
  assumes "word_of_bytes data = cw XOR top b" "take_bit 23 cw = cw" "correct cw = (c, errs)" "codeword c"
  shows "golay_decode data = (take_bit 12 c, errs + of_bool (parity c \<noteq> b))"
  unfolding golay_decode_def Let_def assms(1) top_parts(1,2) [OF assms(2)] assms(3) prod.case
    top_parts(3) [OF codeword_23 [OF assms(4)]] low_bits top_parts(4) [OF codeword_23 [OF assms(4)]] parity_xor parity_top_word
  by simp

text \<open>
  C18. Twelve bits of data that went over the air as the three bytes of \<^verbatim>\<open>golay_encode\<close> are decoded from what arrives whenever at most three of the
  23 bits of the code word are wrong (and, on top of these, possibly the parity bit). \<open>wrong\<close> are the bits flipped. The number of errors
  reported is the number of wrong bits, unless the wrong bits of the code word do not lie within eleven cyclically consecutive places: then a trial
  bit had to be flipped, which is not counted.
\<close>

theorem golay_corrects:
  assumes "length data = 3" "length wrong = 3" "card {n \<in> {..<23}. bit (word_of_bytes wrong) n} \<le> 3"
  shows "golay_decode (map2 (XOR) (golay_encode data) wrong) =
    (word_of_bytes data AND 0xFFF, card {n. bit (word_of_bytes wrong) n} - of_bool (\<not> fits (word_of_bytes wrong)))"
proof -
  let ?g = "golay (word_of_bytes data)" and ?w = "word_of_bytes wrong"
  let ?e = "take_bit 23 ?w" and ?b = "parity ?g \<noteq> bit ?w 23"
  have range: "bit ?w n \<Longrightarrow> n < 23 \<or> n = 23" for n using assms(2) by (auto simp: bit_word_of_bytes)
  have w: "?w = ?e XOR top (bit ?w 23)"
    by (rule bit_word_eqI) (unfold bit_xor_iff bit_take_bit_iff bit_top_word, use range in blast)
  have places: "places ?e = {n \<in> {..<23}. bit ?w n}" and f: "fits ?e = fits ?w" by (auto simp: places_def fits_def bit_take_bit_iff)
  have "{n. bit ?w n} = places ?e \<union> {n. n = 23 \<and> bit ?w 23}" unfolding places using range by auto
  then have total: "card {n. bit ?w n} = card (places ?e) + of_bool (bit ?w 23)"
    by (simp add: card_Un_disjoint places Collect_conv_if)
  obtain errs where c: "correct (?g XOR ?e) = (?g, errs)" "card (places ?e) = errs + of_bool (\<not> fits ?e)"
    using correct_near [OF golay_codeword, of ?e] assms(3) by (auto simp: places)
  have "word_of_bytes (map2 (XOR) (golay_encode data) wrong) = (?g XOR top (parity ?g)) XOR ?w"
    using assms(1,2) by (simp add: word_of_bytes_xor encoded_word length_encoded)
  also have "\<dots> = (?g XOR ?e) XOR top ?b"
    by (subst w, rule bit_word_eqI) (unfold bit_xor_iff bit_top_word, blast)
  finally have "golay_decode (map2 (XOR) (golay_encode data) wrong) = (take_bit 12 ?g, errs + of_bool (parity ?g \<noteq> ?b))"
    by (rule decode_word) (use c golay_codeword in \<open>simp_all add: codeword_23\<close>)
  then show ?thesis using c(2) f by (auto simp: golay_data low_bits total)
qed

lemma bits_table: "length data = 3 \<Longrightarrow> list_all (\<lambda>n. bit (word_of_bytes data) n = (n \<in> set ns)) [0..<24] \<Longrightarrow> set ns \<subseteq> {..<24} \<Longrightarrow>
    bit (word_of_bytes data) n \<longleftrightarrow> n \<in> set ns"
  using bit_word_of_bytes [of data n] unfolding list_all_iff by (cases "n < 24") auto

text \<open>Three wrong bits 0, 8 and 16: no eleven consecutive places hold them, and two errors are reported.\<close>

theorem golay_corrects_witness:
  "golay_decode (map2 (XOR) (golay_encode [0x5A, 3, 0]) [1, 1, 1]) = (0x35A, 2)"
proof -
  have "list_all (\<lambda>n. bit (word_of_bytes [1, 1, 1]) n = (n \<in> set [0, 8, 16])) [0..<24]" by code_simp
  then have b: "bit (word_of_bytes [1, 1, 1]) n \<longleftrightarrow> n \<in> {0, 8, 16}" for n using bits_table [of "[1, 1, 1]" "[0, 8, 16]" n] by simp
  have "\<exists>n < 23. n \<in> {0, 8, 16} \<and> \<not> 12 \<le> (n + k) mod 23" if "k < 23" for k :: nat
  proof -
    consider "k < 12" | "12 \<le> k" "k < 15" | "15 \<le> k" by linarith
    then show ?thesis
    proof cases
      case 1
      then show ?thesis by (intro exI [of _ 0]) simp
    next
      case 2
      then have "(16 + k) mod 23 = k - 7" by (simp add: mod_if)
      with 2 show ?thesis by (intro exI [of _ 16]) simp
    next
      case 3
      then have "(8 + k) mod 23 = k - 15" using that by (simp add: mod_if)
      with that show ?thesis by (intro exI [of _ 8]) simp
    qed
  qed
  then have "\<not> fits (word_of_bytes [1, 1, 1])" unfolding fits_def b by meson
  moreover have "{n \<in> {..<23}. n \<in> {0, 8, 16}} = {0, 8, 16 :: nat}" "{n. n \<in> {0, 8, 16}} = {0, 8, 16 :: nat}" by auto
  moreover have "word_of_bytes [0x5A, 3, 0] AND 0xFFF = 0x35A" by code_simp
  ultimately show ?thesis using golay_corrects [of "[0x5A, 3, 0]" "[1, 1, 1]"] unfolding b by simp
qed

end
