(* ===== verification/Serval_Reed_Solomon.thy ===== *)
theory Serval_Reed_Solomon
  imports Prelude
begin

unbundle bit_operations_syntax

text \<open>
  The Reed-Solomon code (255, 223) that protects the packets of the radio link: the part of the library \<^verbatim>\<open>fec\<close> under
  \<^verbatim>\<open>servald/serval-dna-development/fec-3.0.1\<close> that the daemon uses. A symbol (\<^verbatim>\<open>data_t\<close>) is a byte, or a number below 256 when it is a
  logarithm; 255 (\<^verbatim>\<open>A0\<close>) is the logarithm of 0. The decoder is the one without erasures (\<^verbatim>\<open>no_eras\<close> 0, \<^verbatim>\<open>eras_pos\<close> null), as the link calls it.
\<close>

section \<open>Tables\<close>

definition CCSDS_alpha_to :: "byte list" where
  "CCSDS_alpha_to =
    [0x01, 0x02, 0x04, 0x08, 0x10, 0x20, 0x40, 0x80, 0x87, 0x89, 0x95, 0xad, 0xdd, 0x3d, 0x7a, 0xf4,
     0x6f, 0xde, 0x3b, 0x76, 0xec, 0x5f, 0xbe, 0xfb, 0x71, 0xe2, 0x43, 0x86, 0x8b, 0x91, 0xa5, 0xcd,
     0x1d, 0x3a, 0x74, 0xe8, 0x57, 0xae, 0xdb, 0x31, 0x62, 0xc4, 0x0f, 0x1e, 0x3c, 0x78, 0xf0, 0x67,
     0xce, 0x1b, 0x36, 0x6c, 0xd8, 0x37, 0x6e, 0xdc, 0x3f, 0x7e, 0xfc, 0x7f, 0xfe, 0x7b, 0xf6, 0x6b,
     0xd6, 0x2b, 0x56, 0xac, 0xdf, 0x39, 0x72, 0xe4, 0x4f, 0x9e, 0xbb, 0xf1, 0x65, 0xca, 0x13, 0x26,
     0x4c, 0x98, 0xb7, 0xe9, 0x55, 0xaa, 0xd3, 0x21, 0x42, 0x84, 0x8f, 0x99, 0xb5, 0xed, 0x5d, 0xba,
     0xf3, 0x61, 0xc2, 0x03, 0x06, 0x0c, 0x18, 0x30, 0x60, 0xc0, 0x07, 0x0e, 0x1c, 0x38, 0x70, 0xe0,
     0x47, 0x8e, 0x9b, 0xb1, 0xe5, 0x4d, 0x9a, 0xb3, 0xe1, 0x45, 0x8a, 0x93, 0xa1, 0xc5, 0x0d, 0x1a,
     0x34, 0x68, 0xd0, 0x27, 0x4e, 0x9c, 0xbf, 0xf9, 0x75, 0xea, 0x53, 0xa6, 0xcb, 0x11, 0x22, 0x44,
     0x88, 0x97, 0xa9, 0xd5, 0x2d, 0x5a, 0xb4, 0xef, 0x59, 0xb2, 0xe3, 0x41, 0x82, 0x83, 0x81, 0x85,
     0x8d, 0x9d, 0xbd, 0xfd, 0x7d, 0xfa, 0x73, 0xe6, 0x4b, 0x96, 0xab, 0xd1, 0x25, 0x4a, 0x94, 0xaf,
     0xd9, 0x35, 0x6a, 0xd4, 0x2f, 0x5e, 0xbc, 0xff, 0x79, 0xf2, 0x63, 0xc6, 0x0b, 0x16, 0x2c, 0x58,
     0xb0, 0xe7, 0x49, 0x92, 0xa3, 0xc1, 0x05, 0x0a, 0x14, 0x28, 0x50, 0xa0, 0xc7, 0x09, 0x12, 0x24,
     0x48, 0x90, 0xa7, 0xc9, 0x15, 0x2a, 0x54, 0xa8, 0xd7, 0x29, 0x52, 0xa4, 0xcf, 0x19, 0x32, 0x64,
     0xc8, 0x17, 0x2e, 0x5c, 0xb8, 0xf7, 0x69, 0xd2, 0x23, 0x46, 0x8c, 0x9f, 0xb9, 0xf5, 0x6d, 0xda,
     0x33, 0x66, 0xcc, 0x1f, 0x3e, 0x7c, 0xf8, 0x77, 0xee, 0x5b, 0xb6, 0xeb, 0x51, 0xa2, 0xc3, 0x00]"

definition CCSDS_index_of :: "nat list" where
  "CCSDS_index_of =
    [255, 0, 1, 99, 2, 198, 100, 106, 3, 205, 199, 188, 101, 126, 107, 42,
     4, 141, 206, 78, 200, 212, 189, 225, 102, 221, 127, 49, 108, 32, 43, 243,
     5, 87, 142, 232, 207, 172, 79, 131, 201, 217, 213, 65, 190, 148, 226, 180,
     103, 39, 222, 240, 128, 177, 50, 53, 109, 69, 33, 18, 44, 13, 244, 56,
     6, 155, 88, 26, 143, 121, 233, 112, 208, 194, 173, 168, 80, 117, 132, 72,
     202, 252, 218, 138, 214, 84, 66, 36, 191, 152, 149, 249, 227, 94, 181, 21,
     104, 97, 40, 186, 223, 76, 241, 47, 129, 230, 178, 63, 51, 238, 54, 16,
     110, 24, 70, 166, 34, 136, 19, 247, 45, 184, 14, 61, 245, 164, 57, 59,
     7, 158, 156, 157, 89, 159, 27, 8, 144, 9, 122, 28, 234, 160, 113, 90,
     209, 29, 195, 123, 174, 10, 169, 145, 81, 91, 118, 114, 133, 161, 73, 235,
     203, 124, 253, 196, 219, 30, 139, 210, 215, 146, 85, 170, 67, 11, 37, 175,
     192, 115, 153, 119, 150, 92, 250, 82, 228, 236, 95, 74, 182, 162, 22, 134,
     105, 197, 98, 254, 41, 125, 187, 204, 224, 211, 77, 140, 242, 31, 48, 220,
     130, 171, 231, 86, 179, 147, 64, 216, 52, 176, 239, 38, 55, 12, 17, 68,
     111, 120, 25, 154, 71, 116, 167, 193, 35, 83, 137, 251, 20, 93, 248, 151,
     46, 75, 185, 96, 15, 237, 62, 229, 246, 135, 165, 23, 58, 163, 60, 183]"

definition CCSDS_poly :: "nat list" where
  "CCSDS_poly =
    [0, 249, 59, 66, 4, 43, 126, 251, 97, 30, 3, 213, 50, 66, 170, 5,
     24, 5, 170, 66, 50, 213, 3, 30, 97, 251, 126, 43, 4, 66, 59, 249,
     0]"

definition NN :: nat where "NN = 255"
definition NROOTS :: nat where "NROOTS = 32"
definition FCR :: nat where "FCR = 112"
definition PRIM :: nat where "PRIM = 11"
definition IPRIM :: nat where "IPRIM = 116"
definition A0 :: nat where "A0 = 255"

fun mod255 :: "nat \<Rightarrow> nat" where
  "mod255 x = (if x \<ge> 255 then let x = x - 255 in mod255 (x div 256 + x mod 256) else x)"

declare mod255.simps [simp del]

definition ALPHA_TO :: "nat \<Rightarrow> byte" where
  "ALPHA_TO i = CCSDS_alpha_to ! i"

definition INDEX_OF :: "byte \<Rightarrow> nat" where
  "INDEX_OF b = CCSDS_index_of ! unat b"

section \<open>Encoding\<close>

definition encode_symbol :: "byte \<Rightarrow> byte list \<Rightarrow> byte list" where
  "encode_symbol d parity =
     (let feedback = INDEX_OF (d XOR parity ! 0);
          parity = map (\<lambda>j. if feedback \<noteq> A0 \<and> j \<ge> 1 then parity ! j XOR ALPHA_TO (mod255 (feedback + CCSDS_poly ! (NROOTS - j)))
                             else parity ! j) [0..<NROOTS]
      in tl parity @ [if feedback \<noteq> A0 then ALPHA_TO (mod255 (feedback + CCSDS_poly ! 0)) else 0])"

text \<open>The parity of the data, \<open>NN - NROOTS - pad\<close> symbols.\<close>

definition encode_rs_8 :: "byte list \<Rightarrow> byte list" where
  "encode_rs_8 data = fold encode_symbol data (replicate NROOTS 0)"

section \<open>Decoding\<close>

definition syndrome_symbol :: "byte \<Rightarrow> byte list \<Rightarrow> byte list" where
  "syndrome_symbol d s =
     map (\<lambda>i. if s ! i = 0 then d else d XOR ALPHA_TO (mod255 (INDEX_OF (s ! i) + (FCR + i) * PRIM))) [0..<NROOTS]"

definition syndromes :: "byte list \<Rightarrow> byte list" where
  "syndromes data = fold syndrome_symbol (tl data) (replicate NROOTS (hd data))"

text \<open>The step \<open>r\<close> of the Berlekamp-Massey algorithm, on \<^verbatim>\<open>lambda\<close>, \<^verbatim>\<open>b\<close> and \<^verbatim>\<open>el\<close>.\<close>

definition discrepancy :: "nat list \<Rightarrow> byte list \<Rightarrow> nat \<Rightarrow> byte" where
  "discrepancy s lam r =
     fold (\<lambda>i d. if lam ! i \<noteq> 0 \<and> s ! (r - i - 1) \<noteq> A0 then d XOR ALPHA_TO (mod255 (INDEX_OF (lam ! i) + s ! (r - i - 1))) else d) [0..<r] 0"

definition massey_step :: "nat list \<Rightarrow> nat \<Rightarrow> byte list \<times> nat list \<times> nat \<Rightarrow> byte list \<times> nat list \<times> nat" where
  "massey_step s r st =
     (case st of (lam, b, el) \<Rightarrow>
        let discr_r = INDEX_OF (discrepancy s lam r) in
        if discr_r = A0 then (lam, A0 # butlast b, el)
        else
          let t = lam ! 0 # map (\<lambda>i. if b ! i \<noteq> A0 then lam ! (i + 1) XOR ALPHA_TO (mod255 (discr_r + b ! i)) else lam ! (i + 1)) [0..<NROOTS]
          in if 2 * el \<le> r - 1
             then (t, map (\<lambda>i. if lam ! i = 0 then A0 else mod255 (INDEX_OF (lam ! i) + NN - discr_r)) [0..<NROOTS + 1], r - el)
             else (t, A0 # butlast b, el))"

definition locator :: "nat list \<Rightarrow> byte list" where
  "locator s =
     (let lam = 1 # replicate NROOTS 0
      in fst (fold (massey_step s) [1..<NROOTS + 1] (lam, map INDEX_OF lam, 0)))"

text \<open>The last index that is not \<^verbatim>\<open>A0\<close>.\<close>

definition degree :: "nat list \<Rightarrow> nat" where
  "degree lam = fold (\<lambda>i deg. if lam ! i \<noteq> A0 then i else deg) [0..<NROOTS + 1] 0"

text \<open>Chien search: the candidates \<open>i\<close>, \<dots>, 255 (\<open>n\<close> of them left) with their places \<open>k\<close>. The result is the roots with their places, in the order found.\<close>

definition chien_symbol :: "nat \<Rightarrow> nat list \<Rightarrow> byte \<times> nat list" where
  "chien_symbol deg reg =
     fold (\<lambda>j (q, reg). if reg ! j \<noteq> A0 then let e = mod255 (reg ! j + j) in (q XOR ALPHA_TO e, reg[j := e]) else (q, reg))
       (rev [1..<deg + 1]) (1, reg)"

fun chien :: "nat \<Rightarrow> nat \<Rightarrow> nat \<Rightarrow> nat \<Rightarrow> nat list \<Rightarrow> (nat \<times> nat) list \<Rightarrow> (nat \<times> nat) list" where
  "chien deg 0 i k reg found = found"
| "chien deg (Suc n) i k reg found =
     (let (q, reg) = chien_symbol deg reg;
          found = (if q = 0 then found @ [(i, k)] else found)
      in if q = 0 \<and> length found = deg then found
         else chien deg n (i + 1) (mod255 (k + IPRIM)) reg found)"

definition omega_at :: "nat list \<Rightarrow> nat list \<Rightarrow> nat \<Rightarrow> nat" where
  "omega_at s lam i =
     INDEX_OF (fold (\<lambda>j tmp. if s ! (i - j) \<noteq> A0 \<and> lam ! j \<noteq> A0 then tmp XOR ALPHA_TO (mod255 (s ! (i - j) + lam ! j)) else tmp)
       (rev [0..<i + 1]) 0)"

text \<open>The error at one place is applied to the data; parity symbols are not corrected.\<close>

definition forney :: "nat \<Rightarrow> nat list \<Rightarrow> nat list \<Rightarrow> nat \<Rightarrow> nat \<times> nat \<Rightarrow> byte list \<Rightarrow> byte list" where
  "forney pad lam omega deg rl data =
     (case rl of (root, loc) \<Rightarrow>
        let num1 = fold (\<lambda>i n. if omega ! i \<noteq> A0 then n XOR ALPHA_TO (mod255 (omega ! i + i * root)) else n) (rev [0..<deg]) 0;
            num2 = ALPHA_TO (mod255 (root * (FCR - 1) + NN));
            top = min deg (NROOTS - 1) div 2 * 2;
            den = fold (\<lambda>i d. if even i \<and> lam ! (i + 1) \<noteq> A0 then d XOR ALPHA_TO (mod255 (lam ! (i + 1) + i * root)) else d) (rev [0..<top + 1]) 0
        in if num1 \<noteq> 0 \<and> loc \<ge> pad \<and> loc < NN - NROOTS
           then data[loc - pad := data ! (loc - pad) XOR ALPHA_TO (mod255 (INDEX_OF num1 + INDEX_OF num2 + NN - INDEX_OF den))]
           else data)"

text \<open>\<open>data\<close> is the block of \<open>NN - pad\<close> symbols. The count returned and the data; \<open>None\<close> is the result -1, with the data as they were.\<close>

definition decode_rs_8 :: "byte list \<Rightarrow> nat \<Rightarrow> (nat \<times> byte list) option" where
  "decode_rs_8 data pad =
     (if pad > 222 then None
      else
        let s = syndromes data in
        if \<forall>x \<in> set s. x = 0 then Some (0, data)
        else
          let s = map INDEX_OF s;
              lam = map INDEX_OF (locator s);
              deg = degree lam;
              found = chien deg NN 1 (IPRIM - 1) lam []
          in if length found \<noteq> deg then None
             else let omega = map (omega_at s lam) [0..<deg]
                  in Some (deg, fold (forney pad lam omega deg) (rev found) data))"

end
