(* ===== verification/Serval_Blocks.thy ===== *)
theory Serval_Blocks
  imports Serval_Reed_Solomon
begin

unbundle bit_operations_syntax

text \<open>
  An encoded block is decoded without change. Multiplication by a power of the primitive element is an iterated shift, which is
  linear; the encoder keeps the remainder of a division by the generator polynomial, and the decoder evaluates the block at its roots.
\<close>

section \<open>The field\<close>

definition times_alpha :: "byte \<Rightarrow> byte" where
  "times_alpha b = push_bit 1 b XOR (if bit b 7 then 0x87 else 0)"

lemma alpha_table: "map times_alpha (take 255 CCSDS_alpha_to) = rotate1 (take 255 CCSDS_alpha_to)"
  by code_simp

lemma index_table: "map (\<lambda>i. CCSDS_alpha_to ! i) (tl CCSDS_index_of) = map word_of_nat [1..<256]"
  by code_simp

lemma index_bound: "list_all (\<lambda>i. i < 255) (tl CCSDS_index_of)"
  by code_simp

lemma symbol_table_lengths: "length CCSDS_alpha_to = 256" "length CCSDS_index_of = 256" "length CCSDS_poly = 33"
  by (simp_all add: CCSDS_alpha_to_def CCSDS_index_of_def CCSDS_poly_def)

lemma index_of_0 [simp]: "INDEX_OF 0 = A0"
  by (simp add: INDEX_OF_def CCSDS_index_of_def A0_def)

lemma index_alpha:
  assumes "b \<noteq> 0"
  shows "INDEX_OF b < 255" "ALPHA_TO (INDEX_OF b) = b"
proof -
  obtain k where k: "unat b = Suc k" using assms by (cases "unat b") (auto simp: unsigned_eq_0_iff)
  have "unat b < 256" using unsigned_less [of b, where ?'a = nat] by simp
  then have k255: "k < 255" using k by simp
  have i: "INDEX_OF b = tl CCSDS_index_of ! k" using k255 by (simp add: INDEX_OF_def k nth_tl symbol_table_lengths)
  have "tl CCSDS_index_of ! k \<in> set (tl CCSDS_index_of)" by (rule nth_mem) (simp add: symbol_table_lengths k255)
  then show "INDEX_OF b < 255" using index_bound unfolding i list_all_iff by blast
  have "map (\<lambda>i. CCSDS_alpha_to ! i) (tl CCSDS_index_of) ! k = map word_of_nat [1..<256] ! k" by (simp only: index_table)
  then have "CCSDS_alpha_to ! (tl CCSDS_index_of ! k) = word_of_nat (Suc k)" using k255 by (simp add: symbol_table_lengths del: upt_Suc)
  then show "ALPHA_TO (INDEX_OF b) = b" unfolding ALPHA_TO_def i by (simp flip: k)
qed

lemma alpha_index:
  assumes "i < 255"
  shows "ALPHA_TO i \<noteq> 0" "INDEX_OF (ALPHA_TO i) = i"
proof -
  have "inj_on INDEX_OF (- {0})" by (rule inj_on_inverseI [of _ ALPHA_TO]) (simp add: index_alpha)
  moreover have "INDEX_OF ` (- {0}) \<subseteq> {..<255}" using index_alpha(1) by auto
  moreover have "card (- {0} :: byte set) = 255" by (simp add: Compl_eq_Diff_UNIV card_Diff_singleton card_word)
  ultimately have "INDEX_OF ` (- {0 :: byte}) = {..<255}" by (intro card_subset_eq) (simp_all add: card_image)
  moreover have "i \<in> {..<255}" using assms by simp
  ultimately obtain b where "b \<noteq> 0" "INDEX_OF b = i" by (metis ComplD imageE singletonI)
  then show "ALPHA_TO i \<noteq> 0" "INDEX_OF (ALPHA_TO i) = i" using index_alpha(2) by auto
qed

lemma alpha_step: "i < 255 \<Longrightarrow> times_alpha (ALPHA_TO i) = ALPHA_TO (Suc i mod 255)"
proof -
  assume i: "i < 255"
  have "map times_alpha (take 255 CCSDS_alpha_to) ! i = rotate1 (take 255 CCSDS_alpha_to) ! i" by (simp only: alpha_table)
  then show ?thesis using i by (simp add: ALPHA_TO_def nth_rotate1 symbol_table_lengths)
qed

lemma mod255_mod: "mod255 x = x mod 255"
proof (induction x rule: mod255.induct)
  case (1 x)
  show ?case
  proof (cases "x \<ge> 255")
    case True
    have "(y div 256 + y mod 256) mod 255 = y mod 255" for y :: nat
    proof -
      have "y = (y div 256 + y mod 256) + 255 * (y div 256)" by simp
      then show ?thesis by (metis mod_mult_self2)
    qed
    then show ?thesis using 1 True by (subst mod255.simps) (simp add: Let_def le_mod_geq)
  qed (subst mod255.simps, simp)
qed

lemma times_alpha_xor: "times_alpha (a XOR b) = times_alpha a XOR times_alpha b"
  by (auto simp: times_alpha_def bit_xor_iff push_bit_xor xor.assoc xor.left_commute xor.commute)

lemma alpha_power: "i < 255 \<Longrightarrow> (times_alpha ^^ k) (ALPHA_TO i) = ALPHA_TO ((i + k) mod 255)"
  by (induction k) (simp_all add: alpha_step mod_Suc_eq)

text \<open>What the code computes with the tables is a shift by the power of the element.\<close>

definition mult :: "byte \<Rightarrow> nat \<Rightarrow> byte" where
  "mult b k = (times_alpha ^^ k) b"

lemma mult_table: "b \<noteq> 0 \<Longrightarrow> ALPHA_TO (mod255 (INDEX_OF b + k)) = mult b k"
  using alpha_power [of "INDEX_OF b" k] index_alpha [of b] by (simp add: mod255_mod mult_def)

lemma mult_simps [simp]: "mult 0 k = 0" "mult b 0 = b" "mult (a XOR b) k = mult a k XOR mult b k" "mult (mult b j) k = mult b (j + k)"
proof -
  have "times_alpha 0 = 0" by (simp add: times_alpha_def)
  then show "mult 0 k = 0" by (induction k) (simp_all add: mult_def)
  show "mult b 0 = b" by (simp add: mult_def)
  show "mult (a XOR b) k = mult a k XOR mult b k" by (induction k) (simp_all add: mult_def times_alpha_xor)
  show "mult (mult b j) k = mult b (j + k)" by (simp add: mult_def add.commute [of j] funpow_add)
qed

section \<open>The generator polynomial\<close>

lemma alpha_list: "map ALPHA_TO (0 # Suc 0 # [2..<255]) = take 255 CCSDS_alpha_to"
proof -
  have "map ALPHA_TO [0..<255] = take 255 CCSDS_alpha_to"
    by (rule nth_equalityI) (simp_all add: ALPHA_TO_def symbol_table_lengths del: upt_Suc)
  then show ?thesis by (simp add: upt_conv_Cons numeral_2_eq_2 del: upt_Suc)
qed

lemmas alpha_values = alpha_list [unfolded CCSDS_alpha_to_def, simplified]

fun poly_sum :: "nat \<Rightarrow> nat list \<Rightarrow> nat \<Rightarrow> byte" where
  "poly_sum rho [] e = 0"
| "poly_sum rho (g # gs) e = ALPHA_TO ((g + e) mod 255) XOR poly_sum rho gs ((e + rho) mod 255)"

definition is_root :: "nat \<Rightarrow> bool" where
  "is_root rho \<longleftrightarrow> poly_sum rho CCSDS_poly 0 = 0"

lemma roots_table: "list_all is_root (map (\<lambda>i. (FCR + i) * PRIM mod 255) [0..<NROOTS])"
proof -
  have "map (\<lambda>i. (FCR + i) * PRIM mod 255) [0..<NROOTS] =
      [212, 223, 234, 245, 1, 12, 23, 34, 45, 56, 67, 78, 89, 100, 111, 122, 133, 144, 155, 166, 177, 188, 199, 210, 221, 232, 243, 254,
       10, 21, 32, 43]"
    by (simp add: FCR_def PRIM_def NROOTS_def upt_conv_Cons)
  then show ?thesis by (simp add: is_root_def CCSDS_poly_def alpha_values)
qed

text \<open>A block as a polynomial, the first symbol its highest coefficient, at a power of the primitive element.\<close>

definition evaluate :: "nat \<Rightarrow> byte list \<Rightarrow> byte" where
  "evaluate rho xs = fold (\<lambda>d s. d XOR mult s rho) xs 0"

lemma evaluate_fold: "fold (\<lambda>d s. d XOR mult s rho) xs s = mult s (rho * length xs) XOR evaluate rho xs"
proof (induction xs arbitrary: s)
  case (Cons x xs)
  show ?case unfolding evaluate_def by (simp add: Cons xor.assoc xor.left_commute xor.commute)
qed (simp add: evaluate_def)

lemma evaluate_simps [simp]:
  "evaluate rho [] = 0"
  "evaluate rho (x # xs) = mult x (rho * length xs) XOR evaluate rho xs"
  "evaluate rho (xs @ ys) = mult (evaluate rho xs) (rho * length ys) XOR evaluate rho ys"
proof -
  show "evaluate rho [] = 0" by (simp add: evaluate_def)
  show "evaluate rho (x # xs) = mult x (rho * length xs) XOR evaluate rho xs"
    using evaluate_fold [of rho xs x] by (simp add: evaluate_def)
  show "evaluate rho (xs @ ys) = mult (evaluate rho xs) (rho * length ys) XOR evaluate rho ys"
    using evaluate_fold [of rho ys "evaluate rho xs"] by (simp add: evaluate_def)
qed

lemma evaluate_xor: "length xs = length ys \<Longrightarrow> evaluate rho (map2 (XOR) xs ys) = evaluate rho xs XOR evaluate rho ys"
  by (induction xs ys rule: list_induct2) (simp_all add: xor.assoc xor.left_commute)

fun mult_sum :: "byte \<Rightarrow> nat \<Rightarrow> nat list \<Rightarrow> nat \<Rightarrow> byte" where
  "mult_sum f rho [] e = 0"
| "mult_sum f rho (g # gs) e = mult f (g + e) XOR mult_sum f rho gs (e + rho)"

lemma alpha_mult: "ALPHA_TO (k mod 255) = mult 1 k"
  using alpha_power [of 0 k] by (simp add: mult_def alpha_values)

lemma poly_mult_sum: "poly_sum (rho mod 255) gs (e mod 255) = mult_sum 1 rho gs e"
proof (induction gs arbitrary: e)
  case (Cons g gs)
  have "poly_sum (rho mod 255) gs ((e mod 255 + rho mod 255) mod 255) = mult_sum 1 rho gs (e + rho)"
    using Cons [of "e + rho"] by (simp only: mod_add_eq)
  then show ?case by (simp add: alpha_mult mod_add_right_eq)
qed simp

lemma mult_sum_shift: "mult_sum f rho gs (e + k) = mult (mult_sum f rho gs e) k"
proof (induction gs arbitrary: e)
  case (Cons g gs)
  have "e + k + rho = (e + rho) + k" by simp
  then show ?case using Cons [of "e + rho"] by (simp add: ac_simps)
qed simp

lemma mult_sum_unit: "mult_sum (mult 1 i) rho gs e = mult (mult_sum 1 rho gs e) i"
proof -
  have "mult_sum (mult 1 i) rho gs e = mult_sum 1 rho gs (e + i)" by (induction gs arbitrary: e) (simp_all add: ac_simps)
  then show ?thesis by (simp add: mult_sum_shift)
qed

lemma evaluate_mult_sum: "evaluate rho (map (mult f) (rev gs)) = mult_sum f rho gs 0"
proof (induction gs)
  case (Cons g gs)
  then show ?case using mult_sum_shift [of f rho gs 0 rho] by (simp add: xor.commute)
qed simp

lemma generator_roots:
  assumes "i < NROOTS"
  shows "mult_sum f ((FCR + i) * PRIM) CCSDS_poly 0 = 0"
proof (cases "f = 0")
  case True
  have "mult_sum 0 rho gs e = 0" for rho gs e by (induction gs arbitrary: e) simp_all
  with True show ?thesis by simp
next
  case False
  have f: "mult 1 (INDEX_OF f) = f" using alpha_mult [of "INDEX_OF f"] index_alpha [OF False] by simp
  have "is_root ((FCR + i) * PRIM mod 255)" using roots_table assms by (simp add: list_all_iff)
  then have "mult_sum 1 ((FCR + i) * PRIM) CCSDS_poly 0 = 0"
    using poly_mult_sum [of "(FCR + i) * PRIM" CCSDS_poly 0] by (simp add: is_root_def)
  then show ?thesis using mult_sum_unit [of "INDEX_OF f" "(FCR + i) * PRIM" CCSDS_poly 0] f by simp
qed

section \<open>Encoded blocks\<close>

lemma encode_symbol_division:
  assumes "length parity = NROOTS"
  shows "encode_symbol d parity =
    map2 (XOR) (tl parity @ [0]) (map (mult (d XOR parity ! 0)) (rev (butlast CCSDS_poly)))"
proof (rule nth_equalityI)
  show "length (encode_symbol d parity) =
      length (map2 (XOR) (tl parity @ [0]) (map (mult (d XOR parity ! 0)) (rev (butlast CCSDS_poly))))"
    using assms by (simp add: encode_symbol_def Let_def NROOTS_def symbol_table_lengths)
next
  fix j
  let ?f = "d XOR parity ! 0"
  assume "j < length (encode_symbol d parity)"
  then have j: "j < 32" by (simp add: encode_symbol_def Let_def NROOTS_def)
  have p: "rev (butlast CCSDS_poly) ! j = CCSDS_poly ! (31 - j)" using j by (simp add: rev_nth nth_butlast symbol_table_lengths)
  have m: "(if INDEX_OF ?f \<noteq> A0 then ALPHA_TO (mod255 (INDEX_OF ?f + k)) else 0) = mult ?f k" for k
    using index_alpha(1) [of ?f] mult_table [of ?f k] by (cases "?f = 0") (auto simp: A0_def)
  show "encode_symbol d parity ! j = map2 (XOR) (tl parity @ [0]) (map (mult ?f) (rev (butlast CCSDS_poly))) ! j"
  proof (cases "j = 31")
    case True
    then show ?thesis using assms p m [of "CCSDS_poly ! 0"] unfolding encode_symbol_def Let_def NROOTS_def
      by (simp add: nth_append symbol_table_lengths del: upt_Suc)
  next
    case False
    with j have "j < 31" by simp
    then show ?thesis using assms p m [of "CCSDS_poly ! (31 - j)"] unfolding encode_symbol_def Let_def NROOTS_def
      by (auto simp: nth_append symbol_table_lengths nth_tl simp del: upt_Suc)
  qed
qed

lemma xor_move: "a XOR b = c \<Longrightarrow> b = a XOR (c :: byte)"
proof -
  assume "a XOR b = c"
  then have "a XOR (a XOR b) = a XOR c" by (rule arg_cong)
  then show ?thesis by (simp flip: xor.assoc)
qed

lemma parity_remainder:
  assumes "i < NROOTS"
  shows "length (encode_rs_8 data) = NROOTS \<and>
    evaluate ((FCR + i) * PRIM) (encode_rs_8 data) = mult (evaluate ((FCR + i) * PRIM) data) ((FCR + i) * PRIM * NROOTS)"
proof (induction data rule: rev_induct)
  case Nil
  have "evaluate rho (replicate n 0) = 0" for rho n by (induction n) simp_all
  then show ?case by (simp add: encode_rs_8_def)
next
  case (snoc d data)
  let ?rho = "(FCR + i) * PRIM" and ?par = "encode_rs_8 data"
  let ?f = "d XOR ?par ! 0" and ?g = "rev (butlast CCSDS_poly)"
  obtain p ps where par: "?par = p # ps" using snoc by (cases ?par) (auto simp: NROOTS_def)
  have lens: "length ps = 31" "length ?g = 32" using snoc par by (simp_all add: NROOTS_def symbol_table_lengths)
  have "rev CCSDS_poly = 0 # ?g" by (simp add: CCSDS_poly_def)
  then have "mult ?f (?rho * 32) XOR evaluate ?rho (map (mult ?f) ?g) = 0"
    using evaluate_mult_sum [of ?rho ?f CCSDS_poly] generator_roots [OF assms, of ?f] lens(2) by (simp only: list.map evaluate_simps) simp
  then have g: "evaluate ?rho (map (mult ?f) ?g) = mult ?f (?rho * 32)" using xor_move by fastforce
  have e: "encode_rs_8 (data @ [d]) = map2 (XOR) (tl ?par @ [0]) (map (mult ?f) ?g)"
    using encode_symbol_division [of ?par d] snoc by (simp add: encode_rs_8_def)
  then have "evaluate ?rho (encode_rs_8 (data @ [d])) = evaluate ?rho (tl ?par @ [0]) XOR mult ?f (?rho * 32)"
    using evaluate_xor [of "tl ?par @ [0]" "map (mult ?f) ?g" ?rho] g lens par by simp
  moreover have h: "mult (evaluate ?rho ps) ?rho = mult p (?rho * 32) XOR mult (evaluate ?rho data) (?rho + ?rho * 32)"
  proof -
    have "mult p (?rho * 31) XOR evaluate ?rho ps = mult (evaluate ?rho data) (?rho * 32)" using snoc par lens by (simp add: NROOTS_def)
    then have "mult (mult p (?rho * 31) XOR evaluate ?rho ps) ?rho = mult (mult (evaluate ?rho data) (?rho * 32)) ?rho" by simp
    moreover have "?rho * 31 + ?rho = ?rho * 32" by simp
    ultimately have "mult p (?rho * 32) XOR mult (evaluate ?rho ps) ?rho = mult (evaluate ?rho data) (?rho * 32 + ?rho)" by simp
    then show ?thesis unfolding add.commute [of "?rho * 32"] by (rule xor_move)
  qed
  ultimately have "evaluate ?rho (encode_rs_8 (data @ [d])) = mult (evaluate ?rho (data @ [d])) (?rho * NROOTS)"
    using h par by (simp add: NROOTS_def xor.assoc xor.left_commute xor.commute add.commute)
  then show ?case using e lens par by (simp add: NROOTS_def)
qed

lemma syndromes_evaluate:
  assumes "data \<noteq> []"
  shows "syndromes data = map (\<lambda>i. evaluate ((FCR + i) * PRIM) data) [0..<NROOTS]"
proof -
  have step: "syndrome_symbol d (map x [0..<NROOTS]) = map (\<lambda>i. d XOR mult (x i) ((FCR + i) * PRIM)) [0..<NROOTS]" for d x
    unfolding syndrome_symbol_def by (rule map_cong) (auto simp: mult_table)
  have "fold syndrome_symbol ds (map x [0..<NROOTS]) = map (\<lambda>i. fold (\<lambda>d s. d XOR mult s ((FCR + i) * PRIM)) ds (x i)) [0..<NROOTS]" for ds x
    by (induction ds arbitrary: x) (simp_all add: step)
  moreover obtain d ds where d: "data = d # ds" using assms by (cases data) auto
  moreover have "replicate NROOTS d = map (\<lambda>_. d) [0..<NROOTS]" by (simp add: map_replicate_const)
  ultimately show ?thesis by (simp add: syndromes_def evaluate_fold)
qed

text \<open>
  C19. A block as it was encoded, of any length that the code allows (1 to 223 symbols of data), is decoded without an error and without change: its syndromes
  vanish.
\<close>

theorem rs_roundtrip:
  assumes "length data + pad = NN - NROOTS" "pad \<le> 222"
  shows "decode_rs_8 (data @ encode_rs_8 data) pad = Some (0, data @ encode_rs_8 data)"
proof -
  have "data \<noteq> []" using assms by (auto simp: NN_def NROOTS_def)
  have "evaluate ((FCR + i) * PRIM) (data @ encode_rs_8 data) = 0" if "i < NROOTS" for i
    using parity_remainder [OF that, of data] by (simp add: NROOTS_def)
  then have "\<forall>x \<in> set (syndromes (data @ encode_rs_8 data)). x = 0"
    using \<open>data \<noteq> []\<close> by (subst syndromes_evaluate) auto
  then show ?thesis using assms(2) by (simp add: decode_rs_8_def)
qed

theorem rs_roundtrip_witness:
  "decode_rs_8 ([1, 2, 3] @ encode_rs_8 [1, 2, 3]) 220 = Some (0, [1, 2, 3] @ encode_rs_8 [1, 2, 3])"
  by (rule rs_roundtrip) (simp_all add: NN_def NROOTS_def)

end
