(* ===== verification/Lcd.thy ===== *)
theory Lcd
  imports Prelude "HOL-Library.Monad_Syntax"
begin

text \<open>
  The character display driver \<^verbatim>\<open>devLib/lcd.c\<close>: handles, the 4-bit and 8-bit transfers over GPIO pins,
  the cursor and the text output. What the driver does to the hardware is the sequence of calls it
  makes (\<^verbatim>\<open>digitalWrite\<close>, \<^verbatim>\<open>pinMode\<close> and delays); an observer of the pins reads it back as the bytes the
  display latches, and those as the text in its memory.
\<close>

section \<open>State\<close>

datatype gpio_op = DigitalWrite int int | PinMode int int | Delay nat | DelayMicroseconds nat

record lcdDataStruct =
  lcd_bits :: int
  lcd_rows :: int
  lcd_cols :: int
  rsPin :: int
  strbPin :: int
  dataPins :: "int list"
  cx :: int
  cy :: int

record lcd_state =
  lcds :: "lcdDataStruct option list"
  lcdControl :: cint
  lcd_initialised :: bool
  lcd_ops :: "gpio_op list"

definition "MAX_LCDS = (8 :: nat)"

abbreviation "LCD_CLEAR \<equiv> (0x01 :: byte)"
abbreviation "LCD_HOME \<equiv> (0x02 :: byte)"
abbreviation "LCD_ENTRY \<equiv> (0x04 :: byte)"
abbreviation "LCD_CTRL \<equiv> (0x08 :: cint)"
abbreviation "LCD_CDSHIFT \<equiv> (0x10 :: byte)"
abbreviation "LCD_FUNC \<equiv> (0x20 :: byte)"
abbreviation "LCD_CGRAM \<equiv> (0x40 :: cint)"
abbreviation "LCD_DGRAM \<equiv> (0x80 :: cint)"
abbreviation "LCD_ENTRY_ID \<equiv> (0x02 :: byte)"
abbreviation "LCD_BLINK_CTRL \<equiv> (0x01 :: cint)"
abbreviation "LCD_CURSOR_CTRL \<equiv> (0x02 :: cint)"
abbreviation "LCD_DISPLAY_CTRL \<equiv> (0x04 :: cint)"
abbreviation "LCD_FUNC_N \<equiv> (0x08 :: byte)"
abbreviation "LCD_FUNC_DL \<equiv> (0x10 :: byte)"
abbreviation "LCD_CDSHIFT_RL \<equiv> (0x04 :: byte)"

abbreviation "GPIO_OUTPUT \<equiv> (1 :: int)"

text \<open>The driver before its first call: the static variables are zero.\<close>

definition lcd_start :: lcd_state where
  "lcd_start = \<lparr>lcds = replicate MAX_LCDS None, lcdControl = 0, lcd_initialised = False, lcd_ops = []\<rparr>"

text \<open>The row offset table has four entries; a row past it is outside the array.\<close>

definition rowOff :: "int \<Rightarrow> cint option" where
  "rowOff y = (if 0 \<le> y \<and> y < 4 then Some ([0x00, 0x40, 0x14, 0x54] ! nat y) else None)"

section \<open>Transfers\<close>

definition strobe :: "lcdDataStruct \<Rightarrow> gpio_op list" where
  "strobe lcd = [DigitalWrite (strbPin lcd) 1, DelayMicroseconds 50, DigitalWrite (strbPin lcd) 0, DelayMicroseconds 50]"

text \<open>The loop that puts the bits of a value on pins, lowest first.\<close>

fun write_bits :: "int list \<Rightarrow> byte \<Rightarrow> gpio_op list" where
  "write_bits [] d = []"
| "write_bits (p # ps) d = DigitalWrite p (uint (d AND 1)) # write_bits ps (drop_bit 1 d)"

definition sendDataCmd :: "lcdDataStruct \<Rightarrow> byte \<Rightarrow> gpio_op list" where
  "sendDataCmd lcd data =
     (if lcd_bits lcd = 4 then
        write_bits (take 4 (dataPins lcd)) (drop_bit 4 data AND 0x0F) @ strobe lcd @
        write_bits (take 4 (dataPins lcd)) (data AND 0x0F)
      else write_bits (take 8 (dataPins lcd)) data) @ strobe lcd"

definition putCommand :: "lcdDataStruct \<Rightarrow> byte \<Rightarrow> gpio_op list" where
  "putCommand lcd command = DigitalWrite (rsPin lcd) 0 # sendDataCmd lcd command @ [Delay 2]"

definition put4Command :: "lcdDataStruct \<Rightarrow> byte \<Rightarrow> gpio_op list" where
  "put4Command lcd command =
     DigitalWrite (rsPin lcd) 0 # write_bits (take 4 (dataPins lcd)) command @ strobe lcd"

section \<open>Operations on a handle\<close>

text \<open>
  An operation on a handle that was never given out dereferences a null pointer or leaves the array;
  its result is \<open>None\<close>.
\<close>

definition lcd_at :: "lcd_state \<Rightarrow> int \<Rightarrow> lcdDataStruct option" where
  "lcd_at s fd = (if 0 \<le> fd \<and> nat fd < length (lcds s) then lcds s ! nat fd else None)"

definition lcd_put :: "int \<Rightarrow> lcdDataStruct \<Rightarrow> gpio_op list \<Rightarrow> lcd_state \<Rightarrow> lcd_state" where
  "lcd_put fd lcd ops s = s\<lparr>lcds := (lcds s)[nat fd := Some lcd], lcd_ops := lcd_ops s @ ops\<rparr>"

definition lcdHome :: "int \<Rightarrow> lcd_state \<Rightarrow> lcd_state option" where
  "lcdHome fd s = do {
     lcd \<leftarrow> lcd_at s fd;
     Some (lcd_put fd (lcd\<lparr>cx := 0, cy := 0\<rparr>) (putCommand lcd LCD_HOME @ [Delay 5]) s) }"

definition lcdClear :: "int \<Rightarrow> lcd_state \<Rightarrow> lcd_state option" where
  "lcdClear fd s = do {
     lcd \<leftarrow> lcd_at s fd;
     Some (lcd_put fd (lcd\<lparr>cx := 0, cy := 0\<rparr>)
             (putCommand lcd LCD_CLEAR @ putCommand lcd LCD_HOME @ [Delay 5]) s) }"

text \<open>The three switches of the control register share this body.\<close>

definition lcd_control :: "cint \<Rightarrow> int \<Rightarrow> int \<Rightarrow> lcd_state \<Rightarrow> lcd_state option" where
  "lcd_control flag fd state s = do {
     lcd \<leftarrow> lcd_at s fd;
     let c = (if state \<noteq> 0 then lcdControl s OR flag else lcdControl s AND NOT flag);
     Some (lcd_put fd lcd (putCommand lcd (ucast (LCD_CTRL OR c))) (s\<lparr>lcdControl := c\<rparr>)) }"

definition lcdDisplay :: "int \<Rightarrow> int \<Rightarrow> lcd_state \<Rightarrow> lcd_state option" where
  "lcdDisplay = lcd_control LCD_DISPLAY_CTRL"

definition lcdCursor :: "int \<Rightarrow> int \<Rightarrow> lcd_state \<Rightarrow> lcd_state option" where
  "lcdCursor = lcd_control LCD_CURSOR_CTRL"

definition lcdCursorBlink :: "int \<Rightarrow> int \<Rightarrow> lcd_state \<Rightarrow> lcd_state option" where
  "lcdCursorBlink = lcd_control LCD_BLINK_CTRL"

definition lcdSendCommand :: "int \<Rightarrow> byte \<Rightarrow> lcd_state \<Rightarrow> lcd_state option" where
  "lcdSendCommand fd command s = do {
     lcd \<leftarrow> lcd_at s fd;
     Some (lcd_put fd lcd (putCommand lcd command) s) }"

definition lcdPosition :: "int \<Rightarrow> int \<Rightarrow> int \<Rightarrow> lcd_state \<Rightarrow> lcd_state option" where
  "lcdPosition fd x y s = do {
     lcd \<leftarrow> lcd_at s fd;
     if x > lcd_cols lcd \<or> x < 0 then Some s
     else if y > lcd_rows lcd \<or> y < 0 then Some s
     else do {
       off \<leftarrow> rowOff y;
       Some (lcd_put fd (lcd\<lparr>cx := x, cy := y\<rparr>)
               (putCommand lcd (ucast (word_of_int x + (LCD_DGRAM OR off)))) s) } }"

definition lcdCharDef :: "int \<Rightarrow> cint \<Rightarrow> byte list \<Rightarrow> lcd_state \<Rightarrow> lcd_state option" where
  "lcdCharDef fd index data s = do {
     lcd \<leftarrow> lcd_at s fd;
     if length data < 8 then None
     else Some (lcd_put fd lcd
            (putCommand lcd (ucast (LCD_CGRAM OR push_bit 3 (index AND 7))) @
             DigitalWrite (rsPin lcd) 1 # concat (map (sendDataCmd lcd) (take 8 data))) s) }"

definition lcdPutchar :: "int \<Rightarrow> byte \<Rightarrow> lcd_state \<Rightarrow> lcd_state option" where
  "lcdPutchar fd data s = do {
     lcd \<leftarrow> lcd_at s fd;
     let ops = DigitalWrite (rsPin lcd) 1 # sendDataCmd lcd data;
     if cx lcd + 1 = lcd_cols lcd then do {
       let y = (if cy lcd + 1 = lcd_rows lcd then 0 else cy lcd + 1);
       off \<leftarrow> rowOff y;
       Some (lcd_put fd (lcd\<lparr>cx := 0, cy := y\<rparr>) (ops @ putCommand lcd (ucast (0 + (LCD_DGRAM OR off)))) s) }
     else Some (lcd_put fd (lcd\<lparr>cx := cx lcd + 1\<rparr>) ops s) }"

text \<open>\<^verbatim>\<open>lcdPuts\<close> on the text before the terminator.\<close>

fun lcdPuts :: "int \<Rightarrow> byte list \<Rightarrow> lcd_state \<Rightarrow> lcd_state option" where
  "lcdPuts fd [] s = Some s"
| "lcdPuts fd (c # str) s = (if c = 0 then Some s else do { s1 \<leftarrow> lcdPutchar fd c s; lcdPuts fd str s1 })"

text \<open>The formatted message is cut to the 1022 bytes that \<^verbatim>\<open>vsnprintf\<close> may write.\<close>

definition lcdPrintf :: "int \<Rightarrow> byte list \<Rightarrow> lcd_state \<Rightarrow> lcd_state option" where
  "lcdPrintf fd message s = lcdPuts fd (take 1022 message) s"

section \<open>Initialisation\<close>

fun first_free :: "lcdDataStruct option list \<Rightarrow> nat \<Rightarrow> int" where
  "first_free [] i = -1"
| "first_free (None # ls) i = int i"
| "first_free (Some _ # ls) i = first_free ls (Suc i)"

text \<open>The commands that bring the controller into its mode, before the handle's operations are used.\<close>

definition lcd_mode_ops :: "lcdDataStruct \<Rightarrow> int \<Rightarrow> gpio_op list" where
  "lcd_mode_ops lcd bits =
     (let func = LCD_FUNC OR LCD_FUNC_DL
      in if bits = 4 then
           put4Command lcd (drop_bit 4 func) @ [Delay 35] @ put4Command lcd (drop_bit 4 func) @ [Delay 35] @
           put4Command lcd (drop_bit 4 func) @ [Delay 35] @ put4Command lcd (drop_bit 4 LCD_FUNC) @ [Delay 35]
         else
           putCommand lcd func @ [Delay 35] @ putCommand lcd func @ [Delay 35] @ putCommand lcd func @ [Delay 35])"

text \<open>
  \<open>mem\<close> is whether \<^verbatim>\<open>malloc\<close> succeeds; \<open>pins\<close> are the eight data pins. The result is the handle, or -1, with the
  new state.
\<close>

definition lcdInit ::
  "bool \<Rightarrow> int \<Rightarrow> int \<Rightarrow> int \<Rightarrow> int \<Rightarrow> int \<Rightarrow> int list \<Rightarrow> lcd_state \<Rightarrow> (int \<times> lcd_state) option" where
  "lcdInit mem rows cols bits rs strb pins s0 =
     (let s = (if lcd_initialised s0 then s0
               else s0\<lparr>lcd_initialised := True, lcds := replicate MAX_LCDS None\<rparr>);
          lcdFd = first_free (lcds s) 0
      in if \<not> (bits = 4 \<or> bits = 8) then Some (-1, s)
         else if rows < 0 \<or> rows > 20 then Some (-1, s)
         else if cols < 0 \<or> cols > 20 then Some (-1, s)
         else if lcdFd = -1 then Some (-1, s)
         else if \<not> mem then Some (-1, s)
         else do {
           let lcd = \<lparr>lcd_bits = 8, lcd_rows = rows, lcd_cols = cols, rsPin = rs, strbPin = strb,
                      dataPins = pins, cx = 0, cy = 0\<rparr>;
           let lcd' = lcd\<lparr>lcd_bits := (if bits = 4 then 4 else 8)\<rparr>;
           let func = (if bits = 4 then LCD_FUNC else LCD_FUNC OR LCD_FUNC_DL) OR LCD_FUNC_N;
           let s1 = lcd_put lcdFd lcd'
             ([DigitalWrite rs 0, PinMode rs GPIO_OUTPUT, DigitalWrite strb 0, PinMode strb GPIO_OUTPUT] @
              concat (map (\<lambda>p. [DigitalWrite p 0, PinMode p GPIO_OUTPUT]) (take (nat bits) pins)) @ [Delay 35] @
              lcd_mode_ops lcd bits @ (if rows > 1 then putCommand lcd' func @ [Delay 35] else [])) s;
           s2 \<leftarrow> lcdDisplay lcdFd 1 s1;
           s3 \<leftarrow> lcdCursor lcdFd 0 s2;
           s4 \<leftarrow> lcdCursorBlink lcdFd 0 s3;
           s5 \<leftarrow> lcdClear lcdFd s4;
           s6 \<leftarrow> lcdSendCommand lcdFd (LCD_ENTRY OR LCD_ENTRY_ID) s5;
           s7 \<leftarrow> lcdSendCommand lcdFd (LCD_CDSHIFT OR LCD_CDSHIFT_RL) s6;
           Some (lcdFd, s7) })"

section \<open>What the pins carry\<close>

text \<open>
  An observer of the pins. \<open>lv\<close> gives the level of each pin; the display takes what is on the register
  select pin and the data pins at each falling edge of the strobe pin.
\<close>

definition used_pins :: "lcdDataStruct \<Rightarrow> int list" where
  "used_pins lcd = take (nat (lcd_bits lcd)) (dataPins lcd)"

definition level_step :: "gpio_op \<Rightarrow> (int \<Rightarrow> bool) \<Rightarrow> int \<Rightarrow> bool" where
  "level_step op lv = (case op of DigitalWrite p v \<Rightarrow> lv(p := v \<noteq> 0) | _ \<Rightarrow> lv)"

fun latched :: "lcdDataStruct \<Rightarrow> (int \<Rightarrow> bool) \<Rightarrow> gpio_op list \<Rightarrow> (bool \<times> bool list) list" where
  "latched lcd lv [] = []"
| "latched lcd lv (DigitalWrite p v # ops) =
     (if p = strbPin lcd \<and> lv p \<and> v = 0 then [(lv (rsPin lcd), map lv (used_pins lcd))] else []) @
     latched lcd (level_step (DigitalWrite p v) lv) ops"
| "latched lcd lv (_ # ops) = latched lcd lv ops"

definition bus_value :: "bool list \<Rightarrow> byte" where
  "bus_value bs = horner_sum of_bool 2 bs"

text \<open>Four data pins carry a byte in two halves, the high one first.\<close>

fun nibble_pairs :: "(bool \<times> bool list) list \<Rightarrow> (bool \<times> byte) list" where
  "nibble_pairs ((r, h) # (r', l) # ms) = (r, push_bit 4 (bus_value h) OR bus_value l) # nibble_pairs ms"
| "nibble_pairs _ = []"

definition heard :: "lcdDataStruct \<Rightarrow> (int \<Rightarrow> bool) \<Rightarrow> gpio_op list \<Rightarrow> (bool \<times> byte) list" where
  "heard lcd lv ops =
     (if lcd_bits lcd = 4 then nibble_pairs (latched lcd lv ops)
      else map (\<lambda>(r, bs). (r, bus_value bs)) (latched lcd lv ops))"

definition pins_ok :: "lcdDataStruct \<Rightarrow> bool" where
  "pins_ok lcd \<longleftrightarrow> (lcd_bits lcd = 4 \<or> lcd_bits lcd = 8) \<and> length (dataPins lcd) \<ge> nat (lcd_bits lcd) \<and>
     distinct (rsPin lcd # strbPin lcd # used_pins lcd)"

lemma level_step_simps [simp]:
  "level_step (DigitalWrite p v) lv = lv(p := v \<noteq> 0)" "level_step (PinMode p v) lv = lv"
  "level_step (Delay n) lv = lv" "level_step (DelayMicroseconds n) lv = lv"
  by (simp_all add: level_step_def)

lemma latched_append:
  "latched lcd lv (xs @ ys) = latched lcd lv xs @ latched lcd (fold level_step xs lv) ys"
proof (induction xs arbitrary: lv)
  case (Cons x xs)
  then show ?case by (cases x) (simp_all del: fun_upd_apply)
qed simp

lemma write_bits_levels:
  "distinct ps \<Longrightarrow> map (fold level_step (write_bits ps d) lv) ps = map (bit d) [0..<length ps]"
  "q \<notin> set ps \<Longrightarrow> fold level_step (write_bits ps d) lv q = lv q"
proof (induction ps arbitrary: d lv q)
  case (Cons p ps)
  {
    case 1
    let ?lv = "lv(p := uint (d AND 1) \<noteq> 0)"
    have b: "(uint (d AND 1) \<noteq> 0) = odd d" by (simp add: and_one_eq odd_iff_mod_2_eq_one uint_0_iff)
    have "fold level_step (write_bits ps (drop_bit 1 d)) ?lv p = odd d"
      using 1 b by (simp add: Cons.IH(2))
    moreover have "map (bit d) [0..<length (p # ps)] = odd d # map (bit (drop_bit 1 d)) [0..<length ps]"
      by (simp add: bit_drop_bit_eq comp_def bit_0 map_upt_Suc del: upt_Suc)
    ultimately show ?case using Cons.IH(1) [of "drop_bit 1 d" ?lv] 1
      by (simp del: upt_Suc fun_upd_apply)
  next
    case 2
    then show ?case by (simp add: Cons.IH(2))
  }
qed simp_all

lemma write_bits_quiet: "strbPin lcd \<notin> set ps \<Longrightarrow> latched lcd lv (write_bits ps d) = []"
  by (induction ps arbitrary: d lv) auto

lemma latched_strobe:
  assumes "distinct (rsPin lcd # strbPin lcd # used_pins lcd)"
  shows "latched lcd lv (strobe lcd) = [(lv (rsPin lcd), map lv (used_pins lcd))]"
    and "q \<noteq> strbPin lcd \<Longrightarrow> fold level_step (strobe lcd) lv q = lv q"
  using assms by (auto simp: strobe_def)

text \<open>One transfer over the pins in use: the bits, then a strobe.\<close>

definition bus_transfer :: "lcdDataStruct \<Rightarrow> byte \<Rightarrow> gpio_op list" where
  "bus_transfer lcd d = write_bits (used_pins lcd) d @ strobe lcd"

lemma latched_group:
  assumes "distinct (rsPin lcd # strbPin lcd # used_pins lcd)"
  shows "latched lcd lv (bus_transfer lcd d) =
      [(lv (rsPin lcd), map (bit d) [0..<length (used_pins lcd)])]"
    and "fold level_step (bus_transfer lcd d) lv (rsPin lcd) = lv (rsPin lcd)"
  using assms by (simp_all add: bus_transfer_def latched_append write_bits_quiet write_bits_levels latched_strobe)

lemma bus_value_bits: "bus_value (map (bit d) [0..<n]) = take_bit n d"
  by (simp add: bus_value_def horner_sum_bit_eq_take_bit)

lemma nibbles_join:
  "push_bit 4 (bus_value (map (bit (drop_bit 4 d AND 15)) [0..<4])) OR bus_value (map (bit (d AND 15)) [0..<4]) = d"
  unfolding bus_value_bits by (rule bit_word_eqI) (auto simp: bit_simps byte_15_mask)

text \<open>
  \<open>says lcd ops ms\<close>: whatever the pins were before and whatever follows, the display takes the bytes \<open>ms\<close>
  from the calls \<open>ops\<close>, each with the register select level it came with.
\<close>

definition says :: "lcdDataStruct \<Rightarrow> gpio_op list \<Rightarrow> (bool \<times> byte) list \<Rightarrow> bool" where
  "says lcd ops ms \<longleftrightarrow>
     (\<forall>lv rest. heard lcd lv (ops @ rest) = ms @ heard lcd (fold level_step ops lv) rest)"

lemma says_heard: "says lcd ops ms \<Longrightarrow> heard lcd lv ops = ms"
proof -
  assume "says lcd ops ms"
  then have "heard lcd lv (ops @ []) = ms @ heard lcd (fold level_step ops lv) []" by (simp only: says_def)
  then show ?thesis by (simp add: heard_def)
qed

lemma says_Nil [simp]: "says lcd [] []"
  by (simp add: says_def)

lemma says_append: "says lcd a ms \<Longrightarrow> says lcd b ns \<Longrightarrow> says lcd (a @ b) (ms @ ns)"
  by (simp add: says_def)

lemma heard_send:
  assumes "pins_ok lcd"
  shows "heard lcd lv (sendDataCmd lcd d @ rest) =
    (lv (rsPin lcd), d) # heard lcd (fold level_step (sendDataCmd lcd d) lv) rest"
proof -
  have dp: "distinct (rsPin lcd # strbPin lcd # used_pins lcd)" using assms by (simp add: pins_ok_def)
  note g = latched_group [OF dp]
  show ?thesis
  proof (cases "lcd_bits lcd = 4")
    case True
    have u: "take 4 (dataPins lcd) = used_pins lcd" "length (used_pins lcd) = 4"
      using True assms by (simp_all add: used_pins_def pins_ok_def)
    have s: "sendDataCmd lcd d = bus_transfer lcd (drop_bit 4 d AND 15) @ bus_transfer lcd (d AND 15)"
      using True u by (simp add: sendDataCmd_def bus_transfer_def)
    show ?thesis using True s g u(2)
      by (simp add: heard_def latched_append nibbles_join del: upt_Suc bit_and_iff)
  next
    case False
    have u: "take 8 (dataPins lcd) = used_pins lcd" "length (used_pins lcd) = 8"
      using False assms by (auto simp: used_pins_def pins_ok_def)
    have s: "sendDataCmd lcd d = bus_transfer lcd d" using False u by (simp add: sendDataCmd_def bus_transfer_def)
    have "take_bit 8 d = d" by (rule bit_word_eqI) (simp add: bit_take_bit_iff)
    then show ?thesis using False s g u(2)
      by (simp add: heard_def latched_append bus_value_bits del: upt_Suc)
  qed
qed

lemma heard_skip:
  assumes "pins_ok lcd"
  shows "heard lcd lv (DigitalWrite (rsPin lcd) v # ops) = heard lcd (lv(rsPin lcd := v \<noteq> 0)) ops"
    "heard lcd lv (Delay n # ops) = heard lcd lv ops"
  using assms by (simp_all add: heard_def pins_ok_def del: fun_upd_apply)

lemma says_putCommand: "pins_ok lcd \<Longrightarrow> says lcd (putCommand lcd c) [(False, c)]"
  unfolding says_def putCommand_def by (simp add: heard_skip heard_send del: fun_upd_apply) simp

lemma says_char: "pins_ok lcd \<Longrightarrow> says lcd (DigitalWrite (rsPin lcd) 1 # sendDataCmd lcd c) [(True, c)]"
  unfolding says_def by (simp add: heard_skip heard_send del: fun_upd_apply) simp

section \<open>The display's memory\<close>

text \<open>
  How the controller takes the bytes: data is stored at the address counter, which moves on (in two-line
  mode past the end of a line to the start of the other); a command with the top bit set loads the
  counter, \<open>LCD_CLEAR\<close> blanks the memory and \<open>LCD_HOME\<close> sets the counter to zero.
\<close>

record display =
  ddram :: "nat \<Rightarrow> byte"
  ac :: nat

definition next_address :: "nat \<Rightarrow> nat" where
  "next_address a = (if a = 0x27 then 0x40 else if a = 0x67 then 0 else a + 1)"

fun display_step :: "bool \<times> byte \<Rightarrow> display \<Rightarrow> display" where
  "display_step (True, b) d = d\<lparr>ddram := (ddram d)(ac d := b), ac := next_address (ac d)\<rparr>"
| "display_step (False, b) d =
     (if bit b 7 then d\<lparr>ac := unat (take_bit 7 b)\<rparr>
      else if b = LCD_CLEAR then \<lparr>ddram = (\<lambda>_. 0x20), ac = 0\<rparr>
      else if b = LCD_HOME then d\<lparr>ac := 0\<rparr>
      else d)"

text \<open>The address of a cell, and the geometries the row table supports.\<close>

definition row_address :: "int \<Rightarrow> nat" where
  "row_address y = [0x00, 0x40, 0x14, 0x54] ! nat y"

definition lcd_ok :: "lcdDataStruct \<Rightarrow> bool" where
  "lcd_ok lcd \<longleftrightarrow> lcd_rows lcd \<le> 4 \<and> lcd_cols lcd \<le> 20 \<and>
     0 \<le> cx lcd \<and> cx lcd < lcd_cols lcd \<and> 0 \<le> cy lcd \<and> cy lcd < lcd_rows lcd"

definition cell_address :: "lcdDataStruct \<Rightarrow> int \<Rightarrow> nat" where
  "cell_address lcd i = row_address (i div lcd_cols lcd) + nat (i mod lcd_cols lcd)"

text \<open>
  The terminal the comment at \<^verbatim>\<open>lcdPutchar\<close> describes: cells in reading order and a cursor that moves on
  with each character and wraps at the end.
\<close>

record terminal =
  cells :: "int \<Rightarrow> byte"
  cursor :: int

definition term_put :: "int \<Rightarrow> byte \<Rightarrow> terminal \<Rightarrow> terminal" where
  "term_put n c t = \<lparr>cells = (cells t)(cursor t := c), cursor = (cursor t + 1) mod n\<rparr>"

definition lcd_cells :: "lcdDataStruct \<Rightarrow> int" where
  "lcd_cells lcd = lcd_rows lcd * lcd_cols lcd"

definition lcd_cursor :: "lcdDataStruct \<Rightarrow> int" where
  "lcd_cursor lcd = cy lcd * lcd_cols lcd + cx lcd"

definition screen :: "lcdDataStruct \<Rightarrow> display \<Rightarrow> terminal" where
  "screen lcd d =
     \<lparr>cells = (\<lambda>i. if 0 \<le> i \<and> i < lcd_cells lcd then ddram d (cell_address lcd i) else 0),
      cursor = lcd_cursor lcd\<rparr>"

text \<open>The driver's cursor and the display's address counter agree.\<close>

definition in_step :: "lcdDataStruct \<Rightarrow> display \<Rightarrow> bool" where
  "in_step lcd d \<longleftrightarrow> lcd_ok lcd \<and> pins_ok lcd \<and> ac d = cell_address lcd (lcd_cursor lcd)"

lemma row_cases: "0 \<le> y \<Longrightarrow> y < 4 \<Longrightarrow> (y :: int) = 0 \<or> y = 1 \<or> y = 2 \<or> y = 3"
  by linarith

lemma cursor_div_mod:
  assumes "0 \<le> x" and "x < c"
  shows "(y * c + x) div c = y" "(y * c + x) mod c = (x :: int)"
  using assms by (simp_all add: div_pos_pos_trivial)

lemma cell_address_cursor: "lcd_ok lcd \<Longrightarrow> cell_address lcd (lcd_cursor lcd) = row_address (cy lcd) + nat (cx lcd)"
  by (simp add: cell_address_def lcd_cursor_def lcd_ok_def)

lemma cell_address_inj:
  assumes "lcd_ok lcd" and "0 \<le> i" "i < lcd_cells lcd" "0 \<le> j" "j < lcd_cells lcd"
    and "cell_address lcd i = cell_address lcd j"
  shows "i = j"
proof -
  let ?c = "lcd_cols lcd"
  have c: "0 < ?c" "?c \<le> 20" "lcd_rows lcd \<le> 4" using assms(1) by (auto simp: lcd_ok_def)
  have row: "0 \<le> k div ?c \<and> k div ?c < 4" if "0 \<le> k" "k < lcd_cells lcd" for k
  proof -
    have "k div ?c * ?c < lcd_rows lcd * ?c"
      using that(2) div_mult_mod_eq [of k ?c] pos_mod_sign [OF c(1), of k] unfolding lcd_cells_def by linarith
    then have "k div ?c < lcd_rows lcd" using c(1) by (simp add: mult_less_cancel_right)
    then show ?thesis using c that by (simp add: pos_imp_zdiv_nonneg_iff)
  qed
  have col: "0 \<le> k mod ?c" "k mod ?c < 20" for k
    using pos_mod_bound [OF c(1), of k] pos_mod_sign [OF c(1), of k] c(2) by linarith+
  have "i div ?c = j div ?c \<and> i mod ?c = j mod ?c"
    using row_cases [of "i div ?c"] row_cases [of "j div ?c"] row [OF assms(2,3)] row [OF assms(4,5)]
      col [of i] col [of j] assms(6)
    by (auto simp: cell_address_def row_address_def)
  then show ?thesis using div_mult_mod_eq [of i ?c] div_mult_mod_eq [of j ?c] by metis
qed

lemma lcd_cursor_range: "lcd_ok lcd \<Longrightarrow> 0 \<le> lcd_cursor lcd \<and> lcd_cursor lcd < lcd_cells lcd"
proof -
  assume ok: "lcd_ok lcd"
  have "lcd_cursor lcd < (cy lcd + 1) * lcd_cols lcd" using ok by (simp add: lcd_cursor_def lcd_ok_def algebra_simps)
  also have "\<dots> \<le> lcd_rows lcd * lcd_cols lcd" using ok by (intro mult_right_mono) (auto simp: lcd_ok_def)
  finally show ?thesis using ok by (simp add: lcd_cursor_def lcd_cells_def lcd_ok_def)
qed

lemma ucast_word_of_int: "(ucast (word_of_int k :: cint) :: byte) = word_of_int k"
  by (rule bit_word_eqI) (simp add: bit_simps)

lemma position_byte:
  assumes "128 \<le> k" and "k < 256"
  shows "bit (word_of_int k :: byte) 7" and "unat (take_bit 7 (word_of_int k :: byte)) = nat (k - 128)"
proof -
  have u: "uint (word_of_int k :: byte) = k" using assms by (simp add: uint_word_of_int)
  have d: "k div 128 = 1" "k mod 128 = k - 128" using assms by presburger+
  have "bit (uint (word_of_int k :: byte)) 7" unfolding u bit_iff_odd by (simp add: d)
  then show "bit (word_of_int k :: byte) 7" by (simp add: bit_uint_iff)
  have "uint (take_bit 7 (word_of_int k :: byte)) = k - 128"
    unfolding unsigned_take_bit_eq u by (simp add: take_bit_eq_mod d)
  then show "unat (take_bit 7 (word_of_int k :: byte)) = nat (k - 128)" by (metis unat_eq_nat_uint)
qed

definition position_command :: "int \<Rightarrow> int \<Rightarrow> byte" where
  "position_command x y = word_of_int (128 + int (row_address y) + x)"

lemma rowOff_command:
  assumes "0 \<le> y" and "y < 4"
  obtains off where "rowOff y = Some off" and "\<forall>x. ucast (word_of_int x + (LCD_DGRAM OR off)) = position_command x y"
proof -
  define off where "off = ([0x00, 0x40, 0x14, 0x54] :: cint list) ! nat y"
  have "LCD_DGRAM OR off = word_of_int (128 + int (row_address y))"
    using row_cases [OF assms] by (elim disjE) (simp_all add: off_def row_address_def)
  then have "word_of_int x + (LCD_DGRAM OR off) = word_of_int (128 + int (row_address y) + x)" for x
    by (simp only: of_int_add add.commute)
  then have "\<forall>x. ucast (word_of_int x + (LCD_DGRAM OR off)) = position_command x y"
    by (simp only: ucast_word_of_int position_command_def simp_thms)
  then show ?thesis using that [of off] assms by (simp add: rowOff_def off_def)
qed

lemma display_position:
  assumes "0 \<le> x" "x \<le> 20" "0 \<le> y" "y < 4"
  shows "display_step (False, position_command x y) d = d\<lparr>ac := row_address y + nat x\<rparr>"
proof -
  let ?k = "128 + int (row_address y) + x"
  have "128 \<le> ?k" "?k < 256" "nat (?k - 128) = row_address y + nat x"
    using assms row_cases [of y] by (auto simp: row_address_def)
  then show ?thesis using position_byte [of ?k] by (simp only: position_command_def display_step.simps) simp
qed

text \<open>Where the cursor goes after one more character.\<close>

definition lcd_advance :: "lcdDataStruct \<Rightarrow> lcdDataStruct" where
  "lcd_advance lcd =
     (if cx lcd + 1 = lcd_cols lcd then
        lcd\<lparr>cx := 0, cy := (if cy lcd + 1 = lcd_rows lcd then 0 else cy lcd + 1)\<rparr>
      else lcd\<lparr>cx := cx lcd + 1\<rparr>)"

definition char_bytes :: "lcdDataStruct \<Rightarrow> byte \<Rightarrow> (bool \<times> byte) list" where
  "char_bytes lcd c =
     (True, c) # (if cx lcd + 1 = lcd_cols lcd then [(False, position_command 0 (cy (lcd_advance lcd)))] else [])"

lemma lcd_ok_advance [inv_intros]: "lcd_ok lcd \<Longrightarrow> lcd_ok (lcd_advance lcd)"
  by (auto simp: lcd_ok_def lcd_advance_def)

lemma putchar_outcome:
  assumes "lcd_at s fd = Some lcd" and ok: "lcd_ok lcd" and "pins_ok lcd"
  shows "\<exists>ops. lcdPutchar fd c s = Some (lcd_put fd (lcd_advance lcd) ops s) \<and> says lcd ops (char_bytes lcd c)"
proof (cases "cx lcd + 1 = lcd_cols lcd")
  case True
  let ?y = "if cy lcd + 1 = lcd_rows lcd then 0 else cy lcd + 1"
  have y: "0 \<le> ?y" "?y < 4" using ok by (auto simp: lcd_ok_def)
  then obtain off where off: "rowOff ?y = Some off"
    "ucast (word_of_int 0 + (LCD_DGRAM OR off)) = position_command 0 ?y" by (rule rowOff_command) blast
  have "says lcd ((DigitalWrite (rsPin lcd) 1 # sendDataCmd lcd c) @ putCommand lcd (position_command 0 ?y))
      ([(True, c)] @ [(False, position_command 0 ?y)])"
    using assms(3) by (intro says_append says_char says_putCommand)
  then show ?thesis using assms True off
    by (auto simp: lcdPutchar_def Let_def lcd_advance_def char_bytes_def)
next
  case False
  then show ?thesis using assms says_char [OF assms(3), of c]
    by (auto simp: lcdPutchar_def Let_def lcd_advance_def char_bytes_def)
qed

lemma lcd_advance_fields [simp]:
  "lcd_cols (lcd_advance lcd) = lcd_cols lcd" "lcd_rows (lcd_advance lcd) = lcd_rows lcd"
  "lcd_bits (lcd_advance lcd) = lcd_bits lcd" "rsPin (lcd_advance lcd) = rsPin lcd"
  "strbPin (lcd_advance lcd) = strbPin lcd" "dataPins (lcd_advance lcd) = dataPins lcd"
  by (simp_all add: lcd_advance_def)

lemma lcd_advance_cursor: "lcd_ok lcd \<Longrightarrow> lcd_cursor (lcd_advance lcd) = (lcd_cursor lcd + 1) mod lcd_cells lcd"
proof (cases "cx lcd + 1 = lcd_cols lcd \<and> cy lcd + 1 = lcd_rows lcd")
  case True
  then have "lcd_cursor lcd + 1 = lcd_cells lcd"
    by (simp add: lcd_cursor_def lcd_cells_def algebra_simps flip: True)
  then show ?thesis using True by (simp add: lcd_advance_def lcd_cursor_def)
next
  case False
  assume ok: "lcd_ok lcd"
  have c: "lcd_cursor (lcd_advance lcd) = lcd_cursor lcd + 1"
    using False by (auto simp: lcd_advance_def lcd_cursor_def algebra_simps)
  then show ?thesis using lcd_cursor_range [OF lcd_ok_advance [OF ok]] by (simp add: lcd_cells_def)
qed

section \<open>The driver is the terminal\<close>

lemma next_address_inside:
  assumes "lcd_ok lcd" and "cx lcd + 1 \<noteq> lcd_cols lcd"
  shows "next_address (row_address (cy lcd) + nat (cx lcd)) = row_address (cy lcd) + nat (cx lcd + 1)"
  using assms row_cases [of "cy lcd"] by (auto simp: next_address_def row_address_def lcd_ok_def)

lemma char_display:
  fixes c
  assumes "in_step lcd d"
  defines "d' \<equiv> fold display_step (char_bytes lcd c) d"
  shows "in_step (lcd_advance lcd) d'" and "screen (lcd_advance lcd) d' = term_put (lcd_cells lcd) c (screen lcd d)"
proof -
  have ok: "lcd_ok lcd" and pins: "pins_ok lcd" and acd: "ac d = cell_address lcd (lcd_cursor lcd)"
    using assms(1) by (simp_all add: in_step_def)
  note ok' = lcd_ok_advance [OF ok]
  have y: "0 \<le> cy (lcd_advance lcd)" "cy (lcd_advance lcd) < 4" using ok' by (auto simp: lcd_ok_def)
  have ram: "ddram d' = (ddram d)(ac d := c)"
    using display_position [OF _ _ y, of 0] by (auto simp: d'_def char_bytes_def)
  have "ac d' = row_address (cy (lcd_advance lcd)) + nat (cx (lcd_advance lcd))"
  proof (cases "cx lcd + 1 = lcd_cols lcd")
    case True
    then show ?thesis using display_position [OF _ _ y, of 0] by (simp add: d'_def char_bytes_def lcd_advance_def)
  next
    case False
    then show ?thesis using next_address_inside [OF ok False] acd cell_address_cursor [OF ok]
      by (simp add: d'_def char_bytes_def lcd_advance_def)
  qed
  moreover have "pins_ok (lcd_advance lcd)" using pins by (simp add: pins_ok_def used_pins_def)
  ultimately show "in_step (lcd_advance lcd) d'" using ok' cell_address_cursor [OF ok'] by (simp add: in_step_def)
  have "cell_address lcd i = ac d \<longleftrightarrow> i = lcd_cursor lcd" if "0 \<le> i" "i < lcd_cells lcd" for i
    using cell_address_inj [OF ok that] lcd_cursor_range [OF ok] acd by auto
  then show "screen (lcd_advance lcd) d' = term_put (lcd_cells lcd) c (screen lcd d)"
    using ram lcd_advance_cursor [OF ok] lcd_cursor_range [OF ok]
    by (auto simp: screen_def term_put_def lcd_cells_def cell_address_def fun_eq_iff)
qed

text \<open>
  \<open>lcd_run fd s d s' d'\<close>: the driver went from \<open>s\<close> to \<open>s'\<close>, and the display on the handle \<open>fd\<close>, listening to the
  pins, from \<open>d\<close> to \<open>d'\<close>.
\<close>

definition same_wiring :: "lcdDataStruct \<Rightarrow> lcdDataStruct \<Rightarrow> bool" where
  "same_wiring a b \<longleftrightarrow> lcd_bits a = lcd_bits b \<and> lcd_rows a = lcd_rows b \<and> lcd_cols a = lcd_cols b \<and>
     rsPin a = rsPin b \<and> strbPin a = strbPin b \<and> dataPins a = dataPins b"

definition lcd_run :: "int \<Rightarrow> lcd_state \<Rightarrow> display \<Rightarrow> lcd_state \<Rightarrow> display \<Rightarrow> bool" where
  "lcd_run fd s d s' d' \<longleftrightarrow> (\<exists>lcd lcd' ops ms. lcd_at s fd = Some lcd \<and> lcd_at s' fd = Some lcd' \<and>
     same_wiring lcd lcd' \<and> lcd_ops s' = lcd_ops s @ ops \<and> says lcd ops ms \<and> d' = fold display_step ms d)"

text \<open>What the display makes of a call: the bytes it hears in the calls that were added.\<close>

definition display_after :: "(int \<Rightarrow> bool) \<Rightarrow> int \<Rightarrow> lcd_state \<Rightarrow> lcd_state \<Rightarrow> display \<Rightarrow> display" where
  "display_after lv fd s s' d =
     (case lcd_at s fd of None \<Rightarrow> d
      | Some lcd \<Rightarrow> fold display_step (heard lcd lv (drop (length (lcd_ops s)) (lcd_ops s'))) d)"

lemma lcd_run_display: "lcd_run fd s d s' d' \<Longrightarrow> display_after lv fd s s' d = d'"
  by (auto simp: lcd_run_def display_after_def says_heard)

lemma heard_same_wiring: "same_wiring a b \<Longrightarrow> heard a lv ops = heard b lv ops"
proof -
  assume w: "same_wiring a b"
  have "latched a lv ops = latched b lv ops"
  proof (induction ops arbitrary: lv)
    case (Cons op ops)
    then show ?case using w by (cases op) (auto simp: same_wiring_def used_pins_def simp del: fun_upd_apply)
  qed simp
  then show ?thesis using w by (simp add: heard_def same_wiring_def)
qed

lemma says_same_wiring: "same_wiring a b \<Longrightarrow> says a ops ms = says b ops ms"
  using heard_same_wiring [of a b] by (simp add: says_def)

lemma lcd_run_refl: "lcd_at s fd = Some lcd \<Longrightarrow> lcd_run fd s d s d"
  unfolding lcd_run_def same_wiring_def by (intro exI [of _ lcd] exI [of _ "[]"]) simp

lemma lcd_run_trans: "lcd_run fd s d s1 d1 \<Longrightarrow> lcd_run fd s1 d1 s2 d2 \<Longrightarrow> lcd_run fd s d s2 d2"
proof -
  assume "lcd_run fd s d s1 d1" "lcd_run fd s1 d1 s2 d2"
  then obtain a b c xs ys ms ns where
    "lcd_at s fd = Some a" "lcd_at s1 fd = Some b" "lcd_at s2 fd = Some c" and w: "same_wiring a b" "same_wiring b c"
    and o1: "lcd_ops s1 = lcd_ops s @ xs" "lcd_ops s2 = lcd_ops s1 @ ys"
    and sy: "says a xs ms" "says b ys ns" and ds: "d1 = fold display_step ms d" "d2 = fold display_step ns d1"
    by (auto simp: lcd_run_def)
  moreover have "same_wiring a c" using w by (simp add: same_wiring_def)
  moreover have "says a (xs @ ys) (ms @ ns)"
    using sy says_same_wiring [OF w(1)] by (blast intro: says_append)
  ultimately show ?thesis unfolding lcd_run_def
    by (intro exI [of _ a] exI [of _ c] exI [of _ "xs @ ys"] exI [of _ "ms @ ns"]) simp
qed

lemma lcd_at_put: "lcd_at s fd = Some lcd \<Longrightarrow> lcd_at (lcd_put fd lcd' ops s) fd = Some lcd'"
  by (auto simp: lcd_at_def lcd_put_def split: if_splits)

lemma lcd_run_put:
  "lcd_at s fd = Some lcd \<Longrightarrow> same_wiring lcd lcd' \<Longrightarrow> says lcd ops ms \<Longrightarrow>
   lcd_run fd s d (lcd_put fd lcd' ops s) (fold display_step ms d)"
  unfolding lcd_run_def by (auto simp: lcd_at_put) (auto simp: lcd_put_def)

lemma putchar_runs:
  assumes at: "lcd_at s fd = Some lcd" and st: "in_step lcd d"
  obtains s' d' where "lcdPutchar fd c s = Some s'" and "lcd_at s' fd = Some (lcd_advance lcd)"
    and "lcd_run fd s d s' d'" and "in_step (lcd_advance lcd) d'"
    and "screen (lcd_advance lcd) d' = term_put (lcd_cells lcd) c (screen lcd d)"
proof -
  obtain ops where o: "lcdPutchar fd c s = Some (lcd_put fd (lcd_advance lcd) ops s)" "says lcd ops (char_bytes lcd c)"
    using putchar_outcome [OF at] st by (auto simp: in_step_def)
  have "same_wiring lcd (lcd_advance lcd)" by (simp add: same_wiring_def)
  then show ?thesis using that [OF o(1)] lcd_at_put [OF at] lcd_run_put [OF at _ o(2), of _ d] char_display [OF st] by blast
qed

lemma puts_runs:
  assumes "lcd_at s fd = Some lcd" and "in_step lcd d" and "0 \<notin> set str"
  shows "\<exists>s' d' lcd'. lcdPuts fd str s = Some s' \<and> lcd_at s' fd = Some lcd' \<and> lcd_run fd s d s' d' \<and>
    in_step lcd' d' \<and> same_wiring lcd lcd' \<and> screen lcd' d' = fold (term_put (lcd_cells lcd)) str (screen lcd d)"
  using assms
proof (induction str arbitrary: s d lcd)
  case Nil
  then have "lcd_run fd s d s d" by (intro lcd_run_refl)
  then show ?case using Nil by (auto simp: same_wiring_def)
next
  case (Cons c str)
  obtain s1 d1 where p: "lcdPutchar fd c s = Some s1" "lcd_at s1 fd = Some (lcd_advance lcd)" "lcd_run fd s d s1 d1"
    "in_step (lcd_advance lcd) d1" "screen (lcd_advance lcd) d1 = term_put (lcd_cells lcd) c (screen lcd d)"
    using putchar_runs [OF Cons.prems(1,2)] .
  have n: "lcd_cells (lcd_advance lcd) = lcd_cells lcd" by (simp add: lcd_cells_def)
  obtain s' d' lcd' where r: "lcdPuts fd str s1 = Some s'" "lcd_at s' fd = Some lcd'" "lcd_run fd s1 d1 s' d'"
    "in_step lcd' d'" "same_wiring (lcd_advance lcd) lcd'"
    "screen lcd' d' = fold (term_put (lcd_cells lcd)) str (screen (lcd_advance lcd) d1)"
    using Cons.IH [OF p(2,4)] Cons.prems(3) n by auto
  have "same_wiring lcd lcd'" using r(5) by (simp add: same_wiring_def)
  then show ?case using p r lcd_run_trans [OF p(3) r(3)] Cons.prems(3) by auto
qed

lemma position_outcome:
  assumes "lcd_at s fd = Some lcd" and "pins_ok lcd" and "0 \<le> x" "x \<le> lcd_cols lcd" "0 \<le> y" "y \<le> lcd_rows lcd" "y < 4"
  shows "\<exists>ops. lcdPosition fd x y s = Some (lcd_put fd (lcd\<lparr>cx := x, cy := y\<rparr>) ops s) \<and>
    says lcd ops [(False, position_command x y)]"
proof -
  obtain off where off: "rowOff y = Some off"
    "\<forall>x. ucast (word_of_int x + (LCD_DGRAM OR off)) = position_command x y"
    using rowOff_command [OF assms(5,7)] .
  then show ?thesis using assms says_putCommand [OF assms(2), of "position_command x y"]
    by (auto simp: lcdPosition_def simp del: of_int_add)
qed

lemma position_runs:
  assumes at: "lcd_at s fd = Some lcd" and "pins_ok lcd" "lcd_rows lcd \<le> 4" "lcd_cols lcd \<le> 20"
    and "0 \<le> x" "x < lcd_cols lcd" "0 \<le> y" "y < lcd_rows lcd"
  obtains s' d' where "lcdPosition fd x y s = Some s'" and "lcd_at s' fd = Some (lcd\<lparr>cx := x, cy := y\<rparr>)"
    and "lcd_run fd s d s' d'" and "in_step (lcd\<lparr>cx := x, cy := y\<rparr>) d'"
    and "screen (lcd\<lparr>cx := x, cy := y\<rparr>) d' = (screen lcd d)\<lparr>cursor := y * lcd_cols lcd + x\<rparr>"
proof -
  let ?lcd = "lcd\<lparr>cx := x, cy := y\<rparr>"
  let ?d = "display_step (False, position_command x y) d"
  obtain ops where o: "lcdPosition fd x y s = Some (lcd_put fd ?lcd ops s)" "says lcd ops [(False, position_command x y)]"
    using position_outcome [OF at, of x y] assms by auto
  have ok: "lcd_ok ?lcd" using assms by (simp add: lcd_ok_def)
  have "?d = d\<lparr>ac := row_address y + nat x\<rparr>" using assms by (intro display_position) auto
  moreover have "cell_address ?lcd = cell_address lcd" by (simp add: cell_address_def fun_eq_iff)
  ultimately have "in_step ?lcd ?d" "screen ?lcd ?d = (screen lcd d)\<lparr>cursor := y * lcd_cols lcd + x\<rparr>"
    using ok cell_address_cursor [OF ok] assms(2)
    by (simp_all add: in_step_def pins_ok_def used_pins_def screen_def lcd_cells_def lcd_cursor_def fun_eq_iff del: display_step.simps)
  then show ?thesis using that [OF o(1)] lcd_at_put [OF at, of ?lcd ops] lcd_run_put [OF at _ o(2), of ?lcd d]
    by (simp add: same_wiring_def)
qed

section \<open>The interface of a text display\<close>

text \<open>
  What a client of a display with \<open>rows\<close> lines of \<open>cols\<close> characters relies on: the cursor can be set to
  any cell, and text goes to the cells from the cursor on, in reading order, wrapping at the end.
\<close>

locale text_display =
  fixes rows cols :: int
    and shows_on :: "'s \<Rightarrow> terminal \<Rightarrow> bool"
    and position :: "int \<Rightarrow> int \<Rightarrow> 's \<Rightarrow> 's option"
    and puts :: "byte list \<Rightarrow> 's \<Rightarrow> 's option"
  assumes cursor_range: "shows_on s t \<Longrightarrow> 0 \<le> cursor t \<and> cursor t < rows * cols"
    and position_law: "shows_on s t \<Longrightarrow> 0 \<le> x \<Longrightarrow> x < cols \<Longrightarrow> 0 \<le> y \<Longrightarrow> y < rows \<Longrightarrow>
      \<exists>s'. position x y s = Some s' \<and> shows_on s' (t\<lparr>cursor := y * cols + x\<rparr>)"
    and puts_law: "shows_on s t \<Longrightarrow> 0 \<notin> set str \<Longrightarrow>
      \<exists>s'. puts str s = Some s' \<and> shows_on s' (fold (term_put (rows * cols)) str t)"
begin

definition write_line :: "int \<Rightarrow> byte list \<Rightarrow> 's \<Rightarrow> 's option" where
  "write_line y str s = do { s1 \<leftarrow> position 0 y s; puts str s1 }"

lemma write_line_shows:
  assumes "shows_on s t" and "0 \<le> y" "y < rows" "0 < cols" and "0 \<notin> set str"
  shows "\<exists>s'. write_line y str s = Some s' \<and> shows_on s' (fold (term_put (rows * cols)) str (t\<lparr>cursor := y * cols\<rparr>))"
proof -
  obtain s1 where "position 0 y s = Some s1" "shows_on s1 (t\<lparr>cursor := y * cols + 0\<rparr>)"
    using position_law [OF assms(1), of 0 y] assms by blast
  then show ?thesis using puts_law [OF _ assms(5), of s1] by (auto simp: write_line_def)
qed

lemma two_lines_show:
  assumes "shows_on s t" and "1 < rows" "0 < cols" and "0 \<notin> set a" "0 \<notin> set b"
  shows "\<exists>s'. do { s1 \<leftarrow> write_line 0 a s; write_line 1 b s1 } = Some s' \<and>
    shows_on s' (fold (term_put (rows * cols)) b ((fold (term_put (rows * cols)) a (t\<lparr>cursor := 0\<rparr>))\<lparr>cursor := cols\<rparr>))"
proof -
  obtain s1 where s1: "write_line 0 a s = Some s1" "shows_on s1 (fold (term_put (rows * cols)) a (t\<lparr>cursor := 0\<rparr>))"
    using write_line_shows [OF assms(1), of 0 a] assms by auto
  then show ?thesis using write_line_shows [OF s1(2), of 1 b] assms by auto
qed

end

text \<open>
  The driver seen from a starting point \<open>s0\<close>, with the display then in state \<open>d0\<close>: the screen is what the
  display on the handle's pins shows by now.
\<close>

definition lcd_shows :: "int \<Rightarrow> int \<Rightarrow> int \<Rightarrow> lcd_state \<Rightarrow> display \<Rightarrow> lcd_state \<Rightarrow> terminal \<Rightarrow> bool" where
  "lcd_shows rows cols fd s0 d0 s t \<longleftrightarrow> (\<exists>lcd d. lcd_run fd s0 d0 s d \<and> lcd_at s fd = Some lcd \<and>
     lcd_rows lcd = rows \<and> lcd_cols lcd = cols \<and> in_step lcd d \<and> screen lcd d = t)"

interpretation hd44780: text_display rows cols "lcd_shows rows cols fd s0 d0" "lcdPosition fd" "lcdPuts fd"
  for rows cols fd s0 d0
proof unfold_locales
  fix s t assume "lcd_shows rows cols fd s0 d0 s t"
  then show "0 \<le> cursor t \<and> cursor t < rows * cols"
    using lcd_cursor_range by (auto simp: lcd_shows_def in_step_def screen_def lcd_cells_def)
next
  fix s t x y
  assume "lcd_shows rows cols fd s0 d0 s t" and xy: "0 \<le> x" "x < cols" "0 \<le> y" "y < rows"
  then obtain lcd d where at: "lcd_at s fd = Some lcd" and run: "lcd_run fd s0 d0 s d"
    and l: "lcd_rows lcd = rows" "lcd_cols lcd = cols" "in_step lcd d" "screen lcd d = t" by (auto simp: lcd_shows_def)
  obtain s' d' where p: "lcdPosition fd x y s = Some s'" "lcd_at s' fd = Some (lcd\<lparr>cx := x, cy := y\<rparr>)"
    "lcd_run fd s d s' d'" "in_step (lcd\<lparr>cx := x, cy := y\<rparr>) d'"
    "screen (lcd\<lparr>cx := x, cy := y\<rparr>) d' = (screen lcd d)\<lparr>cursor := y * lcd_cols lcd + x\<rparr>"
    using position_runs [OF at, of x y d] l xy by (auto simp: in_step_def lcd_ok_def)
  then show "\<exists>s'. lcdPosition fd x y s = Some s' \<and> lcd_shows rows cols fd s0 d0 s' (t\<lparr>cursor := y * cols + x\<rparr>)"
    using l lcd_run_trans [OF run p(3)] unfolding lcd_shows_def by fastforce
next
  fix s t and str :: "byte list"
  assume "lcd_shows rows cols fd s0 d0 s t" and str: "0 \<notin> set str"
  then obtain lcd d where at: "lcd_at s fd = Some lcd" and run: "lcd_run fd s0 d0 s d"
    and l: "lcd_rows lcd = rows" "lcd_cols lcd = cols" "in_step lcd d" "screen lcd d = t" by (auto simp: lcd_shows_def)
  obtain s' d' lcd' where p: "lcdPuts fd str s = Some s'" "lcd_at s' fd = Some lcd'"
    "lcd_run fd s d s' d'" "in_step lcd' d'" "same_wiring lcd lcd'"
    "screen lcd' d' = fold (term_put (lcd_cells lcd)) str (screen lcd d)"
    using puts_runs [OF at l(3) str] by blast
  then show "\<exists>s'. lcdPuts fd str s = Some s' \<and> lcd_shows rows cols fd s0 d0 s' (fold (term_put (rows * cols)) str t)"
    using l lcd_run_trans [OF run p(3)] unfolding lcd_shows_def by (fastforce simp: lcd_cells_def same_wiring_def)
qed

lemma lcd_shows_start:
  "lcd_at s fd = Some lcd \<Longrightarrow> in_step lcd d \<Longrightarrow>
   lcd_shows (lcd_rows lcd) (lcd_cols lcd) fd s d s (screen lcd d)"
  unfolding lcd_shows_def using lcd_run_refl [of s fd lcd d] by blast

lemma lcd_shows_display:
  "lcd_shows rows cols fd s d s' t \<Longrightarrow> \<exists>lcd. lcd_at s' fd = Some lcd \<and> lcd_rows lcd = rows \<and> lcd_cols lcd = cols \<and>
     in_step lcd (display_after lv fd s s' d) \<and> screen lcd (display_after lv fd s s' d) = t"
  using lcd_run_display by (force simp: lcd_shows_def)

section \<open>Initialisation leaves a blank display in step\<close>

definition blank :: display where
  "blank = \<lparr>ddram = (\<lambda>_. 0x20), ac = 0\<rparr>"

lemma take_bit_3_iff: "take_bit 3 c = (c :: cint) \<longleftrightarrow> (\<forall>n. bit c n \<longrightarrow> n < 3)"
proof
  assume "take_bit 3 c = c"
  then show "\<forall>n. bit c n \<longrightarrow> n < 3" by (metis bit_take_bit_iff)
next
  assume "\<forall>n. bit c n \<longrightarrow> n < 3"
  then show "take_bit 3 c = c" by (intro bit_word_eqI) (auto simp: bit_take_bit_iff)
qed

lemma control_command:
  assumes "take_bit 3 c = (c :: cint)"
  shows "display_step (False, ucast (LCD_CTRL OR c)) d = d"
proof -
  have c: "\<not> bit c n" if "3 \<le> n" for n using assms that by (auto simp: take_bit_3_iff)
  have b3: "bit (ucast (LCD_CTRL OR c) :: byte) 3" "\<not> bit (ucast (LCD_CTRL OR c) :: byte) 7"
    using c by (simp_all add: bit_simps)
  then have "ucast (LCD_CTRL OR c) \<noteq> LCD_CLEAR" "ucast (LCD_CTRL OR c) \<noteq> LCD_HOME" by auto
  then show ?thesis using b3 by simp
qed

definition control_ok :: "lcd_state \<Rightarrow> bool" where
  "control_ok s \<longleftrightarrow> take_bit 3 (lcdControl s) = lcdControl s"

lemma lcd_at_control [simp]: "lcd_at (s\<lparr>lcdControl := c\<rparr>) fd = lcd_at s fd"
  by (simp add: lcd_at_def)

lemma control_runs:
  assumes at: "lcd_at s fd = Some lcd" and "pins_ok lcd" and "control_ok s" and "flag = 1 \<or> flag = 2 \<or> flag = 4"
  shows "\<exists>s'. lcd_control flag fd st s = Some s' \<and> lcd_at s' fd = Some lcd \<and> control_ok s' \<and>
    (\<forall>d. lcd_run fd s d s' d)"
proof -
  define c where "c = (if st \<noteq> 0 then lcdControl s OR flag else lcdControl s AND NOT flag)"
  have "take_bit 3 flag = flag" using assms(4) by auto
  then have c: "take_bit 3 c = c"
    using assms(3) unfolding c_def control_ok_def take_bit_3_iff by (auto simp: bit_or_iff bit_and_iff)
  let ?s = "lcd_put fd lcd (putCommand lcd (ucast (LCD_CTRL OR c))) (s\<lparr>lcdControl := c\<rparr>)"
  have at': "lcd_at (s\<lparr>lcdControl := c\<rparr>) fd = Some lcd" using at by simp
  have "lcd_run fd (s\<lparr>lcdControl := c\<rparr>) d ?s d" for d
    using lcd_run_put [OF at' _ says_putCommand [OF assms(2), of "ucast (LCD_CTRL OR c)"], of lcd d] control_command [OF c]
    by (simp add: same_wiring_def del: display_step.simps)
  then have "\<forall>d. lcd_run fd s d ?s d" by (simp add: lcd_run_def)
  moreover have "lcd_control flag fd st s = Some ?s" using at by (simp add: lcd_control_def c_def Let_def)
  moreover have "control_ok ?s" using c by (simp add: control_ok_def lcd_put_def)
  ultimately show ?thesis using lcd_at_put [OF at'] by auto
qed

lemma command_runs:
  assumes at: "lcd_at s fd = Some lcd" and "pins_ok lcd" and "display_step (False, c) d = d"
  shows "\<exists>s'. lcdSendCommand fd c s = Some s' \<and> lcd_at s' fd = Some lcd \<and> lcd_run fd s d s' d"
  using lcd_run_put [OF at _ says_putCommand [OF assms(2), of c], of lcd d] lcd_at_put [OF at] assms(1,3)
  by (auto simp: lcdSendCommand_def same_wiring_def simp del: display_step.simps)

lemma clear_runs:
  assumes at: "lcd_at s fd = Some lcd" and "pins_ok lcd"
  shows "\<exists>s'. lcdClear fd s = Some s' \<and> lcd_at s' fd = Some (lcd\<lparr>cx := 0, cy := 0\<rparr>) \<and>
    (\<forall>d. lcd_run fd s d s' blank)"
proof -
  have "says lcd [Delay 5] []" by (simp add: says_def heard_def)
  then have sy: "says lcd (putCommand lcd LCD_CLEAR @ putCommand lcd LCD_HOME @ [Delay 5])
      ([(False, LCD_CLEAR)] @ [(False, LCD_HOME)] @ [])"
    using assms(2) by (intro says_append says_putCommand) auto
  show ?thesis
    using lcd_run_put [OF at _ sy, of "lcd\<lparr>cx := 0, cy := 0\<rparr>"] lcd_at_put [OF at] at
    by (auto simp: lcdClear_def same_wiring_def blank_def)
qed

definition init_pins :: "int \<Rightarrow> int \<Rightarrow> int list \<Rightarrow> gpio_op list" where
  "init_pins rs strb ps = [DigitalWrite rs 0, PinMode rs GPIO_OUTPUT, DigitalWrite strb 0, PinMode strb GPIO_OUTPUT] @
     concat (map (\<lambda>p. [DigitalWrite p 0, PinMode p GPIO_OUTPUT]) ps)"

lemma latched_low: "strbPin lcd \<notin> set ps \<Longrightarrow>
   latched lcd lv (concat (map (\<lambda>p. [DigitalWrite p 0, PinMode p GPIO_OUTPUT]) ps)) = []"
  by (induction ps arbitrary: lv) auto

lemma heard_init_pins:
  assumes "pins_ok lcd" and "\<not> lv (strbPin lcd)"
  shows "heard lcd lv (init_pins (rsPin lcd) (strbPin lcd) (used_pins lcd) @ rest) =
    heard lcd (fold level_step (init_pins (rsPin lcd) (strbPin lcd) (used_pins lcd)) lv) rest"
  using assms latched_low [of lcd "used_pins lcd"]
  by (auto simp: heard_def latched_append init_pins_def pins_ok_def simp del: fun_upd_apply) (simp_all)

lemma heard_mode:
  assumes "pins_ok lcd" and "lcd_bits lcd = bits" and "lcd0 = lcd\<lparr>lcd_bits := 8\<rparr>"
  shows "\<exists>ms. says lcd (lcd_mode_ops lcd0 bits) ms \<and> (\<forall>d. fold display_step ms d = d)"
proof (cases "bits = 4")
  case True
  have dp: "distinct (rsPin lcd # strbPin lcd # used_pins lcd)" and l: "length (used_pins lcd) = 4"
    using assms(1,2) True by (simp_all add: pins_ok_def used_pins_def)
  have p: "put4Command lcd0 c = DigitalWrite (rsPin lcd) 0 # bus_transfer lcd c" for c
    using assms(2,3) True by (simp add: put4Command_def bus_transfer_def used_pins_def strobe_def)
  have "says lcd (lcd_mode_ops lcd0 bits) [(False, 0x33), (False, 0x32)]"
    unfolding says_def using True assms(2) latched_group [OF dp] l dp
    by (simp add: lcd_mode_ops_def p heard_def latched_append bus_value_bits del: fun_upd_apply upt_Suc) auto
  then show ?thesis by (intro exI [of _ "[(False, 0x33), (False, 0x32)]"]) simp
next
  case False
  have l8: "lcd0 = lcd" using assms False by (auto simp: pins_ok_def)
  have dl: "says lcd [Delay 35] []" by (simp add: says_def heard_def)
  have "says lcd (lcd_mode_ops lcd bits) ([(False, 0x30)] @ [] @ [(False, 0x30)] @ [] @ [(False, 0x30)] @ [])"
    unfolding lcd_mode_ops_def Let_def using False
    using dl says_putCommand [OF assms(1), of "0x30"] by (simp only: if_False) (intro says_append; simp)
  then show ?thesis using l8 by (intro exI [of _ "[(False, 0x30), (False, 0x30), (False, 0x30)]"]) simp
qed

lemma init_tail_runs:
  assumes at: "lcd_at s fd = Some lcd" and "pins_ok lcd" and "control_ok s"
  shows "\<exists>s'. do { s2 \<leftarrow> lcdDisplay fd 1 s; s3 \<leftarrow> lcdCursor fd 0 s2; s4 \<leftarrow> lcdCursorBlink fd 0 s3; s5 \<leftarrow> lcdClear fd s4;
      s6 \<leftarrow> lcdSendCommand fd (LCD_ENTRY OR LCD_ENTRY_ID) s5; s7 \<leftarrow> lcdSendCommand fd (LCD_CDSHIFT OR LCD_CDSHIFT_RL) s6;
      Some (fd, s7) } = Some (fd, s') \<and> lcd_at s' fd = Some (lcd\<lparr>cx := 0, cy := 0\<rparr>) \<and>
    (\<forall>d. lcd_run fd s d s' blank)"
proof -
  obtain s2 where s2: "lcdDisplay fd 1 s = Some s2" "lcd_at s2 fd = Some lcd" "control_ok s2" "\<forall>d. lcd_run fd s d s2 d"
    using control_runs [OF at assms(2,3), of 4] by (auto simp: lcdDisplay_def)
  obtain s3 where s3: "lcdCursor fd 0 s2 = Some s3" "lcd_at s3 fd = Some lcd" "control_ok s3" "\<forall>d. lcd_run fd s2 d s3 d"
    using control_runs [OF s2(2) assms(2) s2(3), of 2] by (auto simp: lcdCursor_def)
  obtain s4 where s4: "lcdCursorBlink fd 0 s3 = Some s4" "lcd_at s4 fd = Some lcd" "\<forall>d. lcd_run fd s3 d s4 d"
    using control_runs [OF s3(2) assms(2) s3(3), of 1] by (auto simp: lcdCursorBlink_def)
  let ?lcd = "lcd\<lparr>cx := 0, cy := 0\<rparr>"
  have p: "pins_ok ?lcd" using assms(2) by (simp add: pins_ok_def used_pins_def)
  obtain s5 where s5: "lcdClear fd s4 = Some s5" "lcd_at s5 fd = Some ?lcd" "\<forall>d. lcd_run fd s4 d s5 blank"
    using clear_runs [OF s4(2) assms(2)] by blast
  obtain s6 where s6: "lcdSendCommand fd 6 s5 = Some s6" "lcd_at s6 fd = Some ?lcd" "lcd_run fd s5 blank s6 blank"
    using command_runs [OF s5(2) p, of 6 blank] by auto
  obtain s7 where s7: "lcdSendCommand fd 20 s6 = Some s7" "lcd_at s7 fd = Some ?lcd" "lcd_run fd s6 blank s7 blank"
    using command_runs [OF s6(2) p, of 20 blank] by auto
  have "\<forall>d. lcd_run fd s d s7 blank"
    using s2(4) s3(4) s4(3) s5(3) s6(3) s7(3) by (blast intro: lcd_run_trans)
  then show ?thesis using s2 s3 s4 s5 s6 s7 by simp
qed

lemma first_free_range: "first_free ls i \<noteq> -1 \<Longrightarrow> int i \<le> first_free ls i \<and> first_free ls i < int (i + length ls) \<and>
   ls ! (nat (first_free ls i) - i) = None"
proof (induction ls i rule: first_free.induct)
  case (3 x ls i)
  then have h: "int (Suc i) \<le> first_free ls (Suc i)" "first_free ls (Suc i) < int (Suc i + length ls)"
    "ls ! (nat (first_free ls (Suc i)) - Suc i) = None" by auto
  then have "nat (first_free ls (Suc i)) - i = Suc (nat (first_free ls (Suc i)) - Suc i)" by linarith
  then show ?case using h by simp
qed simp_all

lemma init_head:
  assumes "pins_ok lcd" and "lcd_bits lcd = bits" and "\<not> lv (strbPin lcd)" and "\<not> bit func 7" "1 < func" "func \<noteq> 2"
  shows "\<exists>ms. (\<forall>d. fold display_step ms d = d) \<and> (\<forall>rest. \<exists>lv'.
    heard lcd lv ((init_pins (rsPin lcd) (strbPin lcd) (used_pins lcd) @ [Delay 35] @ lcd_mode_ops (lcd\<lparr>lcd_bits := 8\<rparr>) bits @
      (if many then putCommand lcd func @ [Delay 35] else [])) @ rest) = ms @ heard lcd lv' rest)"
proof -
  obtain ms where ms: "says lcd (lcd_mode_ops (lcd\<lparr>lcd_bits := 8\<rparr>) bits) ms" "\<forall>d. fold display_step ms d = d"
    using heard_mode [OF assms(1,2) refl] by blast
  have dl: "says lcd [Delay 35] []" by (simp add: says_def heard_def)
  let ?ns = "if many then [(False, func)] else []"
  have ns: "says lcd (if many then putCommand lcd func @ [Delay 35] else []) ?ns"
    using says_append [OF says_putCommand [OF assms(1), of func] dl] by simp
  have sy: "says lcd ([Delay 35] @ lcd_mode_ops (lcd\<lparr>lcd_bits := 8\<rparr>) bits @
      (if many then putCommand lcd func @ [Delay 35] else [])) ([] @ ms @ ?ns)"
    by (intro says_append dl ms(1) ns)
  have "fold display_step (ms @ ?ns) d = d" for d using ms(2) assms(4-6) by auto
  moreover have "\<exists>lv'. heard lcd lv ((init_pins (rsPin lcd) (strbPin lcd) (used_pins lcd) @ [Delay 35] @
      lcd_mode_ops (lcd\<lparr>lcd_bits := 8\<rparr>) bits @ (if many then putCommand lcd func @ [Delay 35] else [])) @ rest) =
      (ms @ ?ns) @ heard lcd lv' rest" for rest
    using heard_init_pins [of lcd lv, OF assms(1,3)] sy unfolding says_def append_assoc append_Nil by metis
  ultimately show ?thesis by blast
qed

lemma lcdInit_says:
  assumes "lcd_initialised s" and "first_free (lcds s) 0 = fd" "fd \<noteq> -1" and "bits = 4 \<or> bits = 8"
    and "0 < rows" "rows \<le> 4" "0 < cols" "cols \<le> 20" and "control_ok s"
    and lcd: "lcd = \<lparr>lcd_bits = bits, lcd_rows = rows, lcd_cols = cols, rsPin = rs, strbPin = strb,
                dataPins = pins, cx = 0, cy = 0\<rparr>" and "pins_ok lcd"
  shows "\<exists>s'. lcdInit True rows cols bits rs strb pins s = Some (fd, s') \<and> lcd_at s' fd = Some lcd \<and>
    (\<forall>lv d. \<not> lv strb \<longrightarrow> (\<exists>ms. fold display_step ms d = blank \<and>
       (\<forall>rest. \<exists>lv'. heard lcd lv (drop (length (lcd_ops s)) (lcd_ops s') @ rest) = ms @ heard lcd lv' rest)))"
proof -
  define func where "func = (if bits = 4 then LCD_FUNC else LCD_FUNC OR LCD_FUNC_DL) OR LCD_FUNC_N"
  let ?head = "init_pins rs strb (take (nat bits) pins) @ [Delay 35] @ lcd_mode_ops (lcd\<lparr>lcd_bits := 8\<rparr>) bits @
      (if rows > 1 then putCommand lcd func @ [Delay 35] else [])"
  let ?s = "lcd_put fd lcd ?head s"
  have r: "0 \<le> fd" "nat fd < length (lcds s)" using first_free_range [of "lcds s" 0] assms(2,3) by auto
  have at: "lcd_at ?s fd = Some lcd" using r by (simp add: lcd_at_def lcd_put_def)
  have co: "control_ok ?s" using assms(9) by (simp add: control_ok_def lcd_put_def)
  obtain s' where s': "do { s2 \<leftarrow> lcdDisplay fd 1 ?s; s3 \<leftarrow> lcdCursor fd 0 s2; s4 \<leftarrow> lcdCursorBlink fd 0 s3; s5 \<leftarrow> lcdClear fd s4;
      s6 \<leftarrow> lcdSendCommand fd (LCD_ENTRY OR LCD_ENTRY_ID) s5; s7 \<leftarrow> lcdSendCommand fd (LCD_CDSHIFT OR LCD_CDSHIFT_RL) s6;
      Some (fd, s7) } = Some (fd, s')" "lcd_at s' fd = Some (lcd\<lparr>cx := 0, cy := 0\<rparr>)" "\<forall>d. lcd_run fd ?s d s' blank"
    using init_tail_runs [OF at assms(11) co] by blast
  have "lcdInit True rows cols bits rs strb pins s = Some (fd, s')"
    using s'(1) assms(1-8) lcd unfolding lcdInit_def Let_def init_pins_def func_def by auto
  moreover have "lcd_at s' fd = Some lcd" using s'(2) lcd by simp
  moreover have "\<exists>ms. fold display_step ms d = blank \<and>
       (\<forall>rest. \<exists>lv'. heard lcd lv (drop (length (lcd_ops s)) (lcd_ops s') @ rest) = ms @ heard lcd lv' rest)" if low: "\<not> lv strb" for lv d
  proof -
    have "bits = lcd_bits lcd" "rs = rsPin lcd" "strb = strbPin lcd" "take (nat bits) pins = used_pins lcd"
      using lcd by (simp_all add: used_pins_def)
    moreover have "\<not> bit func 7" "1 < func" "func \<noteq> 2" by (cases "bits = 4"; simp add: func_def)+
    ultimately obtain ms where ms: "\<forall>d. fold display_step ms d = d" "\<forall>rest. \<exists>lv'. heard lcd lv (?head @ rest) = ms @ heard lcd lv' rest"
      using init_head [OF assms(11) refl, of lv func "rows > 1"] low by auto
    obtain ops ns where ops: "lcd_ops s' = lcd_ops ?s @ ops" "says lcd ops ns" "fold display_step ns d = blank"
      using s'(3) [THEN spec, of d] at by (auto simp: lcd_run_def)
    have "drop (length (lcd_ops s)) (lcd_ops s') = ?head @ ops" using ops(1) by (simp add: lcd_put_def)
    moreover have "\<exists>lv'. heard lcd lv ((?head @ ops) @ rest) = (ms @ ns) @ heard lcd lv' rest" for rest
      using ms(2) ops(2) unfolding says_def append_assoc by metis
    moreover have "fold display_step (ms @ ns) d = blank" using ms(1) ops(3) by simp
    ultimately show ?thesis by (intro exI [of _ "ms @ ns"]) simp
  qed
  ultimately show ?thesis by blast
qed

lemma lcdInit_runs:
  assumes "lcd_initialised s" and "first_free (lcds s) 0 = fd" "fd \<noteq> -1" and "bits = 4 \<or> bits = 8"
    and "0 < rows" "rows \<le> 4" "0 < cols" "cols \<le> 20" and "control_ok s"
    and lcd: "lcd = \<lparr>lcd_bits = bits, lcd_rows = rows, lcd_cols = cols, rsPin = rs, strbPin = strb,
                dataPins = pins, cx = 0, cy = 0\<rparr>" and "pins_ok lcd"
  shows "\<exists>s'. lcdInit True rows cols bits rs strb pins s = Some (fd, s') \<and> lcd_at s' fd = Some lcd \<and>
    (\<forall>lv d. \<not> lv strb \<longrightarrow> fold display_step (heard lcd lv (drop (length (lcd_ops s)) (lcd_ops s'))) d = blank)"
proof -
  obtain s' where s': "lcdInit True rows cols bits rs strb pins s = Some (fd, s')" "lcd_at s' fd = Some lcd"
    "\<forall>lv d. \<not> lv strb \<longrightarrow> (\<exists>ms. fold display_step ms d = blank \<and>
       (\<forall>rest. \<exists>lv'. heard lcd lv (drop (length (lcd_ops s)) (lcd_ops s') @ rest) = ms @ heard lcd lv' rest))"
    using lcdInit_says [OF assms] by blast
  have "fold display_step (heard lcd lv (drop (length (lcd_ops s)) (lcd_ops s'))) d = blank" if low: "\<not> lv strb" for lv d
  proof -
    obtain ms where ms: "fold display_step ms d = blank"
      "\<forall>rest. \<exists>lv'. heard lcd lv (drop (length (lcd_ops s)) (lcd_ops s') @ rest) = ms @ heard lcd lv' rest"
      using s'(3) low by blast
    then obtain lv' where "heard lcd lv (drop (length (lcd_ops s)) (lcd_ops s') @ []) = ms @ heard lcd lv' []"
      by blast
    with ms(1) show ?thesis by (simp add: heard_def)
  qed
  then show ?thesis using s'(1,2) by blast
qed

section \<open>Text on the terminal\<close>

definition row_text :: "int \<Rightarrow> terminal \<Rightarrow> int \<Rightarrow> byte list" where
  "row_text cols t y = map (\<lambda>i. cells t (y * cols + int i)) [0..<nat cols]"

lemma term_puts:
  assumes "0 \<le> cursor t" and "cursor t < n" and "cursor t + int (length str) \<le> n"
  shows "cells (fold (term_put n) str t) i =
      (if cursor t \<le> i \<and> i < cursor t + int (length str) then str ! nat (i - cursor t) else cells t i)"
    and "cursor (fold (term_put n) str t) = (cursor t + int (length str)) mod n"
  using assms
proof (induction str arbitrary: t)
  case Nil
  {
    case 1
    show ?case by auto
  next
    case 2
    then show ?case by simp
  }
next
  case (Cons c str)
  {
    case 1
    let ?t = "term_put n c t"
    show ?case
    proof (cases str)
      case Nil
      then show ?thesis by (simp add: term_put_def)
    next
      case (Cons c' str')
      then have n: "cursor t + 1 < n" using 1 by simp
      then have "cursor ?t = cursor t + 1" using 1 by (simp add: term_put_def)
      moreover have "cells ?t = (cells t)(cursor t := c)" by (simp add: term_put_def)
      moreover have "nat (i - cursor t) = Suc (nat (i - (cursor t + 1)))" if "cursor t < i" using that by linarith
      ultimately show ?thesis using Cons.IH(1) [of ?t] 1 n by auto
    qed
  next
    case 2
    let ?t = "term_put n c t"
    show ?case
    proof (cases str)
      case Nil
      then show ?thesis by (simp add: term_put_def)
    next
      case (Cons c' str')
      then have n: "cursor t + 1 < n" using 2 by simp
      then have "cursor ?t = cursor t + 1" using 2 by (simp add: term_put_def)
      then show ?thesis using Cons.IH(2) [of ?t] 2 n by (simp add: algebra_simps)
    qed
  }
qed

section \<open>Properties\<close>

text \<open>
  C28. Whatever the wiring mode, four data pins or eight, a byte sent with \<^verbatim>\<open>sendDataCmd\<close> is the byte the display
  latches, with the register select level in force: writing a character after raising the pin is
  heard as data, \<^verbatim>\<open>putCommand\<close> as a command.
\<close>

theorem bus_roundtrip:
  assumes "pins_ok lcd"
  shows "heard lcd lv (sendDataCmd lcd b) = [(lv (rsPin lcd), b)] \<and> heard lcd lv (putCommand lcd b) = [(False, b)]"
  using heard_send [OF assms, of lv b "[]"] says_heard [OF says_putCommand [OF assms]] by (simp add: heard_def)

definition demo_lcd :: lcdDataStruct where
  "demo_lcd = \<lparr>lcd_bits = 4, lcd_rows = 2, lcd_cols = 16, rsPin = 29, strbPin = 25,
     dataPins = [24, 23, 22, 21, 0, 0, 0, 0], cx = 0, cy = 0\<rparr>"

lemma demo_lcd_ok: "pins_ok demo_lcd" "lcd_ok demo_lcd" "in_step demo_lcd blank"
  by (simp_all add: demo_lcd_def pins_ok_def used_pins_def lcd_ok_def in_step_def blank_def lcd_cursor_def
      cell_address_def row_address_def)

theorem bus_roundtrip_witness: "heard demo_lcd (\<lambda>_. False) (sendDataCmd demo_lcd 65) = [(False, 65)]"
  using bus_roundtrip [OF demo_lcd_ok(1), of "\<lambda>_. False" 65] by simp

text \<open>
  C6. \<^verbatim>\<open>lcdPuts\<close> is the terminal its comment describes: as long as the driver's cursor agrees with the display's
  address counter, every text is put, the cells of the screen change as on an abstract terminal with
  line wrapping, and cursor and counter still agree.
\<close>

theorem puts_is_terminal:
  assumes "lcd_at s fd = Some lcd" and "in_step lcd d" and "0 \<notin> set str"
  shows "\<exists>s' lcd'. lcdPuts fd str s = Some s' \<and> lcd_at s' fd = Some lcd' \<and>
    in_step lcd' (display_after lv fd s s' d) \<and>
    screen lcd' (display_after lv fd s s' d) = fold (term_put (lcd_cells lcd)) str (screen lcd d)"
  using puts_runs [OF assms] lcd_run_display by metis

definition demo_state :: lcd_state where
  "demo_state = lcd_start\<lparr>lcd_initialised := True, lcds := Some demo_lcd # None # replicate 6 None\<rparr>"

lemma demo_at: "lcd_at demo_state 0 = Some demo_lcd"
  by (simp add: lcd_at_def demo_state_def)

theorem puts_is_terminal_witness:
  "\<exists>s' lcd'. lcdPuts 0 [72, 105] demo_state = Some s' \<and> lcd_at s' 0 = Some lcd' \<and>
     screen lcd' (display_after (\<lambda>_. False) 0 demo_state s' blank) = fold (term_put 32) [72, 105] (screen demo_lcd blank)"
  using puts_is_terminal [OF demo_at demo_lcd_ok(3), of "[72, 105]" "\<lambda>_. False"]
  by (auto simp: lcd_cells_def demo_lcd_def)

text \<open>
  \<^verbatim>\<open>lcdInit\<close> with a supported geometry and distinct pins returns the first free handle, stores the display's
  description under it, and leaves the display blank with the cursor in its first cell, in 4-bit
  as in 8-bit mode, provided the strobe pin was low.
\<close>

theorem init_ready:
  assumes "lcd_initialised s" and "first_free (lcds s) 0 = fd" "fd \<noteq> -1" and "bits = 4 \<or> bits = 8"
    and "0 < rows" "rows \<le> 4" "0 < cols" "cols \<le> 20" and "control_ok s"
    and "lcd = \<lparr>lcd_bits = bits, lcd_rows = rows, lcd_cols = cols, rsPin = rs, strbPin = strb,
           dataPins = pins, cx = 0, cy = 0\<rparr>" and "pins_ok lcd"
  shows "\<exists>s'. lcdInit True rows cols bits rs strb pins s = Some (fd, s') \<and> lcd_at s' fd = Some lcd \<and>
    (\<forall>lv d. \<not> lv strb \<longrightarrow> fold display_step (heard lcd lv (drop (length (lcd_ops s)) (lcd_ops s'))) d = blank)"
  using assms by (rule lcdInit_runs)

theorem init_ready_witness:
  "\<exists>s'. lcdInit True 2 16 4 29 25 [24, 23, 22, 21, 0, 0, 0, 0] demo_state = Some (1, s') \<and> lcd_at s' 1 = Some demo_lcd"
proof -
  have a: "lcd_initialised demo_state" "first_free (lcds demo_state) 0 = 1" "control_ok demo_state"
    by (simp_all add: demo_state_def lcd_start_def control_ok_def)
  from init_ready [OF a(1,2) _ _ _ _ _ _ a(3) demo_lcd_def demo_lcd_ok(1)] show ?thesis by fastforce
qed

text \<open>
  \<^verbatim>\<open>lcdInit\<close> fails with -1 exactly when the width of the bus or the geometry is out of range, all eight
  handles are in use or there is no memory; then no handle and no pin is touched.
\<close>

theorem init_refuses:
  assumes "lcd_initialised s"
    and "\<not> (bits = 4 \<or> bits = 8) \<or> rows < 0 \<or> rows > 20 \<or> cols < 0 \<or> cols > 20 \<or> first_free (lcds s) 0 = -1 \<or> \<not> mem"
  shows "lcdInit mem rows cols bits rs strb pins s = Some (-1, s)"
  using assms by (auto simp: lcdInit_def Let_def)

theorem init_refuses_witness: "lcdInit True 2 16 5 29 25 [] demo_state = Some (-1, demo_state)"
  by (rule init_refuses) (simp_all add: demo_state_def)

definition past_end :: "lcdDataStruct \<Rightarrow> bool" where
  "past_end lcd \<longleftrightarrow> lcd_cols lcd \<le> cx lcd"

lemma putchar_past_end:
  "lcd_at s fd = Some lcd \<Longrightarrow> past_end lcd \<Longrightarrow>
   \<exists>ops. lcdPutchar fd c s = Some (lcd_put fd (lcd\<lparr>cx := cx lcd + 1\<rparr>) ops s)"
  by (auto simp: lcdPutchar_def Let_def past_end_def)

lemma puts_past_end:
  assumes "lcd_at s fd = Some lcd" and "past_end lcd" and "0 \<notin> set str"
  shows "\<exists>s'. lcdPuts fd str s = Some s' \<and> lcd_at s' fd = Some (lcd\<lparr>cx := cx lcd + int (length str)\<rparr>)"
  using assms
proof (induction str arbitrary: s lcd)
  case (Cons c str)
  obtain ops where p: "lcdPutchar fd c s = Some (lcd_put fd (lcd\<lparr>cx := cx lcd + 1\<rparr>) ops s)"
    using putchar_past_end [OF Cons.prems(1,2)] by blast
  have "past_end (lcd\<lparr>cx := cx lcd + 1\<rparr>)" using Cons.prems(2) by (simp add: past_end_def)
  from Cons.IH [OF lcd_at_put [OF Cons.prems(1)] this] show ?case using Cons.prems(3) p by (auto simp: algebra_simps)
qed simp

text \<open>
  \<^verbatim>\<open>lcdPosition\<close> does not ignore the invalid column one past the end: it moves the cursor there, and from then
  on \<^verbatim>\<open>lcdPutchar\<close> never finds the end of the line, so the cursor runs on past the columns without wrapping.
\<close>

theorem position_past_end:
  assumes "lcd_at s fd = Some lcd" and "0 \<le> lcd_cols lcd" and "0 \<le> y" "y \<le> lcd_rows lcd" "y < 4" and "pins_ok lcd"
    and "0 \<notin> set str"
  shows "\<exists>s1 s2 lcd2. lcdPosition fd (lcd_cols lcd) y s = Some s1 \<and> lcdPuts fd str s1 = Some s2 \<and>
    lcd_at s2 fd = Some lcd2 \<and> cx lcd2 = lcd_cols lcd + int (length str) \<and> cy lcd2 = y"
proof -
  let ?lcd = "lcd\<lparr>cx := lcd_cols lcd, cy := y\<rparr>"
  obtain ops where p: "lcdPosition fd (lcd_cols lcd) y s = Some (lcd_put fd ?lcd ops s)"
    using position_outcome [OF assms(1,6), of "lcd_cols lcd" y] assms by auto
  have "past_end ?lcd" by (simp add: past_end_def)
  from puts_past_end [OF lcd_at_put [OF assms(1)] this assms(7)] show ?thesis using p by force
qed

theorem position_past_end_witness:
  "\<exists>s1 s2 lcd2. lcdPosition 0 16 2 demo_state = Some s1 \<and> lcdPuts 0 [88] s1 = Some s2 \<and>
    lcd_at s2 0 = Some lcd2 \<and> cx lcd2 = 17 \<and> cy lcd2 = 2"
  using position_past_end [OF demo_at, of 2 "[88]"] demo_lcd_ok(1) by (simp add: demo_lcd_def)

end
