(* ===== verification/AutoMag.thy ===== *)
theory AutoMag
  imports Telnet_Send Lcd
begin

text \<open>
  The car client \<^verbatim>\<open>libtelnet/util/telnet-projekat1.c\<close>: it keeps a telnet connection to the CAN board, relays
  the menu commands typed on the terminal, decodes the speed, fuel level and temperature from the
  board's messages, shows them on the display and switches the board's two lamps.
\<close>

section \<open>State\<close>

definition telopts :: "telnet_telopt list" where
  "telopts = [\<lparr>to_telopt = 1, to_us = TELNET_WONT, to_him = TELNET_DO\<rparr>,
              \<lparr>to_telopt = 24, to_us = TELNET_WILL, to_him = TELNET_DONT\<rparr>,
              \<lparr>to_telopt = 86, to_us = TELNET_WONT, to_him = TELNET_DO\<rparr>,
              \<lparr>to_telopt = 70, to_us = TELNET_WONT, to_him = TELNET_DO\<rparr>,
              \<lparr>to_telopt = -1, to_us = 0, to_him = 0\<rparr>]"

text \<open>
  The static variables and the locals of \<^verbatim>\<open>main\<close>. \<open>car_sock\<close> collects the bytes the socket accepted and
  \<open>car_out\<close> what was printed; \<open>car_sends\<close> lists the results of the coming \<^verbatim>\<open>send\<close> calls (when it is used up, a
  call accepts all bytes) and \<open>car_term\<close> is the value of \<^verbatim>\<open>TERM\<close>.
\<close>

record car =
  car_telnet :: telnet
  do_echo :: bool
  car_sock :: "byte list"
  car_out :: "byte list"
  car_sends :: "int list"
  car_term :: "byte list option"
  car_lcd :: lcd_state
  car_fd :: int
  car_buffer :: "byte list"
  recieveBuffer :: "byte list"
  dataBuffer :: "byte list"
  car_br :: int
  speed :: int
  temperature :: int
  fuelLevel :: int
  greenLedState :: int
  redLedState :: int

definition car_print :: "byte list \<Rightarrow> car \<Rightarrow> car" where
  "car_print bs c = c\<lparr>car_out := car_out c @ bs\<rparr>"

section \<open>Sending and the event handler\<close>

text \<open>
  The \<^verbatim>\<open>_send\<close> loop: each call takes a prefix of what is left; a result of -1 or 0 ends the program. A
  count above the size asked for is not a result \<^verbatim>\<open>send\<close> can give.
\<close>

function car_send :: "byte list \<Rightarrow> car \<Rightarrow> car outcome" where
  "car_send buf c =
     (if buf = [] then Go c
      else case car_sends c of
        [] \<Rightarrow> Go (c\<lparr>car_sock := car_sock c @ buf\<rparr>)
      | rs # rest \<Rightarrow>
          (if rs = -1 \<or> rs = 0 then Exit 1 (c\<lparr>car_sends := rest\<rparr>)
           else if rs < 0 \<or> rs > int (length buf) then Undefined
           else car_send (drop (nat rs) buf)
                  (c\<lparr>car_sends := rest, car_sock := car_sock c @ take (nat rs) buf\<rparr>)))"
  by pat_completeness auto
termination by (relation "measure (\<lambda>(buf, c). length buf)") auto

declare car_send.simps [simp del]

text \<open>\<^verbatim>\<open>printf("%.*s")\<close> prints the data up to a NUL.\<close>

definition car_handler_base :: "telnet_event \<Rightarrow> car \<Rightarrow> car outcome" where
  "car_handler_base ev c =
     (case ev of
        EV_DATA bs n \<Rightarrow>
          (if n = of_nat (length bs) then Go (car_print (takeWhile (\<lambda>b. b \<noteq> 0) bs) c) else Undefined)
      | EV_SEND bs \<Rightarrow> car_send bs c
      | EV_WILL opt \<Rightarrow> Go (if opt = TELNET_TELOPT_ECHO then c\<lparr>do_echo := False\<rparr> else c)
      | EV_WONT opt \<Rightarrow> Go (if opt = TELNET_TELOPT_ECHO then c\<lparr>do_echo := True\<rparr> else c)
      | EV_ERROR func msg \<Rightarrow> Exit 1 c
      | _ \<Rightarrow> Go c)"

text \<open>
  \<^verbatim>\<open>_event_handler\<close>. The answer to a TERMINAL-TYPE request is itself a library call, whose events go
  through the handler at once; a missing \<^verbatim>\<open>TERM\<close> is a null pointer.
\<close>

fun handle_all :: "(telnet_event \<Rightarrow> car \<Rightarrow> car outcome) \<Rightarrow> telnet_event list \<Rightarrow> car \<Rightarrow> car outcome" where
  "handle_all h [] c = Go c"
| "handle_all h (ev # evs) c = and_then (h ev c) (handle_all h evs)"

definition car_handler :: "telnet_event \<Rightarrow> car \<Rightarrow> car outcome" where
  "car_handler ev c =
     (case ev of
        EV_TTYPE cmd name \<Rightarrow>
          (if cmd = TELNET_TTYPE_SEND then
             (case car_term c of
                None \<Rightarrow> Undefined
              | Some term \<Rightarrow>
                  (let t = car_telnet c in
                   handle_all car_handler_base (new_events t (telnet_ttype_is term t)) c))
           else Go c)
      | _ \<Rightarrow> car_handler_base ev c)"

text \<open>A library call made by the client: its events reach the handler in order.\<close>

definition car_call :: "(telnet \<Rightarrow> telnet) \<Rightarrow> car \<Rightarrow> car outcome" where
  "car_call f c =
     (let t = f (no_events (car_telnet c))
      in handle_all car_handler (tn_events t) (c\<lparr>car_telnet := no_events t\<rparr>))"

section \<open>Terminal input\<close>

fun car_input :: "byte list \<Rightarrow> car \<Rightarrow> car outcome" where
  "car_input [] c = Go c"
| "car_input (b # bs) c =
     (if b = 13 \<or> b = 10 then
        and_then (car_call (telnet_send [13, 10]) (if do_echo c then car_print [13, 10] c else c)) (car_input bs)
      else
        and_then (car_call (telnet_send [b]) (if do_echo c then car_print [b] c else c)) (car_input bs))"

section \<open>Display\<close>

definition htoi :: "byte \<Rightarrow> int" where
  "htoi c =
     (if 97 \<le> c \<and> c \<le> 102 then uint c - 97 + 10
      else if 65 \<le> c \<and> c \<le> 70 then uint c - 65 + 10
      else if 48 \<le> c \<and> c \<le> 57 then uint c - 48
      else 0)"

text \<open>The four fuel bars: a solid block is character 255.\<close>

definition fuel_bars :: "int \<Rightarrow> byte list" where
  "fuel_bars fuel =
     (if fuel = 6 \<or> fuel = 5 then [255, 255, 255, 45]
      else if fuel = 4 \<or> fuel = 3 then [255, 255, 45, 45]
      else if fuel = 2 \<or> fuel = 1 then [255, 45, 45, 45]
      else [255, 255, 255, 255])"

definition speed_line :: "int \<Rightarrow> byte list" where
  "speed_line v = bytes_of ''Speed : '' @ bytes_of (dec_int v) @ bytes_of '' km/h''"

definition status_line :: "int \<Rightarrow> int \<Rightarrow> byte list" where
  "status_line fuel temp =
     bytes_of ''F:'' @ fuel_bars fuel @ bytes_of '' T:'' @ bytes_of (dec_int temp) @ bytes_of '' C'' @ [39, 32, 32]"

definition lcdScreen :: "int \<Rightarrow> int \<Rightarrow> int \<Rightarrow> int \<Rightarrow> lcd_state \<Rightarrow> lcd_state option" where
  "lcdScreen fd v fuel temp s = do {
     s1 \<leftarrow> lcdPosition fd 0 0 s;
     s2 \<leftarrow> lcdPuts fd (speed_line v) s1;
     s3 \<leftarrow> lcdPosition fd 0 1 s2;
     lcdPuts fd (status_line fuel temp) s3 }"

definition initLcd :: "bool \<Rightarrow> lcd_state \<Rightarrow> (int \<times> lcd_state) option" where
  "initLcd mem s = do {
     (fd, s1) \<leftarrow> lcdInit mem 2 16 4 29 25 [24, 23, 22, 21, 0, 0, 0, 0] s;
     s2 \<leftarrow> lcdClear fd s1;
     s3 \<leftarrow> lcdPosition fd 0 0 s2;
     s4 \<leftarrow> lcdPuts fd (bytes_of ''Speed : '') s3;
     s5 \<leftarrow> lcdPosition fd 0 1 s4;
     s6 \<leftarrow> lcdPuts fd (bytes_of ''F:---- T:'') s5;
     Some (fd, s6) }"

section \<open>The menu\<close>

text \<open>What a \<^verbatim>\<open>read\<close> or \<^verbatim>\<open>recv\<close> of up to 512 bytes gives: some bytes, the end of the stream, or an error.\<close>

datatype io_result = Got "byte list" | Eof | Err

text \<open>A block that starts with the bytes just read, or with a string and its terminator.\<close>

definition overlay :: "byte list \<Rightarrow> byte list \<Rightarrow> byte list" where
  "overlay bs mem = take (length mem) bs @ drop (length bs) mem"

text \<open>The text of a buffer used as a string, if it has an end.\<close>

definition c_string :: "byte list \<Rightarrow> byte list option" where
  "c_string mem = (if 0 \<in> set mem then Some (cstr mem 0) else None)"

text \<open>\<^verbatim>\<open>_input(buffer, n)\<close>: a count outside the buffer walks off its end.\<close>

definition car_input_buffer :: "int \<Rightarrow> car \<Rightarrow> car outcome" where
  "car_input_buffer n c =
     (if 0 \<le> n \<and> nat n \<le> length (car_buffer c) then car_input (take (nat n) (car_buffer c)) c else Undefined)"

text \<open>One of the five commands that open a LIN channel: the baud rate typed at the prompt (or the last one).\<close>

definition lin_open :: "string \<Rightarrow> int option \<Rightarrow> car \<Rightarrow> car outcome" where
  "lin_open mode answer c =
     (let c1 = car_print (bytes_of ''Please enter boudrate:'') c;
          c2 = (case answer of None \<Rightarrow> c1 | Some n \<Rightarrow> c1\<lparr>car_br := n\<rparr>);
          text = bytes_of (mode @ dec_int (car_br c2)) @ [13, 10]
      in car_input text (c2\<lparr>car_buffer := overlay (text @ [0]) (car_buffer c2)\<rparr>))"

definition lin_menu :: "byte list" where
  "lin_menu = bytes_of ''For lin open master1x press 1'' @ [13, 10] @ bytes_of ''For lin open master2x press 2'' @ [13, 10] @
     bytes_of ''For lin open slave1x press 3'' @ [13, 10] @ bytes_of ''For lin open slave2x press 4'' @ [13, 10] @
     bytes_of ''For lin open free mode press 5'' @ [13, 10] @ bytes_of ''For lin close press 6'' @ [13, 10]"

definition main_menu :: "byte list" where
  "main_menu = bytes_of ''Choose s for CAN setup'' @ [13, 10] @ bytes_of ''Choose l for LIN options'' @ [13, 10] @
     bytes_of ''Choose q for EXIT'' @ [13, 10]"

text \<open>
  The LIN menu: a second read, whose count replaces \<open>rs\<close>, selects the command. The result carries the
  new \<open>rs\<close>.
\<close>

definition lin_choice :: "io_result \<Rightarrow> int option \<Rightarrow> car \<Rightarrow> int \<times> car outcome" where
  "lin_choice second answer c =
     (let c1 = car_print lin_menu c;
          rs = (case second of Got bs \<Rightarrow> int (length bs) | Eof \<Rightarrow> 0 | Err \<Rightarrow> -1);
          c2 = (case second of Got bs \<Rightarrow> c1\<lparr>car_buffer := overlay bs (car_buffer c1)\<rparr> | _ \<Rightarrow> c1);
          k = car_buffer c2 ! 0
      in (rs,
          if k = 49 then lin_open ''LIN OPEN MASTER1X '' answer c2
          else if k = 50 then lin_open ''LIN OPEN MASTER2X '' answer c2
          else if k = 51 then lin_open ''LIN OPEN SLAVE1X  '' answer c2
          else if k = 52 then lin_open ''LIN OPEN SLAVE2X '' answer c2
          else if k = 53 then lin_open ''LIN OPEN FREE '' answer c2
          else if k = 54 then
            and_then (car_input (bytes_of ''LIN CLOSE'' @ [13]) c2)
              (\<lambda>c3. Go (c3\<lparr>car_buffer := replicate 512 0\<rparr>))
          else Go (car_print (bytes_of ''There is no option for '' @ [k, 10]) c2)))"

definition setup_commands :: "byte list list" where
  "setup_commands = map (\<lambda>s. bytes_of s @ [13, 10])
     [''AT'', ''GPLED LED1 CLEAR'', ''GPLED LED2 CLEAR'', ''CAN USER ALIGN RIGHT'', ''CAN USER OPEN CH2 83k3'',
      ''CAN USER FILTER CH2 0 0010'', ''CAN USER MASK CH2 0010'']"

fun car_inputs :: "byte list list \<Rightarrow> car \<Rightarrow> car outcome" where
  "car_inputs [] c = Go c"
| "car_inputs (bs # bss) c = and_then (car_input bs c) (car_inputs bss)"

text \<open>
  Input on the terminal. The condition \<open>rs = read(...) > 0\<close> makes \<open>rs\<close> 1 or 0, so only the first byte is
  relayed, and an error is taken for the end of the stream.
\<close>

definition car_stdin :: "io_result \<Rightarrow> io_result \<Rightarrow> int option \<Rightarrow> car \<Rightarrow> car outcome" where
  "car_stdin first second answer c =
     (case first of
        Got bs \<Rightarrow>
          (let c1 = c\<lparr>car_buffer := overlay bs (car_buffer c)\<rparr> in
           case c_string (car_buffer c1) of
             None \<Rightarrow> Undefined
           | Some str \<Rightarrow>
               (let (rs, body) =
                  (if length str \<ge> 1 then
                     (let c2 = car_print main_menu c1; k = car_buffer c2 ! 0 in
                      if k = 108 then lin_choice second answer c2
                      else if k = 115 then (1, car_inputs setup_commands c2)
                      else if k = 113 then (1, Exit 1 c2)
                      else (1, and_then (car_input_buffer 1 c2)
                              (\<lambda>c3. Go (car_print (bytes_of ''There is no option for '' @ [car_buffer c3 ! 0] @
                                          bytes_of '' please choose again'' @ [13, 10]) c3))))
                   else (1, car_input_buffer 1 c1))
                in and_then body (car_input_buffer rs)))
      | _ \<Rightarrow> Leave c)"

section \<open>Messages from the board\<close>

fun find_text :: "byte list \<Rightarrow> byte list \<Rightarrow> nat option" where
  "find_text pat [] = (if pat = [] then Some 0 else None)"
| "find_text pat (b # bs) =
     (if take (length pat) (b # bs) = pat then Some 0 else map_option Suc (find_text pat bs))"

text \<open>The lamps: LED1 is the green one, LED2 the red one.\<close>

definition car_leds :: "car \<Rightarrow> car outcome" where
  "car_leds c =
     (if speed c \<le> 60 \<and> greenLedState c \<noteq> 1 then
        and_then (car_input ([13, 10] @ bytes_of '' GPLED LED1 SET'' @ [10]) c) (\<lambda>c1.
        and_then (car_input (bytes_of ''GPLED LED2 CLEAR'' @ [10]) (c1\<lparr>greenLedState := 1\<rparr>)) (\<lambda>c2.
        Go (c2\<lparr>redLedState := 0\<rparr>)))
      else if speed c > 60 \<and> redLedState c \<noteq> 1 then
        and_then (car_input (bytes_of ''GPLED LED2 SET'' @ [10]) c) (\<lambda>c1.
        and_then (car_input (bytes_of ''GPLED LED1 CLEAR'' @ [10]) (c1\<lparr>redLedState := 1\<rparr>)) (\<lambda>c2.
        Go (c2\<lparr>greenLedState := 0\<rparr>)))
      else Go c)"

text \<open>The 24 collected bytes: the values they carry, the display and the lamps.\<close>

definition car_message :: "car \<Rightarrow> car outcome" where
  "car_message c =
     (let d = dataBuffer c in
      if d ! 6 = 0x31 \<and> d ! 7 = 0x30 then
        (let c1 = c\<lparr>fuelLevel := htoi (d ! 18), temperature := htoi (d ! 22) + htoi (d ! 21) * 16,
                    speed := htoi (d ! 10) + htoi (d ! 9) * 16\<rparr> in
         case lcdScreen (car_fd c1) (speed c1) (fuelLevel c1) (temperature c1) (car_lcd c1) of
           None \<Rightarrow> Undefined
         | Some l \<Rightarrow> car_leds (c1\<lparr>car_lcd := l\<rparr>))
      else Go c)"

definition put_data :: "nat \<Rightarrow> byte list \<Rightarrow> car \<Rightarrow> car" where
  "put_data off bs c = c\<lparr>dataBuffer := take off (dataBuffer c) @ bs @ drop (off + length bs) (dataBuffer c)\<rparr>"

definition car_third :: "io_result \<Rightarrow> car \<Rightarrow> car outcome" where
  "car_third r c =
     (case r of
        Got bs \<Rightarrow>
          (let c1 = c\<lparr>recieveBuffer := overlay bs (recieveBuffer c)\<rparr>
           in car_message (put_data 16 (take 8 (recieveBuffer c1)) c1))
      | _ \<Rightarrow> Go c)"

definition car_second :: "io_result \<Rightarrow> io_result \<Rightarrow> car \<Rightarrow> car outcome" where
  "car_second r r3 c =
     (case r of
        Got bs \<Rightarrow>
          (let c1 = c\<lparr>recieveBuffer := overlay bs (recieveBuffer c)\<rparr>
           in car_third r3 (put_data 8 (take 8 (recieveBuffer c1)) c1))
      | _ \<Rightarrow> Go c)"

text \<open>
  Input on the socket. Only the first of the three receives goes through the telnet library; the
  message is looked for in the raw buffer, which is used as a string.
\<close>

definition car_recv :: "io_result \<Rightarrow> io_result \<Rightarrow> io_result \<Rightarrow> car \<Rightarrow> car outcome" where
  "car_recv r1 r2 r3 c =
     (case r1 of
        Eof \<Rightarrow> Leave c
      | Err \<Rightarrow> Exit 1 c
      | Got bs \<Rightarrow>
          and_then (car_call (telnet_recv bs) (c\<lparr>recieveBuffer := overlay bs (recieveBuffer c)\<rparr>)) (\<lambda>c1.
            case c_string (recieveBuffer c1) of
              None \<Rightarrow> Undefined
            | Some str \<Rightarrow>
                (case find_text (bytes_of ''RX2'') str of
                   None \<Rightarrow> Go c1
                 | Some k \<Rightarrow>
                     (if k + 8 \<le> length (recieveBuffer c1)
                      then car_second r2 r3 (put_data 0 (take 8 (drop k (recieveBuffer c1))) c1)
                      else Undefined))))"

section \<open>The main loop\<close>

text \<open>One round of the poll loop: what is ready on the terminal, then what is ready on the socket.\<close>

record poll_round =
  on_stdin :: "(io_result \<times> io_result \<times> int option) option"
  on_socket :: "(io_result \<times> io_result \<times> io_result) option"

definition car_round :: "poll_round \<Rightarrow> car \<Rightarrow> car outcome" where
  "car_round r c =
     and_then (case on_stdin r of None \<Rightarrow> Go c | Some (a, b, n) \<Rightarrow> car_stdin a b n c)
       (\<lambda>c1. case on_socket r of None \<Rightarrow> Go c1 | Some (a, b, d) \<Rightarrow> car_recv a b d c1)"

fun car_main :: "poll_round list \<Rightarrow> car \<Rightarrow> car outcome" where
  "car_main [] c = Go c"
| "car_main (r # rs) c = and_then (car_round r c) (car_main rs)"

section \<open>Relaying text\<close>

text \<open>A client whose socket takes everything and whose tracker has no event waiting.\<close>

definition quiet :: "car \<Rightarrow> bool" where
  "quiet c \<longleftrightarrow> car_sends c = [] \<and> tn_events (car_telnet c) = []"

lemma car_send_all: "car_sends c = [] \<Longrightarrow> car_send bs c = Go (c\<lparr>car_sock := car_sock c @ bs\<rparr>)"
  by (subst car_send.simps) simp

lemma handle_sends:
  "car_sends c = [] \<Longrightarrow> handle_all car_handler (map EV_SEND ps) c = Go (c\<lparr>car_sock := car_sock c @ concat ps\<rparr>)"
proof (induction ps arbitrary: c)
  case (Cons p ps)
  then show ?case by (simp add: car_handler_def car_handler_base_def car_send_all)
qed simp

lemma car_call_sends:
  assumes "quiet c" and "\<And>t. sends bs t (f t)"
  shows "car_call f c = Go (c\<lparr>car_sock := car_sock c @ bs\<rparr>)"
proof -
  have t: "no_events (car_telnet c) = car_telnet c" using assms(1) by (simp add: quiet_def no_events_idle)
  obtain ps where p: "f (car_telnet c) = (car_telnet c)\<lparr>tn_events := map EV_SEND ps\<rparr>" "concat ps = bs"
    using assms(2) [of "car_telnet c"] assms(1) by (auto simp: sends_def quiet_def)
  have "c\<lparr>car_telnet := car_telnet c\<rparr> = c" by simp
  then show ?thesis using p(2) handle_sends [of c ps] assms(1) by (simp add: car_call_def t p(1) quiet_def)
qed

definition crlf_text :: "byte list \<Rightarrow> byte list" where
  "crlf_text bs = concat (map (\<lambda>b. if b = 13 \<or> b = 10 then [13, 10] else [b]) bs)"

lemma car_input_quiet:
  "quiet c \<Longrightarrow> car_input bs c = Go (c\<lparr>car_sock := car_sock c @ iac_escape (crlf_text bs),
     car_out := car_out c @ (if do_echo c then crlf_text bs else [])\<rparr>)"
proof (induction bs arbitrary: c)
  case Nil
  then show ?case by (simp add: crlf_text_def)
next
  case (Cons b bs)
  let ?x = "if b = 13 \<or> b = 10 then [13, 10] else [b]"
  let ?c = "if do_echo c then car_print ?x c else c"
  have q: "quiet ?c" using Cons.prems by (simp add: quiet_def car_print_def)
  have "car_input (b # bs) c = and_then (car_call (telnet_send ?x) ?c) (car_input bs)" by simp
  also have "\<dots> = car_input bs (?c\<lparr>car_sock := car_sock ?c @ iac_escape ?x\<rparr>)"
    using car_call_sends [OF q sends_telnet_send] by simp
  also have "\<dots> = Go (c\<lparr>car_sock := car_sock c @ iac_escape (crlf_text (b # bs)),
      car_out := car_out c @ (if do_echo c then crlf_text (b # bs) else [])\<rparr>)"
  proof -
    have "quiet (?c\<lparr>car_sock := car_sock ?c @ iac_escape ?x\<rparr>)" using q by (simp add: quiet_def)
    moreover have "crlf_text (b # bs) = ?x @ crlf_text bs" by (simp add: crlf_text_def)
    ultimately show ?thesis using Cons.IH by (simp add: car_print_def)
  qed
  finally show ?case .
qed

section \<open>The lamps\<close>

definition leds_ok :: "car \<Rightarrow> bool" where
  "leds_ok c \<longleftrightarrow> (greenLedState c, redLedState c) \<in> {(0, 0), (1, 0), (0, 1)}"

text \<open>What the lamps should be, and the commands that make a difference.\<close>

definition leds_match :: "car \<Rightarrow> bool" where
  "leds_match c \<longleftrightarrow> (if speed c \<le> 60 then greenLedState c = 1 \<and> redLedState c = 0 else greenLedState c = 0 \<and> redLedState c = 1)"

definition led_commands :: "int \<Rightarrow> byte list" where
  "led_commands v = (if v \<le> 60 then [13, 10] @ bytes_of '' GPLED LED1 SET'' @ [10] @ bytes_of ''GPLED LED2 CLEAR'' @ [10]
     else bytes_of ''GPLED LED2 SET'' @ [10] @ bytes_of ''GPLED LED1 CLEAR'' @ [10])"

lemma crlf_text_append: "crlf_text (xs @ ys) = crlf_text xs @ crlf_text ys"
  by (simp add: crlf_text_def)

lemma car_leds_outcome:
  assumes "quiet c" and "leds_ok c"
  shows "\<exists>c'. car_leds c = Go c' \<and> quiet c' \<and> leds_match c' \<and> speed c' = speed c \<and>
    car_sock c' = car_sock c @ (if leds_match c then [] else iac_escape (crlf_text (led_commands (speed c)))) \<and>
    (leds_match c \<longrightarrow> c' = c)"
proof (cases "leds_match c")
  case True
  then show ?thesis using assms(1) by (auto simp: car_leds_def leds_match_def split: if_splits)
next
  case False
  let ?a = "if speed c \<le> 60 then [13, 10] @ bytes_of '' GPLED LED1 SET'' @ [10] else bytes_of ''GPLED LED2 SET'' @ [10]"
  let ?b = "if speed c \<le> 60 then bytes_of ''GPLED LED2 CLEAR'' @ [10] else bytes_of ''GPLED LED1 CLEAR'' @ [10]"
  have l: "led_commands (speed c) = ?a @ ?b" by (simp add: led_commands_def)
  have q: "quiet (c\<lparr>car_sock := x, car_out := y, greenLedState := g\<rparr>)" "quiet (c\<lparr>car_sock := x, car_out := y, redLedState := g\<rparr>)"
    for x y g using assms(1) by (simp_all add: quiet_def)
  show ?thesis using False assms q unfolding l crlf_text_append iac_escape_simps
    by (cases "speed c \<le> 60")
      (auto simp: car_leds_def car_input_quiet leds_match_def leds_ok_def quiet_def simp del: bytes_of_simps car_input.simps)
qed

section \<open>What the display shows\<close>

text \<open>A screen after the two lines: the first from cell 0, the second from cell 16, of 32.\<close>

definition two_lines :: "byte list \<Rightarrow> byte list \<Rightarrow> terminal \<Rightarrow> terminal" where
  "two_lines a b t = fold (term_put 32) b ((fold (term_put 32) a (t\<lparr>cursor := 0\<rparr>))\<lparr>cursor := 16\<rparr>)"

lemma dec_nat_range: "set (bytes_of (dec_nat n)) \<subseteq> {48..57}"
proof (induction n rule: dec_nat.induct)
  case (1 n)
  have d: "of_nat (of_char (char_of (48 + k) :: char) :: nat) \<in> {48..(57 :: byte)}" if "k < 10" for k :: nat
  proof -
    have "k = 0 \<or> k = 1 \<or> k = 2 \<or> k = 3 \<or> k = 4 \<or> k = 5 \<or> k = 6 \<or> k = 7 \<or> k = 8 \<or> k = 9"
      using that by presburger
    then show ?thesis by (elim disjE) simp_all
  qed
  show ?case using 1 d [of n] d [of "n mod 10"] by (subst dec_nat.simps) auto
qed

lemma dec_int_nonzero: "0 \<notin> set (bytes_of (dec_int i))"
proof -
  have "0 \<notin> set (bytes_of (dec_nat n))" for n using dec_nat_range [of n] by force
  then show ?thesis by (auto simp: dec_int_def)
qed

lemma lines_no_nul: "0 \<notin> set (speed_line v)" "0 \<notin> set (status_line fuel temp)"
  using dec_int_nonzero by (auto simp: speed_line_def status_line_def fuel_bars_def)

lemma lcdScreen_shows:
  assumes "lcd_shows 2 16 fd s0 d0 s t"
  shows "\<exists>s'. lcdScreen fd v fuel temp s = Some s' \<and>
    lcd_shows 2 16 fd s0 d0 s' (two_lines (speed_line v) (status_line fuel temp) t)"
proof -
  obtain s' where s': "do { s1 \<leftarrow> hd44780.write_line fd 0 (speed_line v) s; hd44780.write_line fd 1 (status_line fuel temp) s1 } = Some s'"
    "lcd_shows 2 16 fd s0 d0 s' (two_lines (speed_line v) (status_line fuel temp) t)"
    using hd44780.two_lines_show [OF assms _ _ lines_no_nul(1) lines_no_nul(2), of v fuel temp] by (auto simp: two_lines_def)
  have "lcdScreen fd v fuel temp s =
      do { s1 \<leftarrow> hd44780.write_line fd 0 (speed_line v) s; hd44780.write_line fd 1 (status_line fuel temp) s1 }"
    by (simp add: lcdScreen_def hd44780.write_line_def bind_eq_None_conv split: bind_split)
  then show ?thesis using s' by metis
qed

lemma two_lines_cells:
  assumes "length a \<le> 16" and "length b \<le> 16"
  shows "cells (two_lines a b t) i =
    (if 0 \<le> i \<and> i < int (length a) then a ! nat i
     else if 16 \<le> i \<and> i < 16 + int (length b) then b ! nat (i - 16) else cells t i)"
  using assms term_puts(1) [of "t\<lparr>cursor := 0\<rparr>" 32 a]
    term_puts(1) [of "(fold (term_put 32) a (t\<lparr>cursor := 0\<rparr>))\<lparr>cursor := 16\<rparr>" 32 b]
  by (simp add: two_lines_def)

lemma dec_digits:
  "n < 10 \<Longrightarrow> length (dec_nat n) = 1" "10 \<le> n \<Longrightarrow> n < 100 \<Longrightarrow> length (dec_nat n) = 2"
  "100 \<le> n \<Longrightarrow> n < 1000 \<Longrightarrow> length (dec_nat n) = 3"
proof -
  have one: "length (dec_nat k) = 1" if "k < 10" for k using that by (subst dec_nat.simps) simp
  have two: "length (dec_nat k) = 2" if "10 \<le> k" "k < 100" for k
    using that one [of "k div 10"] by (subst dec_nat.simps) simp
  show "n < 10 \<Longrightarrow> length (dec_nat n) = 1" "10 \<le> n \<Longrightarrow> n < 100 \<Longrightarrow> length (dec_nat n) = 2"
    using one two by blast+
  show "100 \<le> n \<Longrightarrow> n < 1000 \<Longrightarrow> length (dec_nat n) = 3"
    using two [of "n div 10"] by (subst dec_nat.simps) simp
qed

lemma dec_int_digits:
  "0 \<le> i \<Longrightarrow> i < 10 \<Longrightarrow> length (dec_int i) = 1" "10 \<le> i \<Longrightarrow> i < 100 \<Longrightarrow> length (dec_int i) = 2"
  "100 \<le> i \<Longrightarrow> i < 1000 \<Longrightarrow> length (dec_int i) = 3"
  using dec_digits [of "nat i"] by (simp_all add: dec_int_def nat_le_iff le_nat_iff nat_less_iff)

lemma line_lengths:
  "length (speed_line v) = 13 + length (dec_int v)" "length (status_line fuel temp) = 14 + length (dec_int temp)"
  by (simp_all add: speed_line_def status_line_def fuel_bars_def)

section \<open>Numbers in messages\<close>

definition hex_digit :: "bool \<Rightarrow> int \<Rightarrow> byte" where
  "hex_digit upper n = word_of_int (if n < 10 then 48 + n else if upper then 55 + n else 87 + n)"

lemma htoi_hex_digit: "0 \<le> n \<Longrightarrow> n < 16 \<Longrightarrow> htoi (hex_digit upper n) = n"
proof -
  assume n: "0 \<le> n" "n < 16"
  have "list_all (\<lambda>n. htoi (hex_digit upper n) = n) [0..15]"
    by (cases upper) (simp_all add: upto.simps hex_digit_def htoi_def)
  then show ?thesis using n by (simp add: list_all_iff)
qed

lemma htoi_range: "0 \<le> htoi c \<and> htoi c < 16"
proof -
  have "uint c \<le> 102" if "c \<le> 102" using that by (simp add: word_le_def)
  moreover have "97 \<le> uint c" if "97 \<le> c" using that by (simp add: word_le_def)
  moreover have "65 \<le> uint c" if "65 \<le> c" using that by (simp add: word_le_def)
  moreover have "uint c \<le> 70" if "c \<le> 70" using that by (simp add: word_le_def)
  moreover have "48 \<le> uint c" if "48 \<le> c" using that by (simp add: word_le_def)
  moreover have "uint c \<le> 57" if "c \<le> 57" using that by (simp add: word_le_def)
  ultimately show ?thesis by (auto simp: htoi_def)
qed

section \<open>Properties\<close>

lemma car_message_outcome:
  assumes "quiet c" and "leds_ok c" and "dataBuffer c ! 6 = 0x31" "dataBuffer c ! 7 = 0x30"
    and "lcd_at (car_lcd c) (car_fd c) = Some lcd" and "lcd_rows lcd = 2" "lcd_cols lcd = 16" and "in_step lcd d"
  shows "\<exists>c' lcd'. car_message c = Go c' \<and> quiet c' \<and> leds_ok c' \<and> leds_match c' \<and>
    speed c' = htoi (dataBuffer c ! 10) + htoi (dataBuffer c ! 9) * 16 \<and>
    lcd_at (car_lcd c') (car_fd c) = Some lcd' \<and> in_step lcd' (display_after lv (car_fd c) (car_lcd c) (car_lcd c') d) \<and>
    screen lcd' (display_after lv (car_fd c) (car_lcd c) (car_lcd c') d) =
      two_lines (speed_line (htoi (dataBuffer c ! 10) + htoi (dataBuffer c ! 9) * 16))
        (status_line (htoi (dataBuffer c ! 18)) (htoi (dataBuffer c ! 22) + htoi (dataBuffer c ! 21) * 16)) (screen lcd d)"
proof -
  let ?d = "dataBuffer c"
  let ?v = "htoi (?d ! 10) + htoi (?d ! 9) * 16" and ?f = "htoi (?d ! 18)" and ?t = "htoi (?d ! 22) + htoi (?d ! 21) * 16"
  have "lcd_shows 2 16 (car_fd c) (car_lcd c) d (car_lcd c) (screen lcd d)"
    using lcd_shows_start [OF assms(5,8)] assms(6,7) by simp
  then obtain l where l: "lcdScreen (car_fd c) ?v ?f ?t (car_lcd c) = Some l"
    "lcd_shows 2 16 (car_fd c) (car_lcd c) d l (two_lines (speed_line ?v) (status_line ?f ?t) (screen lcd d))"
    using lcdScreen_shows by blast
  let ?c = "c\<lparr>fuelLevel := ?f, temperature := ?t, speed := ?v, car_lcd := l\<rparr>"
  have q: "quiet ?c" "leds_ok ?c" using assms(1,2) by (simp_all add: quiet_def leds_ok_def)
  obtain c' where c': "car_leds ?c = Go c'" "quiet c'" "leds_match c'" "speed c' = ?v"
    using car_leds_outcome [OF q] by auto
  have "car_lcd c' = l \<and> leds_ok c'"
    using c'(1,3) q by (auto simp: car_leds_def car_input_quiet quiet_def leds_match_def leds_ok_def
        simp del: bytes_of_simps car_input.simps split: if_splits)
  moreover have "car_message c = car_leds ?c" using assms(3,4) l(1) by (simp add: car_message_def Let_def)
  ultimately show ?thesis using c' lcd_shows_display [OF l(2), of lv] by auto
qed


definition demo_car :: "byte list \<Rightarrow> car" where
  "demo_car msg = \<lparr>car_telnet = fresh, do_echo = True, car_sock = [], car_out = [], car_sends = [], car_term = None,
     car_lcd = demo_state, car_fd = 0, car_buffer = replicate 512 0, recieveBuffer = replicate 512 0, dataBuffer = msg,
     car_br = 10000, speed = 0, temperature = 0, fuelLevel = 0, greenLedState = 0, redLedState = 0\<rparr>"

definition demo_message :: "byte list" where
  "demo_message = bytes_of ''RX2 0010 5A 000000 3 1E ''"

lemma demo_car_ok:
  "quiet (demo_car msg)" "leds_ok (demo_car msg)" "lcd_at (car_lcd (demo_car msg)) (car_fd (demo_car msg)) = Some demo_lcd"
  by (simp_all add: demo_car_def quiet_def leds_ok_def demo_at)


text \<open>
  The lamp commands are sent on a change only: when the lamps already belong to the speed, the client
  sends nothing and its state stays as it is; otherwise it sends one SET and one CLEAR command.
\<close>

theorem leds_switched_once:
  assumes "quiet c" and "leds_ok c"
  shows "\<exists>c'. car_leds c = Go c' \<and> leds_match c' \<and> car_leds c' = Go c' \<and>
    car_sock c' = car_sock c @ (if leds_match c then [] else iac_escape (crlf_text (led_commands (speed c))))"
proof -
  obtain c' where c': "car_leds c = Go c'" "quiet c'" "leds_match c'"
    "car_sock c' = car_sock c @ (if leds_match c then [] else iac_escape (crlf_text (led_commands (speed c))))"
    using car_leds_outcome [OF assms] by blast
  moreover have "leds_ok c'" using c'(3) by (auto simp: leds_match_def leds_ok_def split: if_splits)
  ultimately show ?thesis using car_leds_outcome [of c'] by auto
qed

theorem leds_switched_once_witness:
  "\<exists>c'. car_leds (demo_car []) = Go c' \<and> car_leds c' = Go c' \<and>
     car_sock c' = iac_escape (crlf_text (led_commands 0))"
  using leds_switched_once [OF demo_car_ok(1,2), of "[]"] by (auto simp: demo_car_def leds_match_def)

text \<open>Two hexadecimal digits, in either case, decode to the byte they spell.\<close>

theorem hex_roundtrip:
  assumes "0 \<le> n" and "n < 256"
  shows "htoi (hex_digit u (n mod 16)) + htoi (hex_digit v (n div 16)) * 16 = n"
  using htoi_hex_digit [of "n mod 16" u] htoi_hex_digit [of "n div 16" v] assms by simp

theorem hex_roundtrip_witness: "htoi (hex_digit True 10) + htoi (hex_digit False 5) * 16 = 90"
  using hex_roundtrip [of 90 True False] by simp

text \<open>
  Up to 255 km/h and below 100 degrees both lines are legible: the first cells of the rows hold the
  speed line and the status line.
\<close>

theorem screen_legible:
  assumes "0 \<le> v" "v < 1000" "0 \<le> temp" "temp < 100"
  shows "take (length (speed_line v)) (row_text 16 (two_lines (speed_line v) (status_line fuel temp) t) 0) = speed_line v \<and>
    take (length (status_line fuel temp)) (row_text 16 (two_lines (speed_line v) (status_line fuel temp) t) 1) = status_line fuel temp"
proof -
  have l: "length (dec_int v) \<le> 3" "length (dec_int temp) \<le> 2"
    using dec_int_digits [of v] dec_int_digits [of temp] assms by (cases "v < 10"; cases "v < 100"; cases "temp < 10"; simp)+
  then have len: "length (speed_line v) \<le> 16" "length (status_line fuel temp) \<le> 16" by (simp_all add: line_lengths)
  show ?thesis using len by (auto simp: row_text_def two_lines_cells [OF len] list_eq_iff_nth_eq)
qed

theorem screen_legible_witness:
  "take (length (speed_line 90)) (row_text 16 (two_lines (speed_line 90) (status_line 3 30) (screen demo_lcd blank)) 0) = speed_line 90"
  using screen_legible [of 90 30] by simp

text \<open>
  The first line is never cleared: after a three-digit speed the last character of that line stays when
  the speed has two digits again, so 99 km/h reads "Speed : 99 km/hh".
\<close>

theorem stale_character:
  assumes "100 \<le> v" "v < 1000" and "10 \<le> w" "w < 100" and "0 \<le> a" "a < 100" "0 \<le> b" "b < 100"
  shows "row_text 16 (two_lines (speed_line w) (status_line g b) (two_lines (speed_line v) (status_line f a) t)) 0 =
    speed_line w @ [104]"
proof -
  have la: "length (dec_int a) \<le> 2" "length (dec_int b) \<le> 2"
    using dec_int_digits [of a] dec_int_digits [of b] assms by (cases "a < 10"; cases "b < 10"; simp)+
  have lv: "length (speed_line v) = 16" "length (speed_line w) = 15"
    using dec_int_digits [of v] dec_int_digits [of w] assms by (simp_all add: line_lengths)
  have ls: "length (status_line f a) \<le> 16" "length (status_line g b) \<le> 16" using la by (simp_all add: line_lengths)
  have "speed_line v ! 15 = last (speed_line v)" using lv(1) by (subst last_conv_nth) auto
  then have "speed_line v ! 15 = 104" by (simp add: speed_line_def)
  then show ?thesis using lv ls
    by (auto simp: row_text_def two_lines_cells nth_append less_Suc_eq numeral_eq_Suc list_eq_iff_nth_eq)
qed

theorem stale_character_witness:
  "row_text 16 (two_lines (speed_line 99) (status_line 3 20) (two_lines (speed_line 100) (status_line 3 20) (screen demo_lcd blank))) 0 =
     speed_line 99 @ [104]"
  by (rule stale_character) simp_all

text \<open>
  From 100 degrees on, the second line is one character too long for the display: its last blank wraps to
  the first cell and erases the "S" of the first line.
\<close>

theorem hot_engine_erases:
  assumes "0 \<le> v" "v < 1000" and "100 \<le> temp" "temp < 1000"
  shows "cells (two_lines (speed_line v) (status_line fuel temp) t) 0 = 32 \<and> speed_line v ! 0 = 83"
proof -
  let ?b = "status_line fuel temp"
  let ?t = "(fold (term_put 32) (speed_line v) (t\<lparr>cursor := 0\<rparr>))\<lparr>cursor := 16\<rparr>"
  have lb: "length ?b = 17" using dec_int_digits(3) [of temp] assms by (simp add: line_lengths)
  have bl: "last ?b = 32" by (simp add: status_line_def)
  have "?b \<noteq> []" "butlast ?b = take 16 ?b" using lb by (auto simp: butlast_conv_take)
  then have s: "take 16 ?b @ [last ?b] = ?b" using append_butlast_last_id [of ?b] by simp
  have "cursor (fold (term_put 32) (take 16 ?b) ?t) = 0" using term_puts(2) [of ?t 32 "take 16 ?b"] lb by simp
  then have "cells (fold (term_put 32) (take 16 ?b @ [last ?b]) ?t) 0 = last ?b" by (simp add: term_put_def)
  then have "cells (fold (term_put 32) ?b ?t) 0 = 32" using s bl by metis
  moreover have "speed_line v ! 0 = 83" by (simp add: speed_line_def)
  ultimately show ?thesis by (simp only: two_lines_def simp_thms)
qed

theorem hot_engine_erases_witness: "cells (two_lines (speed_line 50) (status_line 3 100) (screen demo_lcd blank)) 0 = 32"
  using hot_engine_erases [of 50 100] by simp

text \<open>
  An empty tank is shown as a full one: at fuel level 0 the client puts exactly the same on the display as at
  level 15, four solid bars.
\<close>

theorem empty_tank_looks_full:
  "lcdScreen fd v 0 temp s = lcdScreen fd v 15 temp s \<and> fuel_bars 0 = [255, 255, 255, 255]"
  by (simp add: lcdScreen_def status_line_def fuel_bars_def)

text \<open>How the send loop can end; an impossible result is one below -1 or past the bytes left.\<close>

definition send_ends :: "byte list \<Rightarrow> car \<Rightarrow> car outcome \<Rightarrow> bool" where
  "send_ends buf c r =
     (case r of
        Go c' \<Rightarrow> car_sock c' = car_sock c @ buf
      | Leave c' \<Rightarrow> False
      | Exit n c' \<Rightarrow> n = 1 \<and> (\<exists>k < length buf. car_sock c' = car_sock c @ take k buf)
      | Undefined \<Rightarrow> \<exists>xs r ys. car_sends c = xs @ r # ys \<and> (r < -1 \<or> sum_list xs + r > int (length buf)))"

lemma send_ends_step:
  assumes "car_sends c = rs # rest" and "0 < rs" "rs \<le> int (length buf)"
    and "send_ends (drop (nat rs) buf) (c\<lparr>car_sends := rest, car_sock := car_sock c @ take (nat rs) buf\<rparr>) r"
  shows "send_ends buf c r"
proof (cases r)
  case (Exit n c')
  then obtain k where k: "k < length buf - nat rs" "n = 1" "car_sock c' = car_sock c @ take (nat rs) buf @ take k (drop (nat rs) buf)"
    using assms(4) by (auto simp: send_ends_def)
  then show ?thesis using Exit by (auto simp: send_ends_def take_add intro!: exI [of _ "nat rs + k"])
next
  case Undefined
  then obtain xs x ys where "rest = xs @ x # ys" "x < -1 \<or> sum_list xs + x > int (length buf) - rs"
    using assms(2-4) by (auto simp: send_ends_def)
  then show ?thesis using Undefined assms(1) by (auto simp: send_ends_def intro!: exI [of _ "rs # xs"])
qed (use assms(4) in \<open>simp_all add: send_ends_def\<close>)

lemma car_send_ends: "send_ends buf c (car_send buf c)"
proof (induction buf c rule: car_send.induct)
  case (1 buf c)
  show ?case
  proof (cases "buf = [] \<or> car_sends c = []")
    case True
    then show ?thesis by (subst car_send.simps) (auto simp: send_ends_def split: list.splits)
  next
    case False
    then obtain rs rest where r: "car_sends c = rs # rest" "buf \<noteq> []" by (cases "car_sends c") auto
    show ?thesis
    proof (cases "rs = -1 \<or> rs = 0 \<or> rs < 0 \<or> rs > int (length buf)")
      case True
      then show ?thesis using r by (subst car_send.simps) (auto simp: send_ends_def intro!: exI [of _ "0::nat"] exI [of _ "[]"])
    next
      case ok: False
      have "car_send buf c = car_send (drop (nat rs) buf) (c\<lparr>car_sends := rest, car_sock := car_sock c @ take (nat rs) buf\<rparr>)"
        using r ok by (subst car_send.simps) auto
      then show ?thesis using 1 [OF r(2) r(1)] ok send_ends_step [OF r(1)] by auto
    qed
  qed
qed

text \<open>
  C30. The send loop always ends, and it hands over everything or stops the program: it returns only after all
  bytes went out in order, in whatever pieces the socket takes them; on a failed or empty \<^verbatim>\<open>send\<close> the program
  exits with a proper prefix sent.
\<close>

theorem send_all_or_exit:
  "case car_send buf c of
     Go c' \<Rightarrow> car_sock c' = car_sock c @ buf
   | Leave c' \<Rightarrow> False
   | Exit n c' \<Rightarrow> n = 1 \<and> (\<exists>k < length buf. car_sock c' = car_sock c @ take k buf)
   | Undefined \<Rightarrow> \<exists>xs r ys. car_sends c = xs @ r # ys \<and> (r < -1 \<or> sum_list xs + r > int (length buf))"
  using car_send_ends [of buf c] by (simp add: send_ends_def)

text \<open>
  C29. Text given to \<^verbatim>\<open>_input\<close> arrives: whatever the pieces, a telnet peer that receives the bytes the client put on
  its socket reports that text with every CR and LF turned into CR LF, and nothing else.
\<close>

theorem input_reaches_peer:
  assumes "quiet c" and "tn_state r = STATE_DATA"
  shows "\<exists>c'. car_input bs c = Go c' \<and> (\<forall>xss. concat xss = drop (length (car_sock c)) (car_sock c') \<longrightarrow>
    same_upto_cuts (fold telnet_recv xss r)
      (r\<lparr>tn_events := tn_events r @ [EV_DATA (crlf_text bs) (of_nat (length (crlf_text bs)))]\<rparr>))"
proof -
  have "same_upto_cuts (fold telnet_recv xss r)
      (r\<lparr>tn_events := tn_events r @ [EV_DATA (crlf_text bs) (of_nat (length (crlf_text bs)))]\<rparr>)"
    if "concat xss = iac_escape (crlf_text bs)" for xss
    using recv_many_chunks [of r xss] mccp1_free_data [OF assms(2)] recv_escaped [OF assms(2)] that same_trans by metis
  then show ?thesis using car_input_quiet [OF assms(1)] by simp
qed

theorem input_reaches_peer_witness:
  "\<exists>c'. car_input [65, 10] (demo_car []) = Go c' \<and> (\<forall>xss. concat xss = drop 0 (car_sock c') \<longrightarrow>
    same_upto_cuts (fold telnet_recv xss fresh) (fresh\<lparr>tn_events := [EV_DATA [65, 13, 10] 3]\<rparr>))"
  using input_reaches_peer [of "demo_car []" fresh "[65, 10]"] demo_car_ok(1)
  by (simp add: demo_car_def crlf_text_def)

text \<open>
  Typed text is not relayed but for its first byte, which is sent twice: the assignment in the condition of
  the read stores the comparison, so that the count used afterwards is 1.
\<close>

theorem stdin_first_byte_twice:
  assumes "quiet c" and "length (car_buffer c) = 512" and "length bs < 512" "last (car_buffer c) = 0"
    and "bs = k # rest" and "k \<notin> {0, 108, 115, 113}"
  shows "\<exists>c'. car_stdin (Got bs) second answer c = Go c' \<and>
    car_sock c' = car_sock c @ iac_escape (crlf_text [k, k])"
proof -
  let ?m = "overlay bs (car_buffer c)"
  have len: "length ?m = 512" and k: "?m ! 0 = k" "take 1 ?m = [k]"
    using assms(2,3,5) by (simp_all add: overlay_def take_Cons')
  have "last ?m = 0" using assms(2-4) by (simp add: overlay_def last_drop)
  then have z: "0 \<in> set ?m" using len by (metis last_in_set list.size(3) zero_neq_numeral)
  then have str: "c_string ?m = Some (cstr ?m 0)" by (simp add: c_string_def)
  have "hd ?m = k" using k len by (metis hd_conv_nth list.size(3) zero_neq_numeral)
  then have ne: "length (cstr ?m 0) \<ge> 1" using assms(5,6) len by (cases ?m) (auto simp: cstr_def)
  let ?c = "c\<lparr>car_buffer := ?m\<rparr>"
  have q: "quiet (car_print x ?c)" for x using assms(1) by (simp add: quiet_def car_print_def)
  have "crlf_text [k, k] = crlf_text [k] @ crlf_text [k]" by (simp add: crlf_text_def)
  then show ?thesis using assms(1,6) str ne k len
    by (auto simp: car_stdin_def car_input_buffer_def Let_def car_input_quiet quiet_def car_print_def
        simp del: car_input.simps bytes_of_simps)
qed

theorem stdin_first_byte_twice_witness:
  "\<exists>c'. car_stdin (Got [104, 105]) Eof None (demo_car []) = Go c' \<and> car_sock c' = [104, 104]"
  using stdin_first_byte_twice [of "demo_car []" "[104, 105]" 104 "[105]" Eof None] demo_car_ok(1)
  by (simp add: demo_car_def crlf_text_def iac_escape_def)

end
