(* ===== verification/Wiring_Board.thy ===== *)
theory Wiring_Board
  imports Prelude "HOL-Library.Monad_Syntax"
begin

text \<open>
  The board tables of \<^verbatim>\<open>wiringPi.c\<close> and the identification of the board from \<^verbatim>\<open>/proc/cpuinfo\<close>: pin
  numberings, register numbers per GPIO, and the functions \<^verbatim>\<open>piBoardRev\<close> and \<^verbatim>\<open>piBoardId\<close> on the text of
  the file. Reading a table outside its bounds, or a buffer that was never filled, is undefined
  behaviour and has the result \<open>None\<close>.
\<close>

section \<open>Tables\<close>

text \<open>An array read by a C index.\<close>

definition at_index :: "'a list \<Rightarrow> int \<Rightarrow> 'a option" where
  "at_index xs i = (if 0 \<le> i \<and> nat i < length xs then Some (xs ! nat i) else None)"

definition pinToGpioR1 :: "int list" where
  "pinToGpioR1 =
     [17, 18, 21, 22, 23, 24, 25, 4,
      0, 1,
      8, 7,
      10, 9, 11,
      14, 15] @ replicate 47 (- 1)"

definition pinToGpioR2 :: "int list" where
  "pinToGpioR2 =
     [17, 18, 27, 22, 23, 24, 25, 4,
      2, 3,
      8, 7,
      10, 9, 11,
      14, 15,
      28, 29, 30, 31,
      5, 6, 13, 19, 26,
      12, 16, 20, 21,
      0, 1] @ replicate 32 (- 1)"

definition physToGpioR1 :: "int list" where
  "physToGpioR1 =
     [-1,
      -1, -1,
      0, -1,
      1, -1,
      4, 14,
      -1, 15,
      17, 18,
      21, -1,
      22, 23,
      -1, 24,
      10, -1,
      9, 25,
      11, 8,
      -1, 7] @ replicate 37 (- 1)"

text \<open>This initialiser lists 63 values for 64 elements; the last element is zero.\<close>

definition physToGpioR2 :: "int list" where
  "physToGpioR2 =
     [-1,
      -1, -1,
      2, -1,
      3, -1,
      4, 14,
      -1, 15,
      17, 18,
      27, -1,
      22, 23,
      -1, 24,
      10, -1,
      9, 25,
      11, 8,
      -1, 7,
      0, 1,
      5, -1,
      6, 12,
      13, -1,
      19, 16,
      26, 20,
      -1, 21] @ replicate 10 (- 1) @
     [28, 29,
      30, 31] @ replicate 8 (- 1) @ [0]"

definition gpioToGPFSEL :: "nat list" where
  "gpioToGPFSEL =
     replicate 10 0 @ replicate 10 1 @ replicate 10 2 @ replicate 10 3 @ replicate 10 4 @ replicate 10 5"

definition gpioToShift :: "nat list" where
  "gpioToShift = concat (replicate 6 [0, 3, 6, 9, 12, 15, 18, 21, 24, 27])"

definition gpioToGPSET :: "nat list" where
  "gpioToGPSET = replicate 32 7 @ replicate 32 8"

definition gpioToGPCLR :: "nat list" where
  "gpioToGPCLR = replicate 32 10 @ replicate 32 11"

definition gpioToGPLEV :: "nat list" where
  "gpioToGPLEV = replicate 32 13 @ replicate 32 14"

definition gpioToPUDCLK :: "nat list" where
  "gpioToPUDCLK = replicate 32 38 @ replicate 32 39"

abbreviation (input) "FSEL_INPT \<equiv> (0 :: cint)"
abbreviation (input) "FSEL_OUTP \<equiv> (1 :: cint)"
abbreviation (input) "FSEL_ALT0 \<equiv> (4 :: cint)"
abbreviation (input) "FSEL_ALT5 \<equiv> (2 :: cint)"

abbreviation (input) "PWM_CONTROL \<equiv> (0 :: nat)"
abbreviation (input) "PWM0_RANGE \<equiv> (4 :: nat)"
abbreviation (input) "PWM0_DATA \<equiv> (5 :: nat)"
abbreviation (input) "PWM1_RANGE \<equiv> (8 :: nat)"
abbreviation (input) "PWM1_DATA \<equiv> (9 :: nat)"

definition gpioToPwmALT :: "cint list" where
  "gpioToPwmALT =
     [0, 0, 0, 0, 0, 0, 0, 0,
      0, 0, 0, 0, FSEL_ALT0, FSEL_ALT0, 0, 0,
      0, 0, FSEL_ALT5, FSEL_ALT5, 0, 0, 0, 0,
      0, 0, 0, 0, 0, 0, 0, 0,
      0, 0, 0, 0, 0, 0, 0, 0,
      FSEL_ALT0, FSEL_ALT0, 0, 0, 0, FSEL_ALT0, 0, 0] @ replicate 16 0"

definition gpioToPwmPort :: "nat list" where
  "gpioToPwmPort =
     [0, 0, 0, 0, 0, 0, 0, 0,
      0, 0, 0, 0, PWM0_DATA, PWM1_DATA, 0, 0,
      0, 0, PWM0_DATA, PWM1_DATA, 0, 0, 0, 0,
      0, 0, 0, 0, 0, 0, 0, 0,
      0, 0, 0, 0, 0, 0, 0, 0,
      PWM0_DATA, PWM1_DATA, 0, 0, 0, PWM1_DATA, 0, 0] @ replicate 16 0"

definition gpioToGpClkALT0 :: "cint list" where
  "gpioToGpClkALT0 =
     [0, 0, 0, 0, FSEL_ALT0, FSEL_ALT0, FSEL_ALT0, 0,
      0, 0, 0, 0, 0, 0, 0, 0,
      0, 0, 0, 0, FSEL_ALT5, FSEL_ALT5, 0, 0,
      0, 0, 0, 0, 0, 0, 0, 0,
      FSEL_ALT0, 0, FSEL_ALT0, 0, 0, 0, 0, 0,
      0, 0, FSEL_ALT0, FSEL_ALT0, FSEL_ALT0, 0, 0, 0] @ replicate 16 0"

text \<open>The entries -1 of these two tables are stored in \<^verbatim>\<open>uint8_t\<close> and read back as 255.\<close>

definition gpioToClkCon :: "byte list" where
  "gpioToClkCon =
     [-1, -1, -1, -1, 28, 30, 32, -1,
      -1, -1, -1, -1, -1, -1, -1, -1,
      -1, -1, -1, -1, 28, 30, -1, -1,
      -1, -1, -1, -1, -1, -1, -1, -1,
      28, -1, 28, -1, -1, -1, -1, -1,
      -1, -1, 28, 30, 28, -1, -1, -1] @ replicate 16 (- 1)"

definition gpioToClkDiv :: "byte list" where
  "gpioToClkDiv =
     [-1, -1, -1, -1, 29, 31, 33, -1,
      -1, -1, -1, -1, -1, -1, -1, -1,
      -1, -1, -1, -1, 29, 31, -1, -1,
      -1, -1, -1, -1, -1, -1, -1, -1,
      29, -1, 29, -1, -1, -1, -1, -1,
      -1, -1, 29, 31, 29, -1, -1, -1] @ replicate 16 (- 1)"

section \<open>Reading /proc/cpuinfo\<close>

text \<open>
  A call either returns or ends the process by \<^verbatim>\<open>exit (EXIT_FAILURE)\<close> with a message on \<^verbatim>\<open>stderr\<close>
  (the quotation marks inside the messages are left out).
\<close>

datatype 'a halting = Returned 'a | Exited string

fun halting_bind :: "'a halting \<Rightarrow> ('a \<Rightarrow> 'b halting) \<Rightarrow> 'b halting" where
  "halting_bind (Returned x) f = f x"
| "halting_bind (Exited m) f = Exited m"

text \<open>
  One \<^verbatim>\<open>fgets (line, 120, cpuFd)\<close>: up to 119 characters, ending after the first newline; and the loop
  that reads until a line starts with a word. The result is the last content of the buffer, \<open>None\<close> when
  nothing was read at all.
\<close>

definition fgets :: "nat \<Rightarrow> string \<Rightarrow> string \<times> string" where
  "fgets n cpu =
     (let l = takeWhile (\<lambda>c. c \<noteq> CHR 0x0A) (take (n - 1) cpu);
          m = (if length l < min (n - 1) (length cpu) then length l + 1 else length l)
      in (take m cpu, drop m cpu))"

definition strncmp_eq :: "string \<Rightarrow> string \<Rightarrow> bool" where
  "strncmp_eq line word = (take (length word) line = word)"

function find_line :: "string \<Rightarrow> string option \<Rightarrow> string \<Rightarrow> string option" where
  "find_line word line cpu =
     (if cpu = [] then line
      else case fgets 120 cpu of (l, rest) \<Rightarrow>
        if strncmp_eq l word then Some l else find_line word (Some l) rest)"
  by pat_completeness auto

lemma fgets_progress: "cpu \<noteq> [] \<Longrightarrow> length (snd (fgets 120 cpu)) < length cpu"
  by (cases cpu) (auto simp: fgets_def Let_def)

termination find_line
proof (relation "measure (\<lambda>(_, _, cpu). length cpu)", goal_cases)
  case (2 word line cpu l rest)
  then show ?case using fgets_progress [of cpu] by (metis case_prod_conv in_measure snd_conv)
qed simp

declare find_line.simps [simp del]

fun contains :: "string \<Rightarrow> string \<Rightarrow> bool" where
  "contains [] word = (word = [])"
| "contains (c # cs) word = (take (length word) (c # cs) = word \<or> contains cs word)"

definition isspace :: "char \<Rightarrow> bool" where
  "isspace c = (c \<in> {CHR '' '', CHR 0x09, CHR 0x0A, CHR 0x0B, CHR 0x0C, CHR 0x0D})"

definition isdigit :: "char \<Rightarrow> bool" where
  "isdigit c = (48 \<le> (of_char c :: nat) \<and> (of_char c :: nat) \<le> 57)"

definition xdigit_value :: "char \<Rightarrow> nat option" where
  "xdigit_value c = (let n = of_char c :: nat in
     if 48 \<le> n \<and> n \<le> 57 then Some (n - 48)
     else if 65 \<le> n \<and> n \<le> 70 then Some (n - 55)
     else if 97 \<le> n \<and> n \<le> 102 then Some (n - 87) else None)"

definition isxdigit :: "char \<Rightarrow> bool" where
  "isxdigit c = (xdigit_value c \<noteq> None)"

text \<open>Trailing carriage returns and newlines are cut; the line starts with a letter, so the loop ends.\<close>

definition chomp :: "string \<Rightarrow> string" where
  "chomp line = rev (dropWhile (\<lambda>c. c = CHR 0x0A \<or> c = CHR 0x0D) (rev line))"

text \<open>The text after the first colon and the spaces behind it, if there is a colon.\<close>

definition after_colon :: "string \<Rightarrow> string option" where
  "after_colon line =
     (case dropWhile (\<lambda>c. c \<noteq> CHR '':'') line of [] \<Rightarrow> None | _ # cs \<Rightarrow> Some (dropWhile isspace cs))"

definition last4 :: "string \<Rightarrow> string" where
  "last4 c = drop (length c - 4) c"

text \<open>\<^verbatim>\<open>strtol (c, NULL, 16)\<close> on a text without sign or leading space, and the cast to 32 bits.\<close>

fun hex_value :: "nat \<Rightarrow> string \<Rightarrow> nat" where
  "hex_value acc [] = acc"
| "hex_value acc (c # cs) = (case xdigit_value c of None \<Rightarrow> acc | Some d \<Rightarrow> hex_value (16 * acc + d) cs)"

definition hex_prefix :: "string \<Rightarrow> string" where
  "hex_prefix c =
     (case c of z # x # d # cs \<Rightarrow>
        if z = CHR ''0'' \<and> (x = CHR ''x'' \<or> x = CHR ''X'') \<and> isxdigit d then d # cs else c
      | _ \<Rightarrow> c)"

definition strtol16 :: "string \<Rightarrow> cint" where
  "strtol16 c = of_nat (min (hex_value 0 (hex_prefix c)) (2 ^ 63 - 1))"

section \<open>The board\<close>

abbreviation (input) "PI_MODEL_A \<equiv> (0 :: cint)"
abbreviation (input) "PI_MODEL_B \<equiv> (1 :: cint)"
abbreviation (input) "PI_MODEL_AP \<equiv> (2 :: cint)"
abbreviation (input) "PI_MODEL_BP \<equiv> (3 :: cint)"
abbreviation (input) "PI_MODEL_CM \<equiv> (6 :: cint)"
abbreviation (input) "PI_VERSION_1 \<equiv> (0 :: cint)"
abbreviation (input) "PI_VERSION_1_1 \<equiv> (1 :: cint)"
abbreviation (input) "PI_VERSION_1_2 \<equiv> (2 :: cint)"
abbreviation (input) "PI_VERSION_2 \<equiv> (3 :: cint)"
abbreviation (input) "PI_MAKER_SONY \<equiv> (0 :: cint)"
abbreviation (input) "PI_MAKER_EGOMAN \<equiv> (1 :: cint)"
abbreviation (input) "PI_MAKER_UNKNOWN \<equiv> (3 :: cint)"

text \<open>The two static variables: the cached revision (-1 before the first call) and \<^verbatim>\<open>piModel2\<close>.\<close>

record board_state =
  boardRev :: int
  piModel2 :: bool

record board_id =
  model :: cint
  rev_id :: cint
  mem_id :: cint
  maker :: cint
  warranty :: bool

definition piBoardRevOops :: "string \<Rightarrow> 'a halting" where
  "piBoardRevOops why = Exited why"

text \<open>
  The end of \<^verbatim>\<open>piBoardRev\<close>: the revision from the \<^verbatim>\<open>Revision\<close> line.
\<close>

definition revision_of_line :: "string \<Rightarrow> int halting" where
  "revision_of_line line =
     (case after_colon (chomp line) of
        None \<Rightarrow> piBoardRevOops ''Bogus Revision line (no colon)''
      | Some c \<Rightarrow>
          if c = [] \<or> \<not> isxdigit (hd c) then piBoardRevOops ''Bogus Revision line (no hex digit at start of revision)''
          else if length c < 4 then piBoardRevOops ''Bogus revision line (too small)''
          else Returned (if last4 c = ''0002'' \<or> last4 c = ''0003'' then 1 else 2))"

definition piBoardRev :: "string option \<Rightarrow> board_state \<Rightarrow> (int \<times> board_state) halting option" where
  "piBoardRev cpuinfo b =
     (if boardRev b \<noteq> - 1 then Some (Returned (boardRev b, b))
      else case cpuinfo of
        None \<Rightarrow> Some (piBoardRevOops ''Unable to open /proc/cpuinfo'')
      | Some cpu \<Rightarrow> do {
          hw \<leftarrow> find_line ''Hardware'' None cpu;
          if \<not> strncmp_eq hw ''Hardware'' then Some (piBoardRevOops ''No hardware line'')
          else if contains hw ''BCM2709'' then Some (Returned (2, b\<lparr>piModel2 := True, boardRev := 2\<rparr>))
          else if \<not> contains hw ''BCM2708'' then Some (Exited ''Unable to determine hardware version'')
          else do {
            line \<leftarrow> find_line ''Revision'' (Some hw) cpu;
            if \<not> strncmp_eq line ''Revision'' then Some (piBoardRevOops ''No Revision line'')
            else Some (halting_bind (revision_of_line line) (\<lambda>r. Returned (r, b\<lparr>boardRev := r\<rparr>)))
          }
        })"

text \<open>The new encoding, one bit field each, and the table of the old one.\<close>

definition new_id :: "cint \<Rightarrow> board_id" where
  "new_id revision =
     \<lparr>model = drop_bit 4 (revision AND push_bit 4 0xFF),
      rev_id = revision AND 0x0F,
      mem_id = drop_bit 20 (revision AND push_bit 20 0x07),
      maker = drop_bit 16 (revision AND push_bit 16 0x0F),
      warranty = (revision AND push_bit 24 0x03 \<noteq> 0)\<rparr>"

definition old_id :: "bool \<Rightarrow> string \<Rightarrow> board_id" where
  "old_id w c =
     (if c = ''0002'' then \<lparr>model = PI_MODEL_B, rev_id = PI_VERSION_1, mem_id = 0, maker = PI_MAKER_EGOMAN, warranty = w\<rparr>
      else if c = ''0003'' then \<lparr>model = PI_MODEL_B, rev_id = PI_VERSION_1_1, mem_id = 0, maker = PI_MAKER_EGOMAN, warranty = w\<rparr>
      else if c = ''0004'' then \<lparr>model = PI_MODEL_B, rev_id = PI_VERSION_2, mem_id = 0, maker = PI_MAKER_SONY, warranty = w\<rparr>
      else if c = ''0005'' then \<lparr>model = PI_MODEL_B, rev_id = PI_VERSION_2, mem_id = 0, maker = PI_MAKER_UNKNOWN, warranty = w\<rparr>
      else if c = ''0006'' then \<lparr>model = PI_MODEL_B, rev_id = PI_VERSION_2, mem_id = 0, maker = PI_MAKER_EGOMAN, warranty = w\<rparr>
      else if c = ''0007'' then \<lparr>model = PI_MODEL_A, rev_id = PI_VERSION_2, mem_id = 0, maker = PI_MAKER_EGOMAN, warranty = w\<rparr>
      else if c = ''0008'' then \<lparr>model = PI_MODEL_A, rev_id = PI_VERSION_2, mem_id = 0, maker = PI_MAKER_SONY, warranty = w\<rparr>
      else if c = ''0009'' then \<lparr>model = PI_MODEL_B, rev_id = PI_VERSION_2, mem_id = 0, maker = PI_MAKER_UNKNOWN, warranty = w\<rparr>
      else if c = ''000d'' then \<lparr>model = PI_MODEL_B, rev_id = PI_VERSION_2, mem_id = 1, maker = PI_MAKER_EGOMAN, warranty = w\<rparr>
      else if c = ''000e'' then \<lparr>model = PI_MODEL_B, rev_id = PI_VERSION_2, mem_id = 1, maker = PI_MAKER_SONY, warranty = w\<rparr>
      else if c = ''000f'' then \<lparr>model = PI_MODEL_B, rev_id = PI_VERSION_2, mem_id = 1, maker = PI_MAKER_EGOMAN, warranty = w\<rparr>
      else if c = ''0010'' then \<lparr>model = PI_MODEL_BP, rev_id = PI_VERSION_1_2, mem_id = 1, maker = PI_MAKER_SONY, warranty = w\<rparr>
      else if c = ''0011'' then \<lparr>model = PI_MODEL_CM, rev_id = PI_VERSION_1_2, mem_id = 1, maker = PI_MAKER_SONY, warranty = w\<rparr>
      else if c = ''0012'' then \<lparr>model = PI_MODEL_AP, rev_id = PI_VERSION_1_2, mem_id = 0, maker = PI_MAKER_SONY, warranty = w\<rparr>
      else if c = ''0013'' then \<lparr>model = PI_MODEL_BP, rev_id = PI_VERSION_1_2, mem_id = 1, maker = PI_MAKER_EGOMAN, warranty = w\<rparr>
      else if c = ''0014'' then \<lparr>model = PI_MODEL_CM, rev_id = PI_VERSION_1_2, mem_id = 1, maker = PI_MAKER_SONY, warranty = w\<rparr>
      else if c = ''0015'' then \<lparr>model = PI_MODEL_AP, rev_id = PI_VERSION_1_1, mem_id = 0, maker = PI_MAKER_SONY, warranty = w\<rparr>
      else \<lparr>model = 0, rev_id = 0, mem_id = 0, maker = 0, warranty = w\<rparr>)"

definition id_of_line :: "string \<Rightarrow> board_id halting" where
  "id_of_line line =
     (case after_colon (chomp line) of
        None \<Rightarrow> piBoardRevOops ''Bogus Revision line (no colon)''
      | Some c \<Rightarrow>
          if c = [] \<or> \<not> isxdigit (hd c) then piBoardRevOops ''Bogus Revision line (no hex digit at start of revision)''
          else if strtol16 c AND push_bit 23 1 \<noteq> 0 then Returned (new_id (strtol16 c))
          else if \<not> isdigit (hd c) then piBoardRevOops ''Bogus Revision line (no digit at start of revision)''
          else if length c < 4 then piBoardRevOops ''Bogus Revision line (not long enough)''
          else Returned (old_id (4 < length c) (last4 c)))"

text \<open>The second opening of the file may fail although the first did not; both contents are arguments.\<close>

definition piBoardId :: "string option \<Rightarrow> string option \<Rightarrow> board_state \<Rightarrow> (board_id \<times> board_state) halting option" where
  "piBoardId cpuinfo cpuinfo2 b = do {
     r \<leftarrow> piBoardRev cpuinfo b;
     case r of
       Exited m \<Rightarrow> Some (Exited m)
     | Returned (_, b') \<Rightarrow>
         case cpuinfo2 of
           None \<Rightarrow> Some (piBoardRevOops ''Unable to open /proc/cpuinfo'')
         | Some cpu \<Rightarrow> do {
             line \<leftarrow> find_line ''Revision'' None cpu;
             if \<not> strncmp_eq line ''Revision'' then Some (piBoardRevOops ''No Revision line'')
             else Some (halting_bind (id_of_line line) (\<lambda>i. Returned (i, b')))
           }
   }"

section \<open>Facts on the tables\<close>

lemma at_index_Some: "at_index xs i = Some x \<longleftrightarrow> 0 \<le> i \<and> nat i < length xs \<and> xs ! nat i = x"
  by (auto simp: at_index_def)

lemma at_index_None: "at_index xs i = None \<longleftrightarrow> i < 0 \<or> int (length xs) \<le> i"
  by (auto simp: at_index_def)

lemma nth_replicate2: "n < a + b \<Longrightarrow> (replicate a x @ replicate b y) ! n = (if n < a then x else y)"
  by (simp add: nth_append)

lemma bank_tables:
  assumes "0 \<le> p" "p < 64"
  shows "at_index gpioToGPSET p = Some (if p < 32 then 7 else 8)"
    and "at_index gpioToGPCLR p = Some (if p < 32 then 10 else 11)"
    and "at_index gpioToGPLEV p = Some (if p < 32 then 13 else 14)"
    and "at_index gpioToPUDCLK p = Some (if p < 32 then 38 else 39)"
  using assms by (auto simp: at_index_def gpioToGPSET_def gpioToGPCLR_def gpioToGPLEV_def gpioToPUDCLK_def nth_append)

lemma table_lengths [simp]:
  "length pinToGpioR1 = 64" "length pinToGpioR2 = 64" "length physToGpioR1 = 64" "length physToGpioR2 = 64"
  "length gpioToGPFSEL = 60" "length gpioToShift = 60"
  by (simp_all add: pinToGpioR1_def pinToGpioR2_def physToGpioR1_def physToGpioR2_def gpioToGPFSEL_def gpioToShift_def
      numeral_eq_Suc)

lemma all_below: "(\<forall>p < n. P p) \<longleftrightarrow> list_all P [0..<n]"
  by (auto simp: list_all_iff)

lemma fsel_tables_nat: "\<forall>n < 60. gpioToGPFSEL ! n = n div 10 \<and> gpioToShift ! n = 3 * (n mod 10)"
  unfolding all_below by code_simp

lemma fsel_tables:
  assumes "0 \<le> p" "p < 60"
  shows "at_index gpioToGPFSEL p = Some (nat p div 10)" and "at_index gpioToShift p = Some (3 * (nat p mod 10))"
  using assms fsel_tables_nat by (auto simp: at_index_def)

end
