(* ===== verification/Wiring_Pi.thy ===== *)
theory Wiring_Pi
  imports Wiring_Board
begin

text \<open>
  The pin functions of \<^verbatim>\<open>wiringPi.c\<close>, \<^verbatim>\<open>softPwm.c\<close> and \<^verbatim>\<open>softTone.c\<close> over the state of the library. The
  peripheral registers are four banks of 32-bit words, and every access of the code to the outside
  (register writes, delays, files of \<^verbatim>\<open>/sys/class/gpio\<close>, calls of a device node, threads) is appended to a
  trace. What the hardware answers is input: the level registers, the polls of a busy flag, the bytes
  of the value files, the answers of device nodes and the ids of new threads. A null or out-of-range
  access and a wait that never ends have the result \<open>None\<close>.
\<close>

section \<open>State\<close>

datatype bank = Gpio | Pwm | Clk | Pads

datatype node_op = NodePinMode | NodePullUpDn | NodeDigitalWrite | NodePwmWrite | NodeAnalogWrite | NodeDigitalRead | NodeAnalogRead

datatype hw_event =
    RegWrite bank nat cint
  | WaitMicros nat
  | WaitMillis nat
  | SysWrite int string
  | NodeCall node_op int int int
  | SysRead int nat
  | EdgeSetup int string
  | ThreadStart nat int
  | ThreadStop nat

record wiringPiNodeStruct =
  pinBase :: int
  pinMax :: int
  node_fd :: int
  data0 :: cint
  data1 :: cint
  data2 :: cint
  data3 :: cint

record wiring =
  wiringPiMode :: int
  pinToGpio :: "int list"
  physToGpio :: "int list"
  RASPBERRY_PI_PERI_BASE :: cint
  mapped :: "bank \<Rightarrow> bool"
  regs :: "bank \<Rightarrow> nat \<Rightarrow> cint"
  polls :: "bool list"
  sysFds :: "int list"
  sysValue :: "int \<Rightarrow> char"
  wiringPiNodes :: "wiringPiNodeStruct list"
  nodeReads :: "int list"
  marks :: "int list"
  ranges :: "int list"
  pwmThreads :: "nat list"
  freqs :: "int list"
  toneThreads :: "nat list"
  spawns :: "nat list"
  events :: "hw_event list"

abbreviation (input) "WPI_MODE_PINS \<equiv> (0 :: int)"
abbreviation (input) "WPI_MODE_GPIO \<equiv> (1 :: int)"
abbreviation (input) "WPI_MODE_GPIO_SYS \<equiv> (2 :: int)"
abbreviation (input) "WPI_MODE_PHYS \<equiv> (3 :: int)"
abbreviation (input) "WPI_MODE_UNINITIALISED \<equiv> (- 1 :: int)"

abbreviation (input) "INPUT \<equiv> (0 :: int)"
abbreviation (input) "OUTPUT \<equiv> (1 :: int)"
abbreviation (input) "PWM_OUTPUT \<equiv> (2 :: int)"
abbreviation (input) "GPIO_CLOCK \<equiv> (3 :: int)"
abbreviation (input) "SOFT_PWM_OUTPUT \<equiv> (4 :: int)"
abbreviation (input) "SOFT_TONE_OUTPUT \<equiv> (5 :: int)"
abbreviation (input) "PWM_TONE_OUTPUT \<equiv> (6 :: int)"

abbreviation (input) "LOW \<equiv> (0 :: int)"
abbreviation (input) "HIGH \<equiv> (1 :: int)"
abbreviation (input) "PWM_MODE_MS \<equiv> (0 :: int)"
abbreviation (input) "PWM_MODE_BAL \<equiv> (1 :: int)"

abbreviation (input) "BCM_PASSWORD \<equiv> (0x5A000000 :: cint)"
abbreviation (input) "GPPUD \<equiv> (37 :: nat)"
abbreviation (input) "PWMCLK_CNTL \<equiv> (40 :: nat)"
abbreviation (input) "PWMCLK_DIV \<equiv> (41 :: nat)"
abbreviation (input) "PWM0_MS_MODE \<equiv> (0x0080 :: cint)"
abbreviation (input) "PWM0_ENABLE \<equiv> (0x0001 :: cint)"
abbreviation (input) "PWM1_MS_MODE \<equiv> (0x8000 :: cint)"
abbreviation (input) "PWM1_ENABLE \<equiv> (0x0100 :: cint)"
abbreviation (input) "GPIO_CLOCK_SOURCE \<equiv> (1 :: cint)"

definition wiring_start :: wiring where
  "wiring_start =
     \<lparr>wiringPiMode = WPI_MODE_UNINITIALISED, pinToGpio = [], physToGpio = [], RASPBERRY_PI_PERI_BASE = 0,
      mapped = (\<lambda>_. False), regs = (\<lambda>_ _. 0), polls = [], sysFds = replicate 64 (- 1), sysValue = (\<lambda>_. CHR ''0''),
      wiringPiNodes = [], nodeReads = [], marks = replicate 1024 0, ranges = replicate 1024 0,
      pwmThreads = replicate 1024 0, freqs = replicate 64 0, toneThreads = replicate 64 0, spawns = [], events = []\<rparr>"

section \<open>Access to the outside\<close>

definition emit :: "hw_event \<Rightarrow> wiring \<Rightarrow> wiring" where
  "emit e w = w\<lparr>events := events w @ [e]\<rparr>"

definition reg_read :: "bank \<Rightarrow> nat \<Rightarrow> wiring \<Rightarrow> cint option" where
  "reg_read b n w = (if mapped w b then Some (regs w b n) else None)"

definition reg_write :: "bank \<Rightarrow> nat \<Rightarrow> cint \<Rightarrow> wiring \<Rightarrow> wiring option" where
  "reg_write b n v w =
     (if mapped w b then Some (emit (RegWrite b n v) (w\<lparr>regs := (regs w)(b := (regs w b)(n := v))\<rparr>)) else None)"

definition delayMicroseconds :: "nat \<Rightarrow> wiring \<Rightarrow> wiring" where
  "delayMicroseconds howLong w = (if howLong = 0 then w else emit (WaitMicros howLong) w)"

text \<open>
  \<^verbatim>\<open>while ((*(clk + n) & 0x80) != 0)\<close>: each poll answers with the next input; \<open>delaying\<close> tells whether the
  body waits a microsecond.
\<close>

fun wait_busy :: "bool \<Rightarrow> bool list \<Rightarrow> wiring \<Rightarrow> wiring option" where
  "wait_busy delaying [] w = None"
| "wait_busy delaying (busy # ps) w =
     (if busy then wait_busy delaying ps (if delaying then delayMicroseconds 1 w else w) else Some (w\<lparr>polls := ps\<rparr>))"

section \<open>Pins\<close>

text \<open>\<^verbatim>\<open>(pin & PI_GPIO_MASK) == 0\<close>: a pin of the board itself.\<close>

definition on_board :: "int \<Rightarrow> bool" where
  "on_board pin = ((word_of_int pin :: cint) AND 0xFFFFFFC0 = 0)"

text \<open>
  The translation that starts most functions: \<open>Some None\<close> is the early return in a mode that has no
  memory-mapped pins, \<open>None\<close> a read outside the table.
\<close>

definition gpio_of :: "wiring \<Rightarrow> int \<Rightarrow> int option option" where
  "gpio_of w pin =
     (if wiringPiMode w = WPI_MODE_PINS then map_option Some (at_index (pinToGpio w) pin)
      else if wiringPiMode w = WPI_MODE_PHYS then map_option Some (at_index (physToGpio w) pin)
      else if wiringPiMode w \<noteq> WPI_MODE_GPIO then Some None
      else Some (Some pin))"

definition gpio_mode :: "wiring \<Rightarrow> bool" where
  "gpio_mode w = (wiringPiMode w = WPI_MODE_PINS \<or> wiringPiMode w = WPI_MODE_PHYS \<or> wiringPiMode w = WPI_MODE_GPIO)"

definition pin_bit :: "int \<Rightarrow> cint" where
  "pin_bit pin = push_bit (nat (pin AND 31)) 1"

definition wpiPinToGpio :: "wiring \<Rightarrow> int \<Rightarrow> int option" where
  "wpiPinToGpio w wpiPin = at_index (pinToGpio w) (wpiPin AND 63)"

definition physPinToGpio :: "wiring \<Rightarrow> int \<Rightarrow> int option" where
  "physPinToGpio w physPin = at_index (physToGpio w) (physPin AND 63)"

definition setPadDrive :: "int \<Rightarrow> int \<Rightarrow> wiring \<Rightarrow> wiring option" where
  "setPadDrive grp value w =
     (if \<not> gpio_mode w then Some w
      else if RASPBERRY_PI_PERI_BASE w = 0 then Some w
      else if grp < 0 \<or> grp > 2 then Some w
      else reg_write Pads (nat (grp + 11)) (BCM_PASSWORD OR 0x18 OR (word_of_int value AND 7)) w)"

definition getAlt :: "int \<Rightarrow> wiring \<Rightarrow> cint option" where
  "getAlt pin w = do {
     g \<leftarrow> gpio_of w (pin AND 63);
     case g of
       None \<Rightarrow> Some 0
     | Some p \<Rightarrow> do {
         fSel \<leftarrow> at_index gpioToGPFSEL p;
         shift \<leftarrow> at_index gpioToShift p;
         r \<leftarrow> reg_read Gpio fSel w;
         Some (drop_bit shift r AND 7)
       }
   }"

section \<open>Pulse width and clock\<close>

definition pwmSetMode :: "int \<Rightarrow> wiring \<Rightarrow> wiring option" where
  "pwmSetMode mode w =
     (if \<not> gpio_mode w then Some w
      else if mode = PWM_MODE_MS
      then reg_write Pwm PWM_CONTROL (PWM0_ENABLE OR PWM1_ENABLE OR PWM0_MS_MODE OR PWM1_MS_MODE) w
      else reg_write Pwm PWM_CONTROL (PWM0_ENABLE OR PWM1_ENABLE) w)"

definition pwmSetRange :: "cint \<Rightarrow> wiring \<Rightarrow> wiring option" where
  "pwmSetRange r w =
     (if \<not> gpio_mode w then Some w
      else if RASPBERRY_PI_PERI_BASE w = 0 then Some w
      else do {
        w \<leftarrow> reg_write Pwm PWM0_RANGE r w;
        w \<leftarrow> reg_write Pwm PWM1_RANGE r (delayMicroseconds 10 w);
        Some (delayMicroseconds 10 w)
      })"

definition pwmSetClock :: "int \<Rightarrow> wiring \<Rightarrow> wiring option" where
  "pwmSetClock divisor w =
     (if \<not> gpio_mode w then Some w
      else if RASPBERRY_PI_PERI_BASE w = 0 then Some w
      else do {
        pwm_control \<leftarrow> reg_read Pwm PWM_CONTROL w;
        w \<leftarrow> reg_write Pwm PWM_CONTROL 0 w;
        w \<leftarrow> reg_write Clk PWMCLK_CNTL (BCM_PASSWORD OR 0x01) w;
        w \<leftarrow> wait_busy True (polls w) (delayMicroseconds 110 w);
        w \<leftarrow> reg_write Clk PWMCLK_DIV (BCM_PASSWORD OR push_bit 12 (word_of_int (divisor AND 4095))) w;
        w \<leftarrow> reg_write Clk PWMCLK_CNTL (BCM_PASSWORD OR 0x11) w;
        reg_write Pwm PWM_CONTROL pwm_control w
      })"

text \<open>
  The fractional divisor is computed in double precision; on these operands the result is the quotient
  rounded towards zero. A division by zero is undefined.
\<close>

definition clock_divisors :: "int \<Rightarrow> (int \<times> int) option" where
  "clock_divisors freq =
     (if freq = 0 then None
      else
        let divi = sgn freq * (19200000 div \<bar>freq\<bar>);
            divr = 19200000 mod \<bar>freq\<bar>;
            divf = divr * 4096 div 19200000
        in Some (if divi > 4095 then 4095 else divi, divf))"

definition gpioClockSet :: "int \<Rightarrow> int \<Rightarrow> wiring \<Rightarrow> wiring option" where
  "gpioClockSet pin freq w = do {
     g \<leftarrow> gpio_of w (pin AND 63);
     case g of
       None \<Rightarrow> Some w
     | Some p \<Rightarrow>
         if RASPBERRY_PI_PERI_BASE w = 0 then Some w
         else do {
           (divi, divf) \<leftarrow> clock_divisors freq;
           con \<leftarrow> at_index gpioToClkCon p;
           w \<leftarrow> reg_write Clk (unat con) (BCM_PASSWORD OR GPIO_CLOCK_SOURCE) w;
           w \<leftarrow> wait_busy False (polls w) w;
           dv \<leftarrow> at_index gpioToClkDiv p;
           w \<leftarrow> reg_write Clk (unat dv) (BCM_PASSWORD OR push_bit 12 (word_of_int divi) OR word_of_int divf) w;
           reg_write Clk (unat con) (BCM_PASSWORD OR 0x10 OR GPIO_CLOCK_SOURCE) w
         }
   }"

section \<open>Device nodes\<close>

fun find_node :: "int \<Rightarrow> wiringPiNodeStruct list \<Rightarrow> wiringPiNodeStruct option" where
  "find_node pin [] = None"
| "find_node pin (n # ns) = (if pinBase n \<le> pin \<and> pin \<le> pinMax n then Some n else find_node pin ns)"

definition wiringPiFindNode :: "int \<Rightarrow> wiring \<Rightarrow> wiringPiNodeStruct option" where
  "wiringPiFindNode pin w = find_node pin (wiringPiNodes w)"

fun overlap_from :: "int \<Rightarrow> nat \<Rightarrow> wiring \<Rightarrow> bool" where
  "overlap_from pin 0 w = False"
| "overlap_from pin (Suc n) w = (wiringPiFindNode pin w \<noteq> None \<or> overlap_from (pin + 1) n w)"

text \<open>
  The fatal failures end the process. \<open>allocated\<close> is the outcome of \<^verbatim>\<open>calloc\<close>; a sum \<open>pinBase + numPins\<close>
  past the largest \<^verbatim>\<open>int\<close> overflows, which is undefined. A new node has the dummy operations, which a
  driver then replaces.
\<close>

definition wiringPiNewNode :: "bool \<Rightarrow> int \<Rightarrow> int \<Rightarrow> wiring \<Rightarrow> (wiringPiNodeStruct \<times> wiring) halting option" where
  "wiringPiNewNode allocated base numPins w =
     (if base < 64 then Some (Exited ''wiringPiNewNode: pinBase is < 64'')
      else if base + numPins > 2 ^ 31 - 1 then None
      else if overlap_from base (nat numPins) w then Some (Exited ''wiringPiNewNode: Pin overlaps with existing definition'')
      else if \<not> allocated then Some (Exited ''wiringPiNewNode: Unable to allocate memory'')
      else let n = \<lparr>pinBase = base, pinMax = base + numPins - 1, node_fd = 0, data0 = 0, data1 = 0, data2 = 0, data3 = 0\<rparr>
           in Some (Returned (n, w\<lparr>wiringPiNodes := n # wiringPiNodes w\<rparr>)))"

text \<open>The call of a node's function is an event; its answer, where it has one, is input.\<close>

definition node_call :: "node_op \<Rightarrow> int \<Rightarrow> int \<Rightarrow> wiring \<Rightarrow> wiring" where
  "node_call f pin value w =
     (case wiringPiFindNode pin w of None \<Rightarrow> w | Some n \<Rightarrow> emit (NodeCall f (pinBase n) pin value) w)"

definition node_read :: "node_op \<Rightarrow> int \<Rightarrow> wiring \<Rightarrow> int \<times> wiring" where
  "node_read f pin w =
     (case wiringPiFindNode pin w of
        None \<Rightarrow> (0, w)
      | Some n \<Rightarrow>
          case nodeReads w of
            [] \<Rightarrow> (0, emit (NodeCall f (pinBase n) pin 0) w)
          | v # vs \<Rightarrow> (v, emit (NodeCall f (pinBase n) pin 0) (w\<lparr>nodeReads := vs\<rparr>)))"

section \<open>Core functions\<close>

text \<open>The update \<^verbatim>\<open>(r & ~(7 << shift)) | (f << shift)\<close> of a function-select register.\<close>

definition fsel_update :: "cint \<Rightarrow> nat \<Rightarrow> cint \<Rightarrow> cint" where
  "fsel_update r shift f = (r AND NOT (push_bit shift 7)) OR push_bit shift f"

definition set_function :: "int \<Rightarrow> cint \<Rightarrow> wiring \<Rightarrow> wiring option" where
  "set_function p f w = do {
     fSel \<leftarrow> at_index gpioToGPFSEL p;
     shift \<leftarrow> at_index gpioToShift p;
     r \<leftarrow> reg_read Gpio fSel w;
     reg_write Gpio fSel (fsel_update r shift f) w
   }"

definition pinModeAlt :: "int \<Rightarrow> int \<Rightarrow> wiring \<Rightarrow> wiring option" where
  "pinModeAlt pin mode w =
     (if on_board pin then do {
        g \<leftarrow> gpio_of w pin;
        case g of None \<Rightarrow> Some w | Some p \<Rightarrow> set_function p (word_of_int mode AND 0x7) w
      }
      else Some w)"

definition digitalWrite :: "int \<Rightarrow> int \<Rightarrow> wiring \<Rightarrow> wiring option" where
  "digitalWrite pin value w =
     (if on_board pin then
        if wiringPiMode w = WPI_MODE_GPIO_SYS then do {
          fd \<leftarrow> at_index (sysFds w) pin;
          Some (if fd \<noteq> - 1 then emit (SysWrite fd (if value = LOW then ''0'' @ [CHR 0x0A] else ''1'' @ [CHR 0x0A])) w else w)
        }
        else do {
          g \<leftarrow> gpio_of w pin;
          case g of
            None \<Rightarrow> Some w
          | Some p \<Rightarrow>
              if value = LOW then do { r \<leftarrow> at_index gpioToGPCLR p; reg_write Gpio r (pin_bit p) w }
              else do { r \<leftarrow> at_index gpioToGPSET p; reg_write Gpio r (pin_bit p) w }
        }
      else Some (node_call NodeDigitalWrite pin value w))"

definition digitalRead :: "int \<Rightarrow> wiring \<Rightarrow> (int \<times> wiring) option" where
  "digitalRead pin w =
     (if on_board pin then
        if wiringPiMode w = WPI_MODE_GPIO_SYS then do {
          fd \<leftarrow> at_index (sysFds w) pin;
          Some (if fd = - 1 then LOW else if sysValue w fd = CHR ''0'' then LOW else HIGH, w)
        }
        else do {
          g \<leftarrow> gpio_of w pin;
          case g of
            None \<Rightarrow> Some (LOW, w)
          | Some p \<Rightarrow> do {
              n \<leftarrow> at_index gpioToGPLEV p;
              r \<leftarrow> reg_read Gpio n w;
              Some (if r AND pin_bit p \<noteq> 0 then HIGH else LOW, w)
            }
        }
      else Some (node_read NodeDigitalRead pin w))"

definition pullUpDnControl :: "int \<Rightarrow> int \<Rightarrow> wiring \<Rightarrow> wiring option" where
  "pullUpDnControl pin pud w =
     (if on_board pin then do {
        g \<leftarrow> gpio_of w pin;
        case g of
          None \<Rightarrow> Some w
        | Some p \<Rightarrow> do {
            w \<leftarrow> reg_write Gpio GPPUD (word_of_int pud AND 3) w;
            n \<leftarrow> at_index gpioToPUDCLK p;
            w \<leftarrow> reg_write Gpio n (pin_bit p) (delayMicroseconds 5 w);
            w \<leftarrow> reg_write Gpio GPPUD 0 (delayMicroseconds 5 w);
            w \<leftarrow> reg_write Gpio n 0 (delayMicroseconds 5 w);
            Some (delayMicroseconds 5 w)
          }
      }
      else Some (node_call NodePullUpDn pin pud w))"

definition pwmWrite :: "int \<Rightarrow> int \<Rightarrow> wiring \<Rightarrow> wiring option" where
  "pwmWrite pin value w =
     (if on_board pin then
        if RASPBERRY_PI_PERI_BASE w = 0 then Some w
        else do {
          g \<leftarrow> gpio_of w pin;
          case g of
            None \<Rightarrow> Some w
          | Some p \<Rightarrow> do { port \<leftarrow> at_index gpioToPwmPort p; reg_write Pwm port (word_of_int value) w }
        }
      else Some (node_call NodePwmWrite pin value w))"

definition analogRead :: "int \<Rightarrow> wiring \<Rightarrow> int \<times> wiring" where
  "analogRead pin w = node_read NodeAnalogRead pin w"

definition analogWrite :: "int \<Rightarrow> int \<Rightarrow> wiring \<Rightarrow> wiring" where
  "analogWrite pin value w = node_call NodeAnalogWrite pin value w"

text \<open>Divisions of C round towards zero.\<close>

definition pwmToneWrite :: "int \<Rightarrow> int \<Rightarrow> wiring \<Rightarrow> wiring option" where
  "pwmToneWrite pin freq w =
     (if RASPBERRY_PI_PERI_BASE w = 0 then Some w
      else if freq = 0 then pwmWrite pin 0 w
      else do {
        w \<leftarrow> pwmSetRange (word_of_int (sgn freq * (600000 div \<bar>freq\<bar>))) w;
        pwmWrite pin (sgn freq * (\<bar>freq\<bar> div 2)) w
      })"

section \<open>Software pulse width and tones\<close>

definition softPwmWrite :: "int \<Rightarrow> int \<Rightarrow> wiring \<Rightarrow> wiring option" where
  "softPwmWrite pin value w = do {
     r \<leftarrow> at_index (ranges w) (pin AND 1023);
     Some (w\<lparr>marks := (marks w)[nat (pin AND 1023) := if value < 0 then 0 else if value > r then r else value]\<rparr>)
   }"

definition softPwmStop :: "int \<Rightarrow> wiring \<Rightarrow> wiring option" where
  "softPwmStop pin w = do {
     r \<leftarrow> at_index (ranges w) pin;
     if r \<noteq> 0 then do {
       t \<leftarrow> at_index (pwmThreads w) pin;
       digitalWrite pin LOW ((emit (ThreadStop t) w)\<lparr>ranges := (ranges w)[nat pin := 0]\<rparr>)
     } else Some w
   }"

definition softToneWrite :: "int \<Rightarrow> int \<Rightarrow> wiring \<Rightarrow> wiring option" where
  "softToneWrite pin freq w = do {
     _ \<leftarrow> at_index (freqs w) (pin AND 63);
     Some (w\<lparr>freqs := (freqs w)[nat (pin AND 63) := if freq < 0 then 0 else if freq > 5000 then 5000 else freq]\<rparr>)
   }"

definition softToneStop :: "int \<Rightarrow> wiring \<Rightarrow> wiring option" where
  "softToneStop pin w = do {
     t \<leftarrow> at_index (toneThreads w) pin;
     if t \<noteq> 0 then digitalWrite pin LOW ((emit (ThreadStop t) w)\<lparr>toneThreads := (toneThreads w)[nat pin := 0]\<rparr>)
     else Some w
   }"

text \<open>
  \<^verbatim>\<open>pthread_create\<close> gives the next thread id of the input; without one it fails, and the loop that waits
  for the new thread to take its pin never ends.
\<close>

definition spawn :: "int \<Rightarrow> wiring \<Rightarrow> (nat \<times> wiring) option" where
  "spawn pin w = (case spawns w of [] \<Rightarrow> None | t # ts \<Rightarrow> Some (t, emit (ThreadStart t pin) (w\<lparr>spawns := ts\<rparr>)))"

text \<open>
  \<^verbatim>\<open>pinMode\<close> and the two creating functions call one another; \<^verbatim>\<open>if (range <= 0)\<close> compares the address of
  an array and never holds. The result of a creating function comes with the new state.
\<close>

function pinMode :: "int \<Rightarrow> int \<Rightarrow> wiring \<Rightarrow> wiring option"
  and softPwmCreate :: "int \<Rightarrow> int \<Rightarrow> int \<Rightarrow> wiring \<Rightarrow> (int \<times> wiring) option"
  and softToneCreate :: "int \<Rightarrow> wiring \<Rightarrow> (int \<times> wiring) option" where
  "pinMode pin mode w =
     (if on_board pin then do {
        g \<leftarrow> gpio_of w pin;
        case g of
          None \<Rightarrow> Some w
        | Some p \<Rightarrow> do {
            w \<leftarrow> softPwmStop pin w;
            w \<leftarrow> softToneStop pin w;
            _ \<leftarrow> at_index gpioToGPFSEL p;
            if mode = INPUT then set_function p FSEL_INPT w
            else if mode = OUTPUT then set_function p FSEL_OUTP w
            else if mode = SOFT_PWM_OUTPUT then map_option snd (softPwmCreate pin 0 100 w)
            else if mode = SOFT_TONE_OUTPUT then map_option snd (softToneCreate pin w)
            else if mode = PWM_TONE_OUTPUT then
              if RASPBERRY_PI_PERI_BASE w = 0 then Some w
              else do { w \<leftarrow> pinMode pin PWM_OUTPUT w; pwmSetMode PWM_MODE_MS w }
            else if mode = PWM_OUTPUT then
              if RASPBERRY_PI_PERI_BASE w = 0 then Some w
              else do {
                alt \<leftarrow> at_index gpioToPwmALT p;
                if alt = 0 then Some w
                else do {
                  w \<leftarrow> set_function p alt w;
                  w \<leftarrow> pwmSetMode PWM_MODE_BAL (delayMicroseconds 110 w);
                  w \<leftarrow> pwmSetRange 1024 w;
                  pwmSetClock 32 w
                }
              }
            else if mode = GPIO_CLOCK then
              if RASPBERRY_PI_PERI_BASE w = 0 then Some w
              else do {
                alt \<leftarrow> at_index gpioToGpClkALT0 p;
                if alt = 0 then Some w
                else do {
                  w \<leftarrow> set_function p alt w;
                  gpioClockSet p 100000 (delayMicroseconds 110 w)
                }
              }
            else Some w
          }
      }
      else Some (node_call NodePinMode pin mode w))"
| "softPwmCreate pin initialValue pwmRange w = do {
     r \<leftarrow> at_index (ranges w) pin;
     if r \<noteq> 0 then Some (- 1, w)
     else do {
       w \<leftarrow> pinMode pin OUTPUT w;
       w \<leftarrow> digitalWrite pin LOW w;
       (t, w) \<leftarrow> spawn pin (w\<lparr>marks := (marks w)[nat pin := initialValue], ranges := (ranges w)[nat pin := pwmRange]\<rparr>);
       Some (0, w\<lparr>pwmThreads := (pwmThreads w)[nat pin := t]\<rparr>)
     }
   }"
| "softToneCreate pin w = do {
     w \<leftarrow> pinMode pin OUTPUT w;
     w \<leftarrow> digitalWrite pin LOW w;
     old \<leftarrow> at_index (toneThreads w) pin;
     if old \<noteq> 0 then Some (- 1, w)
     else do {
       (t, w) \<leftarrow> spawn pin (w\<lparr>freqs := (freqs w)[nat pin := 0]\<rparr>);
       Some (0, w\<lparr>toneThreads := (toneThreads w)[nat pin := t]\<rparr>)
     }
   }"
  by pat_completeness auto

termination
  by (relation "measure (\<lambda>x. case x of
        Inl (_, mode, _) \<Rightarrow> if mode = 4 \<or> mode = 5 \<or> mode = 6 then 2 else 0
      | Inr _ \<Rightarrow> 1)") auto

declare pinMode.simps [simp del] softPwmCreate.simps [simp del] softToneCreate.simps [simp del]

section \<open>Bytes\<close>

fun write_each :: "int list \<Rightarrow> int \<Rightarrow> int \<Rightarrow> wiring \<Rightarrow> wiring option" where
  "write_each [] value msk w = Some w"
| "write_each (pin # pins) value msk w = do {
     w \<leftarrow> digitalWrite pin (value AND msk) w;
     write_each pins value (push_bit 1 msk) w
   }"

fun byte_masks :: "int list \<Rightarrow> int \<Rightarrow> int \<Rightarrow> cint \<Rightarrow> cint \<Rightarrow> cint \<times> cint" where
  "byte_masks [] value msk pinClr pinSet = (pinClr, pinSet)"
| "byte_masks (g # gs) value msk pinClr pinSet =
     (if value AND msk = 0 then byte_masks gs value (push_bit 1 msk) (pinClr OR push_bit (nat g) 1) pinSet
      else byte_masks gs value (push_bit 1 msk) pinClr (pinSet OR push_bit (nat g) 1))"

text \<open>The first eight entries of the pin table, read one by one.\<close>

definition first_eight :: "wiring \<Rightarrow> int list option" where
  "first_eight w = (if length (pinToGpio w) < 8 then None else Some (take 8 (pinToGpio w)))"

definition digitalWriteByte :: "int \<Rightarrow> wiring \<Rightarrow> wiring option" where
  "digitalWriteByte value w = do {
     gs \<leftarrow> first_eight w;
     if wiringPiMode w = WPI_MODE_GPIO_SYS then write_each gs value 1 w
     else case byte_masks gs value 1 0 0 of (pinClr, pinSet) \<Rightarrow> do {
       w \<leftarrow> reg_write Gpio (gpioToGPCLR ! 0) pinClr w;
       reg_write Gpio (gpioToGPSET ! 0) pinSet w
     }
   }"

fun read_each :: "int list \<Rightarrow> cint \<Rightarrow> wiring \<Rightarrow> (cint \<times> wiring) option" where
  "read_each [] data w = Some (data, w)"
| "read_each (pin # pins) data w = do {
     (x, w) \<leftarrow> digitalRead pin w;
     read_each pins (push_bit 1 data OR word_of_int x) w
   }"

fun gather :: "int list \<Rightarrow> cint \<Rightarrow> cint \<Rightarrow> cint" where
  "gather [] raw data = data"
| "gather (x # xs) raw data = gather xs raw (push_bit 1 data OR (if raw AND push_bit (nat x) 1 = 0 then 0 else 1))"

definition digitalReadByte :: "wiring \<Rightarrow> (cint \<times> wiring) option" where
  "digitalReadByte w = do {
     gs \<leftarrow> first_eight w;
     if wiringPiMode w = WPI_MODE_GPIO_SYS then read_each gs 0 w
     else do {
       raw \<leftarrow> reg_read Gpio (gpioToGPLEV ! 0) w;
       Some (gather gs raw 0, w)
     }
   }"

definition digitalWriteByte2 :: "int \<Rightarrow> wiring \<Rightarrow> wiring option" where
  "digitalWriteByte2 value w =
     (if wiringPiMode w = WPI_MODE_GPIO_SYS then write_each [20..27] value 1 w
      else do {
        w \<leftarrow> reg_write Gpio (gpioToGPCLR ! 0) 0x0FF00000 w;
        reg_write Gpio (gpioToGPSET ! 0) (push_bit 20 (word_of_int (value AND 0xFF))) w
      })"

definition digitalReadByte2 :: "wiring \<Rightarrow> (cint \<times> wiring) option" where
  "digitalReadByte2 w =
     (if wiringPiMode w = WPI_MODE_GPIO_SYS then read_each [20..27] 0 w
      else do {
        r \<leftarrow> reg_read Gpio (gpioToGPLEV ! 0) w;
        Some (drop_bit 20 r AND 0xFF, w)
      })"

text \<open>
  One period of the software pulse width thread of a pin, and one turn of the tone thread.
\<close>

definition softPwmThread_period :: "int \<Rightarrow> wiring \<Rightarrow> wiring option" where
  "softPwmThread_period pin w = do {
     mark \<leftarrow> at_index (marks w) pin;
     r \<leftarrow> at_index (ranges w) pin;
     let space = r - mark;
     w \<leftarrow> if mark \<noteq> 0 then digitalWrite pin HIGH w else Some w;
     w \<leftarrow> Some (delayMicroseconds (nat (mark * 100 mod 2 ^ 32)) w);
     w \<leftarrow> if space \<noteq> 0 then digitalWrite pin LOW w else Some w;
     Some (delayMicroseconds (nat (space * 100 mod 2 ^ 32)) w)
   }"

definition softToneThread_turn :: "int \<Rightarrow> wiring \<Rightarrow> wiring option" where
  "softToneThread_turn pin w = do {
     freq \<leftarrow> at_index (freqs w) pin;
     if freq = 0 then Some (emit (WaitMillis 1) w)
     else do {
       w \<leftarrow> digitalWrite pin HIGH w;
       w \<leftarrow> digitalWrite pin LOW (delayMicroseconds (nat (500000 div freq)) w);
       Some (delayMicroseconds (nat (500000 div freq)) w)
     }
   }"

section \<open>Facts on pins and registers\<close>

lemma high_mask: "(0xFFFFFFC0 :: cint) = push_bit 6 (mask 26)"
  by (simp add: mask_eq_exp_minus_1)

lemma word_high_zero: "(x :: cint) AND 0xFFFFFFC0 = 0 \<longleftrightarrow> uint x < 64"
proof -
  have "x AND 0xFFFFFFC0 = push_bit 6 (drop_bit 6 x)"
    unfolding high_mask by (rule bit_word_eqI) (auto simp: bit_simps)
  moreover have "push_bit 6 (drop_bit 6 x) = 0 \<longleftrightarrow> drop_bit 6 x = 0"
  proof
    assume a: "push_bit 6 (drop_bit 6 x) = 0"
    show "drop_bit 6 x = 0"
    proof (rule bit_word_eqI)
      fix n assume "n < LENGTH(32)"
      have "\<not> bit (push_bit 6 (drop_bit 6 x)) (n + 6)" by (simp add: a)
      then show "bit (drop_bit 6 x) n = bit 0 n"
        by (auto simp: bit_simps dest: bit_imp_le_length)
    qed
  qed simp
  moreover have "drop_bit 6 x = 0 \<longleftrightarrow> uint x div 64 = 0"
    by (simp add: word_eq_iff_unsigned [where 'a = int] unsigned_drop_bit_eq drop_bit_eq_div uint_div)
  moreover have "uint x div 64 = 0 \<longleftrightarrow> uint x < 64" using uint_lt_0 [of x] by (auto simp: div_eq_0_iff)
  ultimately show ?thesis by simp
qed

lemma on_board_iff:
  assumes "- (2 ^ 31) \<le> pin" and "pin < 2 ^ 31"
  shows "on_board pin \<longleftrightarrow> 0 \<le> pin \<and> pin < 64"
proof -
  have "uint (word_of_int pin :: cint) = (if 0 \<le> pin then pin else pin + 2 ^ 32)"
    using assms mod_add_self2 [of pin "2 ^ 32"] mod_pos_pos_trivial [of "pin + 2 ^ 32" "2 ^ 32"]
    by (simp add: uint_word_of_int)
  then show ?thesis unfolding on_board_def word_high_zero using assms by auto
qed

lemma on_board_small [simp]: "0 \<le> pin \<Longrightarrow> pin < 64 \<Longrightarrow> on_board pin"
  using on_board_iff [of pin] by simp

lemma and_31: "(g :: int) AND 31 = g mod 32"
  using take_bit_eq_mask [of 5 g] by (simp add: mask_eq_exp_minus_1 take_bit_eq_mod)

lemma and_63: "(g :: int) AND 63 = g mod 64"
  using take_bit_eq_mask [of 6 g] by (simp add: mask_eq_exp_minus_1 take_bit_eq_mod)

lemma bit_pin_bit: "bit (pin_bit g) n \<longleftrightarrow> n = nat (g mod 32)"
proof -
  have "nat (g mod 32) < 32" by (simp add: nat_less_iff)
  then show ?thesis by (auto simp: pin_bit_def and_31 bit_simps)
qed

lemma reg_write_mapped:
  "mapped w b \<Longrightarrow> reg_write b n v w = Some (emit (RegWrite b n v) (w\<lparr>regs := (regs w)(b := (regs w b)(n := v))\<rparr>))"
  by (simp add: reg_write_def)

lemma reg_read_mapped: "mapped w b \<Longrightarrow> reg_read b n w = Some (regs w b n)"
  by (simp add: reg_read_def)

lemma emit_fields [simp]:
  "wiringPiMode (emit e w) = wiringPiMode w" "pinToGpio (emit e w) = pinToGpio w" "physToGpio (emit e w) = physToGpio w"
  "mapped (emit e w) = mapped w" "regs (emit e w) = regs w" "ranges (emit e w) = ranges w"
  "toneThreads (emit e w) = toneThreads w" "wiringPiNodes (emit e w) = wiringPiNodes w" "sysFds (emit e w) = sysFds w"
  "RASPBERRY_PI_PERI_BASE (emit e w) = RASPBERRY_PI_PERI_BASE w" "polls (emit e w) = polls w"
  "events (emit e w) = events w @ [e]" "spawns (emit e w) = spawns w" "pwmThreads (emit e w) = pwmThreads w"
  by (simp_all add: emit_def)

lemma fsel_update_bit:
  assumes "f < 8" and "sh + 3 \<le> 32"
  shows "bit (fsel_update r sh f) n \<longleftrightarrow> (if sh \<le> n \<and> n < sh + 3 then bit f (n - sh) else bit r n)"
proof -
  have f: "take_bit 3 f = f"
    using assms(1) by (simp add: word_eq_iff_unsigned [where 'a = nat] unsigned_take_bit_eq take_bit_nat_eq_self word_less_nat_alt)
  have 7: "(7 :: cint) = mask 3" by (simp add: mask_eq_exp_minus_1)
  have k: "bit f k \<Longrightarrow> k < 3" for k using f bit_take_bit_iff [of 3 f k] by simp
  have r: "bit r n \<Longrightarrow> n < 32" using bit_imp_le_length [of r n] by simp
  consider "n < sh" | "sh \<le> n" "n < sh + 3" | "sh + 3 \<le> n" "n < 32" | "32 \<le> n" by linarith
  then show ?thesis
  proof cases
    case 3
    then have "\<not> bit f (n - sh)" using k [of "n - sh"] by linarith
    with 3 show ?thesis by (auto simp: fsel_update_def 7 bit_simps)
  next
    case 4
    with r have "\<not> bit r n" by linarith
    with 4 assms(2) show ?thesis by (simp add: fsel_update_def 7 bit_simps)
  qed (use assms(2) in \<open>auto simp: fsel_update_def 7 bit_simps\<close>)
qed

lemma fsel_update_read: "f < 8 \<Longrightarrow> sh + 3 \<le> 32 \<Longrightarrow> drop_bit sh (fsel_update r sh f) AND 7 = f"
proof -
  assume a: "f < 8" "sh + 3 \<le> 32"
  have f: "take_bit 3 f = f"
    using a(1) by (simp add: word_eq_iff_unsigned [where 'a = nat] unsigned_take_bit_eq take_bit_nat_eq_self word_less_nat_alt)
  have 7: "(7 :: cint) = mask 3" by (simp add: mask_eq_exp_minus_1)
  have "drop_bit sh (fsel_update r sh f) AND 7 = take_bit 3 f"
    unfolding 7 by (rule bit_word_eqI) (use a in \<open>auto simp: bit_simps fsel_update_bit\<close>)
  with f show ?thesis by simp
qed


text \<open>What a plain digital write does on a board pin, by the line it is wired to.\<close>

definition write_register :: "int \<Rightarrow> int \<Rightarrow> nat" where
  "write_register value g = (if value = LOW then if g < 32 then 10 else 11 else if g < 32 then 7 else 8)"

lemma digitalWrite_mapped:
  assumes "on_board pin" and "gpio_of w pin = Some (Some g)" and "0 \<le> g" "g < 64"
  shows "digitalWrite pin value w = reg_write Gpio (write_register value g) (pin_bit g) w"
proof -
  have "wiringPiMode w \<noteq> WPI_MODE_GPIO_SYS" using assms(2) by (auto simp: gpio_of_def)
  then show ?thesis using assms by (simp add: digitalWrite_def write_register_def bank_tables)
qed

text \<open>
  The lines of the chip: a write to a set register drives the lines of its ones high, to a clear register low,
  and nothing else moves a line.
\<close>

definition bcm_level :: "hw_event \<Rightarrow> (int \<Rightarrow> bool) \<Rightarrow> int \<Rightarrow> bool" where
  "bcm_level e lv q =
     (case e of RegWrite Gpio r v \<Rightarrow>
        if 0 \<le> q \<and> q < 64 \<and> bit v (nat (q mod 32)) then
          if r = 7 + nat (q div 32) then True else if r = 10 + nat (q div 32) then False else lv q
        else lv q
      | _ \<Rightarrow> lv q)"

lemma bcm_level_write:
  assumes "0 \<le> g" "g < 64"
  shows "bcm_level (RegWrite Gpio (write_register value g) (pin_bit g)) lv q = (if q = g then value \<noteq> LOW else lv q)"
proof -
  have d: "nat (x div 32) = (if x < 32 then 0 else 1)" if "0 \<le> x" "x < 64" for x :: int
  proof (cases "x < 32")
    case False
    then have "x div 32 = 1" using that by (intro int_div_pos_eq [of _ _ _ "x - 32"]) auto
    then show ?thesis using False by simp
  qed (use that in simp)
  have m: "0 \<le> x \<Longrightarrow> x < 64 \<Longrightarrow> x mod 32 = (if x < 32 then x else x - 32)" for x :: int by (simp add: mod_pos_pos_trivial zmod_trivial_iff mod_if) presburger
  show ?thesis
    using assms d [of q] d [of g] m [of q] m [of g]
    by (auto simp: bcm_level_def write_register_def bit_pin_bit)
qed

lemma soft_idle:
  "at_index (ranges w) pin = Some 0 \<Longrightarrow> softPwmStop pin w = Some w"
  "at_index (toneThreads w) pin = Some 0 \<Longrightarrow> softToneStop pin w = Some w"
  by (simp_all add: softPwmStop_def softToneStop_def)

lemma set_function_mapped:
  assumes "0 \<le> g" "g < 60" and "mapped w Gpio"
  shows "set_function g f w =
    reg_write Gpio (nat g div 10) (fsel_update (regs w Gpio (nat g div 10)) (3 * (nat g mod 10)) f) w"
  using assms by (simp add: set_function_def fsel_tables reg_read_mapped)

lemma pinMode_plain:
  assumes "on_board pin" and "gpio_of w pin = Some (Some g)" and "0 \<le> g" "g < 60" and "mode = INPUT \<or> mode = OUTPUT"
    and "at_index (ranges w) pin = Some 0" "at_index (toneThreads w) pin = Some 0"
  shows "pinMode pin mode w = set_function g (if mode = INPUT then FSEL_INPT else FSEL_OUTP) w"
  using assms by (subst pinMode.simps) (auto simp: soft_idle fsel_tables)

lemma bcm_level_fsel: "n < 6 \<Longrightarrow> bcm_level (RegWrite Gpio n v) lv = lv"
  by (rule ext) (simp add: bcm_level_def)

end
