(* ===== verification/Wiring_Setup.thy ===== *)
theory Wiring_Setup
  imports Wiring_Pi
begin

text \<open>
  The life cycle of \<^verbatim>\<open>wiringPi.c\<close>: the four set-up functions with their failures, the clock functions and
  the interrupt registration. The environment (variables, the board file, file descriptors, mappings,
  the time of day, the result of \<^verbatim>\<open>fork\<close> and \<^verbatim>\<open>poll\<close>) is an argument.
\<close>

section \<open>State\<close>

record setup_env =
  getenv_debug :: bool
  getenv_codes :: bool
  getenv_gpiomem :: bool
  cpuinfo1 :: "string option"
  cpuinfo2 :: "string option"
  euid :: nat
  mem_fd :: int
  mmaps :: "bank \<Rightarrow> bool"
  sys_open :: "nat \<Rightarrow> int"
  now :: "64 word \<times> 64 word"

record library =
  pins :: wiring
  board :: board_state
  wiringPiDebug :: bool
  wiringPiReturnCodes :: bool
  wiringPiTryGpioMem :: bool
  alreadyCalled :: bool
  alreadyCalledSys :: bool
  epochMilli :: "64 word"
  epochMicro :: "64 word"
  isrFunctions :: "nat option list"

definition library_start :: library where
  "library_start =
     \<lparr>pins = wiring_start, board = \<lparr>boardRev = - 1, piModel2 = False\<rparr>, wiringPiDebug = False,
      wiringPiReturnCodes = False, wiringPiTryGpioMem = False, alreadyCalled = False, alreadyCalledSys = False,
      epochMilli = 0, epochMicro = 0, isrFunctions = replicate 64 None\<rparr>"

definition wiringPiFailure :: "bool \<Rightarrow> string \<Rightarrow> library \<Rightarrow> (int \<times> library) halting" where
  "wiringPiFailure fatal message l =
     (if \<not> fatal \<and> wiringPiReturnCodes l then Returned (- 1, l) else Exited message)"

section \<open>Time\<close>

text \<open>The pair is the \<^verbatim>\<open>timeval\<close> of \<^verbatim>\<open>gettimeofday\<close>: seconds and microseconds.\<close>

definition initialiseEpoch :: "64 word \<times> 64 word \<Rightarrow> library \<Rightarrow> library" where
  "initialiseEpoch tv l =
     l\<lparr>epochMilli := fst tv * 1000 + snd tv div 1000,
       epochMicro := fst tv * 1000000 + snd tv\<rparr>"

definition millis :: "64 word \<times> 64 word \<Rightarrow> library \<Rightarrow> cint" where
  "millis tv l = ucast (fst tv * 1000 + snd tv div 1000 - epochMilli l)"

definition micros :: "64 word \<times> 64 word \<Rightarrow> library \<Rightarrow> cint" where
  "micros tv l = ucast (fst tv * 1000000 + snd tv - epochMicro l)"

text \<open>The \<^verbatim>\<open>timespec\<close> that \<^verbatim>\<open>delay\<close> sleeps for: seconds and nanoseconds.\<close>

definition delay_timespec :: "nat \<Rightarrow> nat \<times> nat" where
  "delay_timespec howLong = (howLong div 1000, howLong mod 1000 * 1000000)"

datatype sleeping = NoSleep | HardLoop "nat \<times> nat" | Nanosleep "nat \<times> nat"

text \<open>
  \<^verbatim>\<open>delayMicroseconds\<close> with the choice it makes: nothing, a loop on the clock until a time (computed by
  \<^verbatim>\<open>timeradd\<close> from the current time), or one \<^verbatim>\<open>nanosleep\<close>.
\<close>

definition timeradd :: "nat \<times> nat \<Rightarrow> nat \<times> nat \<Rightarrow> nat \<times> nat" where
  "timeradd a b =
     (let s = fst a + fst b; u = snd a + snd b in if u \<ge> 1000000 then (s + 1, u - 1000000) else (s, u))"

definition timercmp_less :: "nat \<times> nat \<Rightarrow> nat \<times> nat \<Rightarrow> bool" where
  "timercmp_less a b = (if fst a = fst b then snd a < snd b else fst a < fst b)"

definition delay_choice :: "nat \<times> nat \<Rightarrow> nat \<Rightarrow> sleeping" where
  "delay_choice tNow howLong =
     (if howLong = 0 then NoSleep
      else if howLong < 100 then HardLoop (timeradd tNow (howLong div 1000000, howLong mod 1000000))
      else Nanosleep (howLong div 1000000, howLong mod 1000000 * 1000))"

text \<open>The hard loop over the times that successive \<^verbatim>\<open>gettimeofday\<close> calls answer.\<close>

fun hard_loop :: "nat \<times> nat \<Rightarrow> nat \<times> nat \<Rightarrow> (nat \<times> nat) list \<Rightarrow> (nat \<times> nat) option" where
  "hard_loop tEnd tNow [] = (if timercmp_less tNow tEnd then None else Some tNow)"
| "hard_loop tEnd tNow (t # ts) = (if timercmp_less tNow tEnd then hard_loop tEnd t ts else Some tNow)"

section \<open>Set-up\<close>

definition use_tables :: "int \<Rightarrow> wiring \<Rightarrow> wiring" where
  "use_tables r w =
     (if r = 1 then w\<lparr>pinToGpio := pinToGpioR1, physToGpio := physToGpioR1\<rparr>
      else w\<lparr>pinToGpio := pinToGpioR2, physToGpio := physToGpioR2\<rparr>)"

text \<open>The four \<^verbatim>\<open>mmap\<close> calls in order; the first failure is the result of the whole set-up.\<close>

fun map_banks :: "setup_env \<Rightarrow> (bank \<times> string) list \<Rightarrow> library \<Rightarrow> (int \<times> library) halting" where
  "map_banks e [] l = Returned (0, l)"
| "map_banks e ((b, name) # bs) l =
     (if mmaps e b then map_banks e bs (l\<lparr>pins := (pins l)\<lparr>mapped := (mapped (pins l))(b := True)\<rparr>\<rparr>)
      else wiringPiFailure False (''wiringPiSetup: mmap ('' @ name @ '') failed'') l)"

definition read_env :: "setup_env \<Rightarrow> library \<Rightarrow> library" where
  "read_env e l =
     l\<lparr>wiringPiDebug := (wiringPiDebug l \<or> getenv_debug e),
       wiringPiReturnCodes := (wiringPiReturnCodes l \<or> getenv_codes e)\<rparr>"

text \<open>The opening of the memory device, with the peripheral base it leaves.\<close>

definition open_memory :: "setup_env \<Rightarrow> library \<Rightarrow> (int \<times> library) halting" where
  "open_memory e l =
     (if wiringPiTryGpioMem l then
        if mem_fd e < 0 then wiringPiFailure False ''wiringPiSetup: Unable to open /dev/gpiomem'' l
        else Returned (0, l\<lparr>pins := (pins l)\<lparr>RASPBERRY_PI_PERI_BASE := 0\<rparr>\<rparr>)
      else if euid e \<noteq> 0 then wiringPiFailure True ''wiringPiSetup: Must be root.'' l
      else if mem_fd e < 0 then wiringPiFailure False ''wiringPiSetup: Unable to open /dev/mem'' l
      else Returned (0, l))"

definition finish_setup :: "setup_env \<Rightarrow> library \<Rightarrow> (int \<times> library) halting option" where
  "finish_setup e l = do {
     r \<leftarrow> piBoardId (cpuinfo1 e) (cpuinfo2 e) (board l);
     Some (halting_bind r (\<lambda>(i, b).
       Returned (0, (initialiseEpoch (now e) l)\<lparr>board := b,
         pins := (pins l)\<lparr>wiringPiMode := if model i = PI_MODEL_CM then WPI_MODE_GPIO else WPI_MODE_PINS\<rparr>\<rparr>)))
   }"

definition wiringPiSetup :: "setup_env \<Rightarrow> library \<Rightarrow> (int \<times> library) halting option" where
  "wiringPiSetup e l =
     (if alreadyCalled l then Some (wiringPiFailure True ''wiringPiSetup*: You must only call this once per program run.'' l)
      else
        let l = read_env e (l\<lparr>alreadyCalled := True\<rparr>);
            l = l\<lparr>wiringPiTryGpioMem := (wiringPiTryGpioMem l \<or> getenv_gpiomem e)\<rparr>
        in do {
          res \<leftarrow> piBoardRev (cpuinfo1 e) (board l);
          case res of
            Exited m \<Rightarrow> Some (Exited m)
          | Returned (r, b) \<Rightarrow>
              let l = l\<lparr>board := b, pins := (use_tables r (pins l))\<lparr>RASPBERRY_PI_PERI_BASE :=
                          if piModel2 b then 0x3F000000 else 0x20000000\<rparr>\<rparr>
              in case open_memory e l of
                   Exited m \<Rightarrow> Some (Exited m)
                 | Returned (c, l) \<Rightarrow>
                     if c < 0 then Some (Returned (c, l))
                     else case map_banks e [(Gpio, ''GPIO''), (Pwm, ''PWM''), (Clk, ''CLOCK''), (Pads, ''PADS'')] l of
                       Exited m \<Rightarrow> Some (Exited m)
                     | Returned (c, l) \<Rightarrow> if c < 0 then Some (Returned (c, l)) else finish_setup e l
        })"

definition wiringPiSetupGpio :: "setup_env \<Rightarrow> library \<Rightarrow> (int \<times> library) halting option" where
  "wiringPiSetupGpio e l = do {
     r \<leftarrow> wiringPiSetup e l;
     Some (halting_bind r (\<lambda>(_, l). Returned (0, l\<lparr>pins := (pins l)\<lparr>wiringPiMode := WPI_MODE_GPIO\<rparr>\<rparr>)))
   }"

definition wiringPiSetupPhys :: "setup_env \<Rightarrow> library \<Rightarrow> (int \<times> library) halting option" where
  "wiringPiSetupPhys e l = do {
     r \<leftarrow> wiringPiSetup e l;
     Some (halting_bind r (\<lambda>(_, l). Returned (0, l\<lparr>pins := (pins l)\<lparr>wiringPiMode := WPI_MODE_PHYS\<rparr>\<rparr>)))
   }"

definition wiringPiSetupSys :: "setup_env \<Rightarrow> library \<Rightarrow> (int \<times> library) halting option" where
  "wiringPiSetupSys e l =
     (if alreadyCalledSys l then Some (wiringPiFailure True ''wiringPiSetupSys: You must only call this once per program run.'' l)
      else
        let l = read_env e (l\<lparr>alreadyCalledSys := True\<rparr>)
        in do {
          res \<leftarrow> piBoardRev (cpuinfo1 e) (board l);
          Some (halting_bind res (\<lambda>(r, b).
            Returned (0, (initialiseEpoch (now e) l)\<lparr>board := b,
              pins := (use_tables r (pins l))\<lparr>sysFds := map (sys_open e) [0..<64], wiringPiMode := WPI_MODE_GPIO_SYS\<rparr>\<rparr>)))
        })"

section \<open>Interrupts\<close>

text \<open>
  \<^verbatim>\<open>waitForInterrupt\<close> with the result \<open>x\<close> of \<^verbatim>\<open>poll\<close>: the pin is translated without the mask, and the file
  of the value is read once.
\<close>

definition interrupt_pin :: "wiring \<Rightarrow> int \<Rightarrow> int option" where
  "interrupt_pin w pin =
     (if wiringPiMode w = WPI_MODE_PINS then at_index (pinToGpio w) pin
      else if wiringPiMode w = WPI_MODE_PHYS then at_index (physToGpio w) pin
      else Some pin)"

definition waitForInterrupt :: "int \<Rightarrow> int \<Rightarrow> wiring \<Rightarrow> (int \<times> wiring) option" where
  "waitForInterrupt x pin w = do {
     p \<leftarrow> interrupt_pin w pin;
     fd \<leftarrow> at_index (sysFds w) p;
     Some (if fd = - 1 then (- 2, w) else (x, emit (SysRead fd 1) w))
   }"

text \<open>One turn of the interrupt thread of a pin: the handlers it calls.\<close>

definition interrupt_turn :: "int \<Rightarrow> int \<Rightarrow> library \<Rightarrow> (nat list \<times> library) option" where
  "interrupt_turn x myPin l = do {
     (r, w) \<leftarrow> waitForInterrupt x myPin (pins l);
     if r > 0 then do {
       f \<leftarrow> at_index (isrFunctions l) myPin;
       h \<leftarrow> f;
       Some ([h], l\<lparr>pins := w\<rparr>)
     } else Some ([], l\<lparr>pins := w\<rparr>)
   }"

definition edge_name :: "int \<Rightarrow> string" where
  "edge_name mode = (if mode = 1 then ''falling'' else if mode = 2 then ''rising'' else ''both'')"

text \<open>
  \<^verbatim>\<open>wiringPiISR\<close> in the calling process: \<open>forked\<close> is whether \<^verbatim>\<open>fork\<close> succeeded (the child runs
  \<^verbatim>\<open>gpio edge\<close> and the parent waits for it), \<open>fd\<close> what \<^verbatim>\<open>open\<close> returns, \<open>count\<close> the bytes pending.
\<close>

definition wiringPiISR :: "bool \<Rightarrow> int \<Rightarrow> nat \<Rightarrow> int \<Rightarrow> int \<Rightarrow> nat \<Rightarrow> library \<Rightarrow> (int \<times> library) halting option" where
  "wiringPiISR forked fd count pin mode function_id l =
     (if pin < 0 \<or> pin > 63 then Some (wiringPiFailure True ''wiringPiISR: pin must be 0-63'' l)
      else if wiringPiMode (pins l) = WPI_MODE_UNINITIALISED
      then Some (wiringPiFailure True ''wiringPiISR: wiringPi has not been initialised. Unable to continue.'' l)
      else do {
        bcmGpioPin \<leftarrow> interrupt_pin (pins l) pin;
        if mode \<noteq> 0 \<and> \<not> forked then Some (wiringPiFailure True ''wiringPiISR: fork failed'' l)
        else do {
          w \<leftarrow> Some (if mode \<noteq> 0 then emit (EdgeSetup bcmGpioPin (edge_name mode)) (pins l) else pins l);
          old \<leftarrow> at_index (sysFds w) bcmGpioPin;
          let w = (if old = - 1 then w\<lparr>sysFds := (sysFds w)[nat bcmGpioPin := fd]\<rparr> else w);
          if old = - 1 \<and> fd < 0 then Some (wiringPiFailure True ''wiringPiISR: unable to open'' l)
          else do {
            w \<leftarrow> Some (emit (SysRead (if old = - 1 then fd else old) count) w);
            (t, w) \<leftarrow> spawn pin w;
            Some (Returned (0, l\<lparr>pins := w, isrFunctions := (isrFunctions l)[nat pin := Some function_id]\<rparr>))
          }
        }
      })"

end
