(* ===== verification/Wiring_Lcd.thy ===== *)
theory Wiring_Lcd
  imports AutoMag Wiring_Setup
begin

text \<open>
  The display driver on top of the pin library. \<^verbatim>\<open>lcd.c\<close> is a client of the pin functions: the locale
  \<open>pin_driver\<close> states what it relies on, its lemmas show that the chip's lines then carry to the
  display exactly the bytes the driver meant, and the interpretations discharge the laws for the
  register-level model of \<^verbatim>\<open>wiringPi.c\<close> on both board revisions.
\<close>

section \<open>The calls of the driver, carried out\<close>

fun run_ops :: "gpio_op list \<Rightarrow> wiring \<Rightarrow> wiring option" where
  "run_ops [] w = Some w"
| "run_ops (DigitalWrite p v # ops) w = do { w \<leftarrow> digitalWrite p v w; run_ops ops w }"
| "run_ops (PinMode p m # ops) w = do { w \<leftarrow> pinMode p m w; run_ops ops w }"
| "run_ops (Delay n # ops) w = run_ops ops (emit (WaitMillis n) w)"
| "run_ops (DelayMicroseconds n # ops) w = run_ops ops (delayMicroseconds n w)"

fun op_pins :: "gpio_op \<Rightarrow> int set" where
  "op_pins (DigitalWrite p v) = {p}"
| "op_pins (PinMode p m) = {p}"
| "op_pins _ = {}"

fun op_plain :: "gpio_op \<Rightarrow> bool" where
  "op_plain (PinMode p m) = (m = GPIO_OUTPUT)"
| "op_plain _ = True"

definition lcd_pins :: "lcdDataStruct \<Rightarrow> int set" where
  "lcd_pins lcd = {rsPin lcd, strbPin lcd} \<union> set (used_pins lcd)"

text \<open>
  The display on the lines of the chip: at a falling edge of the strobe line it takes the levels of the
  register select line and the data lines.
\<close>

fun line_latched :: "(hw_event \<Rightarrow> (int \<Rightarrow> bool) \<Rightarrow> int \<Rightarrow> bool) \<Rightarrow> (int \<Rightarrow> int) \<Rightarrow> lcdDataStruct \<Rightarrow> (int \<Rightarrow> bool) \<Rightarrow>
    hw_event list \<Rightarrow> (bool \<times> bool list) list" where
  "line_latched eff line lcd lv [] = []"
| "line_latched eff line lcd lv (e # es) =
     (if lv (line (strbPin lcd)) \<and> \<not> eff e lv (line (strbPin lcd))
      then [(lv (line (rsPin lcd)), map (lv \<circ> line) (used_pins lcd))] else []) @
     line_latched eff line lcd (eff e lv) es"

definition line_heard :: "(int \<Rightarrow> int) \<Rightarrow> lcdDataStruct \<Rightarrow> (int \<Rightarrow> bool) \<Rightarrow> hw_event list \<Rightarrow> (bool \<times> byte) list" where
  "line_heard line lcd lv es =
     (let ls = line_latched bcm_level line lcd lv es
      in if lcd_bits lcd = 4 then nibble_pairs ls else map (\<lambda>(r, bs). (r, bus_value bs)) ls)"

section \<open>What the driver relies on\<close>

locale pin_driver =
  fixes good :: "int \<Rightarrow> bool"
    and line :: "int \<Rightarrow> int"
    and ready :: "wiring \<Rightarrow> bool"
    and eff :: "hw_event \<Rightarrow> (int \<Rightarrow> bool) \<Rightarrow> int \<Rightarrow> bool"
  assumes separate: "good p \<Longrightarrow> good q \<Longrightarrow> line p = line q \<Longrightarrow> p = q"
    and writes: "ready w \<Longrightarrow> good p \<Longrightarrow> \<exists>w' e. digitalWrite p v w = Some w' \<and> ready w' \<and> events w' = events w @ [e] \<and>
          (\<forall>lv q. eff e lv q = (if q = line p then v \<noteq> 0 else lv q))"
    and outputs: "ready w \<Longrightarrow> good p \<Longrightarrow> \<exists>w' e. pinMode p OUTPUT w = Some w' \<and> ready w' \<and> events w' = events w @ [e] \<and> eff e = (\<lambda>lv. lv)"
    and waits: "eff (WaitMillis n) = (\<lambda>lv. lv)" "eff (WaitMicros n) = (\<lambda>lv. lv)"
    and quiet: "ready w \<Longrightarrow> ready (emit e w)"
begin

lemma run_ops_lines:
  assumes "ready w" and "\<forall>op \<in> set ops. op_plain op \<and> (\<forall>p \<in> op_pins op. good p)" and "\<forall>p \<in> lcd_pins lcd. good p"
    and "\<forall>p. good p \<longrightarrow> lv p = ll (line p)"
  shows "\<exists>w' es. run_ops ops w = Some w' \<and> ready w' \<and> events w' = events w @ es \<and>
    line_latched eff line lcd ll es = latched lcd lv ops"
  using assms(1,2,4)
proof (induction ops arbitrary: w lv ll)
  case (Cons op ops)
  have agree: "(ll (line (rsPin lcd)), map (ll \<circ> line) (used_pins lcd)) = (lv (rsPin lcd), map lv (used_pins lcd))"
    "ll (line (strbPin lcd)) = lv (strbPin lcd)"
    using assms(3) Cons.prems(3) by (auto simp: lcd_pins_def)
  show ?case
  proof (cases op)
    case (DigitalWrite p v)
    then obtain w1 e where w1: "digitalWrite p v w = Some w1" "ready w1" "events w1 = events w @ [e]"
      "\<forall>lv q. eff e lv q = (if q = line p then v \<noteq> 0 else lv q)"
      using writes [of w p v] Cons.prems by auto
    have p: "good p" using Cons.prems(2) DigitalWrite by auto
    have same: "line q = line p \<longleftrightarrow> q = p" if "good q" for q using separate [OF p that] by auto
    have "\<forall>q. good q \<longrightarrow> (lv(p := v \<noteq> 0)) q = eff e ll (line q)"
      using w1(4) Cons.prems(3) same by simp
    from Cons.IH [OF w1(2) _ this] obtain w' es where
      w': "run_ops ops w1 = Some w'" "ready w'" "events w' = events w1 @ es"
      "line_latched eff line lcd (eff e ll) es = latched lcd (lv(p := v \<noteq> 0)) ops"
      using Cons.prems(2) by (auto simp del: fun_upd_apply)
    have "eff e ll (line (strbPin lcd)) = (if p = strbPin lcd then v \<noteq> 0 else lv (strbPin lcd))"
      using w1(4) agree(2) same [of "strbPin lcd"] assms(3) by (auto simp: lcd_pins_def)
    then have "line_latched eff line lcd ll (e # es) = latched lcd lv (op # ops)"
      using DigitalWrite w'(4) agree by (auto simp del: fun_upd_apply)
    then show ?thesis using DigitalWrite w1 w' by (intro exI [of _ w'] exI [of _ "e # es"]) simp
  next
    case (PinMode p m)
    then obtain w1 e where w1: "pinMode p OUTPUT w = Some w1" "ready w1" "events w1 = events w @ [e]" "eff e = (\<lambda>lv. lv)"
      using outputs [of w p] Cons.prems by auto
    from Cons.IH [OF w1(2) _ Cons.prems(3)] obtain w' es where
      "run_ops ops w1 = Some w'" "ready w'" "events w' = events w1 @ es" "line_latched eff line lcd ll es = latched lcd lv ops"
      using Cons.prems(2) by auto
    then show ?thesis using PinMode w1 Cons.prems(2) by (intro exI [of _ w'] exI [of _ "e # es"]) simp
  next
    case (Delay n)
    from Cons.IH [OF quiet [OF Cons.prems(1)] _ Cons.prems(3), of "WaitMillis n"] obtain w' es where
      "run_ops ops (emit (WaitMillis n) w) = Some w'" "ready w'" "events w' = events (emit (WaitMillis n) w) @ es"
      "line_latched eff line lcd ll es = latched lcd lv ops"
      using Cons.prems(2) by auto
    then show ?thesis using Delay waits by (intro exI [of _ w'] exI [of _ "WaitMillis n # es"]) simp
  next
    case (DelayMicroseconds n)
    let ?es = "if n = 0 then [] else [WaitMicros n]"
    have d: "ready (delayMicroseconds n w)" "events (delayMicroseconds n w) = events w @ ?es"
      using Cons.prems(1) quiet by (simp_all add: delayMicroseconds_def)
    from Cons.IH [OF d(1) _ Cons.prems(3)] obtain w' es where
      "run_ops ops (delayMicroseconds n w) = Some w'" "ready w'" "events w' = events (delayMicroseconds n w) @ es"
      "line_latched eff line lcd ll es = latched lcd lv ops"
      using Cons.prems(2) by auto
    then show ?thesis using DelayMicroseconds waits d by (intro exI [of _ w'] exI [of _ "?es @ es"]) simp
  qed
qed simp

end

section \<open>The register-level driver keeps the promises\<close>

text \<open>
  The library after a set-up in wiringPi pin mode, with a given table and no software pulse or tone on a board pin;
  the pins that can drive a line.
\<close>

definition pins_ready :: "int list \<Rightarrow> wiring \<Rightarrow> bool" where
  "pins_ready table w \<longleftrightarrow> wiringPiMode w = WPI_MODE_PINS \<and> pinToGpio w = table \<and> mapped w Gpio \<and>
     length (ranges w) \<ge> 64 \<and> length (toneThreads w) \<ge> 64 \<and>
     list_all (\<lambda>r. r = 0) (take 64 (ranges w)) \<and> list_all (\<lambda>t. t = 0) (take 64 (toneThreads w))"

definition good_pin :: "int list \<Rightarrow> int \<Rightarrow> bool" where
  "good_pin table p = (case at_index table p of None \<Rightarrow> False | Some g \<Rightarrow> 0 \<le> p \<and> p < 64 \<and> 0 \<le> g \<and> g < 60)"

definition line_of :: "int list \<Rightarrow> int \<Rightarrow> int" where
  "line_of table p = table ! nat p"

lemma good_pinD:
  assumes "good_pin table p"
  shows "0 \<le> p" "p < 64" "0 \<le> line_of table p" "line_of table p < 60" "at_index table p = Some (line_of table p)"
  using assms by (auto simp: good_pin_def line_of_def at_index_def split: option.splits if_splits)

lemma ready_gpio_of:
  assumes "pins_ready table w" and "good_pin table p"
  shows "gpio_of w p = Some (Some (line_of table p))" and "on_board p"
    and "at_index (ranges w) p = Some 0" "at_index (toneThreads w) p = Some 0"
proof -
  note g = good_pinD [OF assms(2)]
  have n: "nat p < 64" using g by simp
  have "take 64 (ranges w) ! nat p = 0" "take 64 (toneThreads w) ! nat p = 0"
    using assms(1) n by (auto simp: pins_ready_def list_all_length)
  then show "at_index (ranges w) p = Some 0" "at_index (toneThreads w) p = Some 0"
    using assms(1) n g by (auto simp: pins_ready_def at_index_Some)
  show "gpio_of w p = Some (Some (line_of table p))" "on_board p"
    using assms(1) g by (simp_all add: gpio_of_def pins_ready_def)
qed

lemma pins_ready_write [inv_intros]:
  "pins_ready table w \<Longrightarrow> pins_ready table (emit e (w\<lparr>regs := r\<rparr>))"
  by (simp add: pins_ready_def)

lemma ready_writes:
  assumes "pins_ready table w" and "good_pin table p"
  shows "\<exists>w' e. digitalWrite p v w = Some w' \<and> pins_ready table w' \<and> events w' = events w @ [e] \<and>
    (\<forall>lv q. bcm_level e lv q = (if q = line_of table p then v \<noteq> 0 else lv q))"
proof -
  note g = good_pinD [OF assms(2)]
  have "mapped w Gpio" using assms(1) by (simp add: pins_ready_def)
  then show ?thesis
    using digitalWrite_mapped [OF ready_gpio_of(2,1) [OF assms], of v] g bcm_level_write [of "line_of table p" v]
      pins_ready_write [OF assms(1)] by (simp add: reg_write_mapped)
qed

lemma ready_outputs:
  assumes "pins_ready table w" and "good_pin table p"
  shows "\<exists>w' e. pinMode p OUTPUT w = Some w' \<and> pins_ready table w' \<and> events w' = events w @ [e] \<and> bcm_level e = (\<lambda>lv. lv)"
proof -
  note g = good_pinD [OF assms(2)]
  have m: "mapped w Gpio" using assms(1) by (simp add: pins_ready_def)
  have n: "nat (line_of table p) div 10 < 6" using g by linarith
  show ?thesis
    using pinMode_plain [OF ready_gpio_of(2,1) [OF assms] g(3,4) _ ready_gpio_of(3,4) [OF assms], of OUTPUT]
      set_function_mapped [OF g(3,4) m] m pins_ready_write [OF assms(1)] bcm_level_fsel [OF n] by (simp add: reg_write_mapped fun_eq_iff)
qed

lemma bcm_level_waits: "bcm_level (WaitMillis n) = (\<lambda>lv. lv)" "bcm_level (WaitMicros n) = (\<lambda>lv. lv)"
  by (simp_all add: bcm_level_def fun_eq_iff)

lemma pins_ready_emit [inv_intros]: "pins_ready table w \<Longrightarrow> pins_ready table (emit e w)"
  by (simp add: pins_ready_def)

lemmas driver_laws = ready_writes ready_outputs bcm_level_waits pins_ready_emit

lemma pin_driver_table:
  assumes "distinct (filter (\<lambda>g. 0 \<le> g) table)"
  shows "good_pin table p \<Longrightarrow> good_pin table q \<Longrightarrow> line_of table p = line_of table q \<Longrightarrow> p = q"
proof -
  assume a: "good_pin table p" "good_pin table q" "line_of table p = line_of table q"
  have inj: "distinct (filter P xs) \<Longrightarrow> i < length xs \<Longrightarrow> j < length xs \<Longrightarrow> P (xs ! i) \<Longrightarrow> xs ! i = xs ! j \<Longrightarrow> i = j"
    for P and xs :: "int list" and i j
  proof (induction xs arbitrary: i j)
    case (Cons x xs)
    then show ?case by (cases i; cases j) (auto simp: nth_Cons' split: if_splits)
  qed simp
  show "p = q"
    using inj [OF assms, of "nat p" "nat q"] a good_pinD [OF a(1)] good_pinD [OF a(2)]
    by (auto simp: line_of_def at_index_Some)
qed

interpretation rev2: pin_driver "good_pin pinToGpioR2" "line_of pinToGpioR2" "pins_ready pinToGpioR2" bcm_level
proof (unfold_locales, goal_cases)
  case (1 p q)
  moreover have "distinct (filter (\<lambda>g. 0 \<le> g) pinToGpioR2)" by (simp add: pinToGpioR2_def)
  ultimately show ?case using pin_driver_table by blast
qed (blast intro: driver_laws)+

interpretation rev1: pin_driver "good_pin pinToGpioR1" "line_of pinToGpioR1" "pins_ready pinToGpioR1" bcm_level
proof (unfold_locales, goal_cases)
  case (1 p q)
  moreover have "distinct (filter (\<lambda>g. 0 \<le> g) pinToGpioR1)" by (simp add: pinToGpioR1_def)
  ultimately show ?case using pin_driver_table by blast
qed (blast intro: driver_laws)+

section \<open>The driver stays on its pins\<close>

text \<open>
  Every call in the trace sets or writes a pin of the set \<open>S\<close>, and every open display is wired to pins of \<open>S\<close>.
\<close>

definition wired :: "int set \<Rightarrow> lcdDataStruct \<Rightarrow> bool" where
  "wired S lcd \<longleftrightarrow> (lcd_bits lcd = 4 \<or> lcd_bits lcd = 8) \<and> lcd_pins lcd \<subseteq> S"

definition ops_on :: "int set \<Rightarrow> gpio_op list \<Rightarrow> bool" where
  "ops_on S ops \<longleftrightarrow> (\<forall>op \<in> set ops. op_plain op \<and> op_pins op \<subseteq> S)"

definition confined :: "int set \<Rightarrow> lcd_state \<Rightarrow> bool" where
  "confined S s \<longleftrightarrow> ops_on S (lcd_ops s) \<and> (\<forall>lcd. Some lcd \<in> set (lcds s) \<longrightarrow> wired S lcd)"

lemma ops_on_simps [simp]:
  "ops_on S []" "ops_on S (op # ops) \<longleftrightarrow> op_plain op \<and> op_pins op \<subseteq> S \<and> ops_on S ops"
  "ops_on S (xs @ ys) \<longleftrightarrow> ops_on S xs \<and> ops_on S ys" "ops_on S (concat xss) \<longleftrightarrow> (\<forall>xs \<in> set xss. ops_on S xs)"
  by (auto simp: ops_on_def)

lemma ops_on_bits: "ops_on S (write_bits ps d) \<longleftrightarrow> set ps \<subseteq> S"
  by (induction ps arbitrary: d) auto

lemma ops_on_send:
  assumes "wired S lcd"
  shows "ops_on S (strobe lcd)" "ops_on S (sendDataCmd lcd d)" "ops_on S (putCommand lcd c)" "rsPin lcd \<in> S"
  using assms by (auto simp: wired_def lcd_pins_def used_pins_def strobe_def sendDataCmd_def putCommand_def ops_on_bits)

lemma wired_at: "confined S s \<Longrightarrow> lcd_at s fd = Some lcd \<Longrightarrow> wired S lcd"
  by (auto simp: confined_def lcd_at_def split: if_splits) (metis nth_mem)

lemma wired_cursor [simp]: "wired S (lcd\<lparr>cx := x, cy := y\<rparr>) = wired S lcd" "wired S (lcd\<lparr>cx := x\<rparr>) = wired S lcd"
  by (simp_all add: wired_def lcd_pins_def used_pins_def)

lemma confined_put [inv_intros]:
  "confined S s \<Longrightarrow> wired S lcd \<Longrightarrow> ops_on S ops \<Longrightarrow> confined S (lcd_put fd lcd ops s)"
  by (auto simp: confined_def lcd_put_def dest: set_update_subset_insert [THEN subsetD])

lemma confined_control: "confined S (s\<lparr>lcdControl := c\<rparr>) = confined S s"
  by (simp add: confined_def)

lemma confined_ops [inv_intros]:
  assumes "confined S s"
  shows "pred_option (confined S) (lcdClear fd s)"
    and "pred_option (confined S) (lcd_control flag fd st s)"
    and "pred_option (confined S) (lcdSendCommand fd c s)"
    and "pred_option (confined S) (lcdPosition fd x y s)"
    and "pred_option (confined S) (lcdPutchar fd ch s)"
  using assms
  by (auto simp: lcdClear_def lcd_control_def lcdSendCommand_def lcdPosition_def lcdPutchar_def Let_def confined_control
      split: bind_splits if_splits option.splits intro!: confined_put dest: wired_at simp: ops_on_send)

lemma confined_puts [inv_intros]: "confined S s \<Longrightarrow> pred_option (confined S) (lcdPuts fd str s)"
  by (induction str arbitrary: s) (auto intro!: pred_option_bind [OF confined_ops(5)])

lemma ops_on_mode: "lcd_pins lcd \<subseteq> S \<Longrightarrow> bits = lcd_bits lcd \<Longrightarrow> bits = 4 \<or> bits = 8 \<Longrightarrow>
    ops_on S (lcd_mode_ops (lcd\<lparr>lcd_bits := 8\<rparr>) bits)"
  using ops_on_send(3) [of S "lcd\<lparr>lcd_bits := 8\<rparr>"]
  by (auto simp: lcd_mode_ops_def Let_def put4Command_def ops_on_bits lcd_pins_def used_pins_def strobe_def wired_def)

lemma confined_init [inv_intros]:
  assumes "confined S s" and "{rs, strb} \<union> set (take (nat bits) ps) \<subseteq> S"
  shows "pred_option (\<lambda>(_, s'). confined S s') (lcdInit mem rows cols bits rs strb ps s)"
proof -
  define s0 where "s0 = (if lcd_initialised s then s else s\<lparr>lcd_initialised := True, lcds := replicate MAX_LCDS None\<rparr>)"
  let ?lcd = "\<lparr>lcd_bits = if bits = 4 then 4 else 8, lcd_rows = rows, lcd_cols = cols, rsPin = rs, strbPin = strb, dataPins = ps, cx = 0, cy = 0\<rparr>"
  let ?func = "(if bits = 4 then LCD_FUNC else LCD_FUNC OR LCD_FUNC_DL) OR LCD_FUNC_N"
  let ?head = "[DigitalWrite rs 0, PinMode rs GPIO_OUTPUT, DigitalWrite strb 0, PinMode strb GPIO_OUTPUT] @
    concat (map (\<lambda>p. [DigitalWrite p 0, PinMode p GPIO_OUTPUT]) (take (nat bits) ps)) @ [Delay 35] @
    lcd_mode_ops (?lcd\<lparr>lcd_bits := 8\<rparr>) bits @ (if rows > 1 then putCommand ?lcd ?func @ [Delay 35] else [])"
  have c0: "confined S s0" using assms(1) by (auto simp: s0_def confined_def)
  have "confined S (lcd_put fd ?lcd ?head s0)" if b: "bits = 4 \<or> bits = 8" for fd
  proof (intro confined_put c0)
    show w: "wired S ?lcd" using assms(2) b by (auto simp: wired_def lcd_pins_def used_pins_def)
    show "ops_on S ?head" using assms(2) ops_on_send(3) [OF w] ops_on_mode [of ?lcd S bits] w b by (auto simp: wired_def)
  qed
  then show ?thesis using c0 unfolding lcdInit_def s0_def [symmetric] Let_def
    by (auto simp: lcdDisplay_def lcdCursor_def lcdCursorBlink_def intro!: pred_option_bind [OF confined_ops(1)]
        pred_option_bind [OF confined_ops(2)] pred_option_bind [OF confined_ops(3)])
qed

lemma confined_screen [inv_intros]: "confined S s \<Longrightarrow> pred_option (confined S) (lcdScreen fd v fuel temp s)"
  by (auto simp: lcdScreen_def intro!: pred_option_bind [OF confined_ops(4)] pred_option_bind [OF confined_puts] confined_puts)

lemma confined_initLcd [inv_intros]:
  assumes "confined S s" and "{29, 25, 24, 23, 22, 21} \<subseteq> S"
  shows "pred_option (\<lambda>(_, s'). confined S s') (initLcd mem s)"
  unfolding initLcd_def
proof (rule pred_option_bind [OF confined_init [OF assms(1)]])
qed (use assms(2) in \<open>auto simp del: lcdPuts.simps bytes_of_simps intro!: pred_option_bind [OF confined_ops(1)] pred_option_bind [OF confined_ops(4)]
    pred_option_bind [OF confined_puts]\<close>)

section \<open>Set-up on a board\<close>

lemma map_banks_mapped:
  assumes "map_banks e bs l = Returned (0, l')"
  shows "mapped (pins l') b = (mapped (pins l) b \<or> b \<in> fst ` set bs)"
    and "pins l' = (pins l)\<lparr>mapped := mapped (pins l')\<rparr>"
    and "board l' = board l"
proof -
  have "(mapped (pins l') b = (mapped (pins l) b \<or> b \<in> fst ` set bs)) \<and> pins l' = (pins l)\<lparr>mapped := mapped (pins l')\<rparr> \<and> board l' = board l"
    using assms
  proof (induction e bs l rule: map_banks.induct)
    case (2 e c name bs l)
    then show ?case by (cases "mmaps e c"; auto simp: wiringPiFailure_def split: if_splits)
  qed simp
  then show "mapped (pins l') b = (mapped (pins l) b \<or> b \<in> fst ` set bs)" "pins l' = (pins l)\<lparr>mapped := mapped (pins l')\<rparr>"
    "board l' = board l" by blast+
qed

lemma piBoardRev_known:
  assumes "piBoardRev cpu b = Some (Returned (r, b'))" and "boardRev b = - 1"
  shows "boardRev b' = r" and "r = 1 \<or> r = 2"
proof -
  have "boardRev b' = r \<and> (r = 1 \<or> r = 2)"
    using assms
    by (auto simp: piBoardRev_def piBoardRevOops_def revision_of_line_def split: option.splits if_splits bind_splits)
  then show "boardRev b' = r" "r = 1 \<or> r = 2" by blast+
qed

lemma piBoardId_cached:
  "piBoardId cpu cpu2 b = Some (Returned (i, b')) \<Longrightarrow> boardRev b \<noteq> - 1 \<Longrightarrow> b' = b"
  by (auto simp: piBoardId_def piBoardRev_def piBoardRevOops_def id_of_line_def
      split: option.splits if_splits bind_splits halting.splits)

lemma open_memory_fields:
  assumes "open_memory e l = Returned (c, l')"
  shows "board l' = board l" "\<exists>x. pins l' = (pins l)\<lparr>RASPBERRY_PI_PERI_BASE := x\<rparr>"
  using assms by (auto simp: open_memory_def wiringPiFailure_def split: if_splits intro: exI [of _ "RASPBERRY_PI_PERI_BASE (pins l)"])

lemma finish_setup_fields:
  assumes "finish_setup e l = Some (Returned (c, l'))" and "boardRev (board l) \<noteq> - 1"
  shows "board l' = board l" and "\<exists>m. pins l' = (pins l)\<lparr>wiringPiMode := m\<rparr> \<and> (m = WPI_MODE_PINS \<or> m = WPI_MODE_GPIO)"
proof -
  obtain i b where b: "piBoardId (cpuinfo1 e) (cpuinfo2 e) (board l) = Some (Returned (i, b))"
    "l' = (initialiseEpoch (now e) l)\<lparr>board := b, pins := (pins l)\<lparr>wiringPiMode := if model i = PI_MODEL_CM then WPI_MODE_GPIO else WPI_MODE_PINS\<rparr>\<rparr>"
    using assms(1) by (auto simp: finish_setup_def split: bind_splits elim!: halting_bind.elims)
  with piBoardId_cached [OF b(1) assms(2)] show "board l' = board l"
    "\<exists>m. pins l' = (pins l)\<lparr>wiringPiMode := m\<rparr> \<and> (m = WPI_MODE_PINS \<or> m = WPI_MODE_GPIO)" by auto
qed

lemma setup_ready:
  assumes "wiringPiSetup e l = Some (Returned (0, l'))" and "pins l = wiring_start" and "boardRev (board l) = - 1"
  shows "wiringPiMode (pins l') = WPI_MODE_PINS \<or> wiringPiMode (pins l') = WPI_MODE_GPIO"
    and "boardRev (board l') = 1 \<or> boardRev (board l') = 2"
    and "wiringPiMode (pins l') = WPI_MODE_PINS \<Longrightarrow>
      pins_ready (if boardRev (board l') = 1 then pinToGpioR1 else pinToGpioR2) (pins l')"
    and "events (pins l') = []" and "mapped (pins l') b"
proof -
  obtain r bd where r: "piBoardRev (cpuinfo1 e) (board l) = Some (Returned (r, bd))" and called: "\<not> alreadyCalled l"
    using assms(1) by (auto simp: wiringPiSetup_def read_env_def wiringPiFailure_def Let_def split: if_splits bind_splits halting.splits)
  let ?l0 = "read_env e (l\<lparr>alreadyCalled := True\<rparr>)"
  define l1 where "l1 = ?l0\<lparr>wiringPiTryGpioMem := (wiringPiTryGpioMem ?l0 \<or> getenv_gpiomem e), board := bd,
    pins := (use_tables r (pins l))\<lparr>RASPBERRY_PI_PERI_BASE := if piModel2 bd then 0x3F000000 else 0x20000000\<rparr>\<rparr>"
  have l1: "board l1 = bd" "\<exists>x. pins l1 = (use_tables r (pins l))\<lparr>RASPBERRY_PI_PERI_BASE := x\<rparr>" by (auto simp: l1_def)
  obtain c2 l2 where l2: "open_memory e l1 = Returned (c2, l2)" "\<not> c2 < 0"
    using assms(1) r called unfolding wiringPiSetup_def Let_def l1_def
    by (auto simp: read_env_def split: halting.splits prod.splits if_splits)
  obtain c3 l3 where l3: "map_banks e [(Gpio, ''GPIO''), (Pwm, ''PWM''), (Clk, ''CLOCK''), (Pads, ''PADS'')] l2 = Returned (c3, l3)" "\<not> c3 < 0"
    and fin: "finish_setup e l3 = Some (Returned (0, l'))"
    using assms(1) r called l2 unfolding wiringPiSetup_def Let_def l1_def
    by (auto simp: read_env_def simp del: map_banks.simps split: halting.splits prod.splits if_splits)
  have c3: "c3 = 0" using l3 by (auto simp: wiringPiFailure_def split: if_splits)
  note known = piBoardRev_known [OF r assms(3)]
  have b3: "board l3 = bd" using map_banks_mapped(3) [OF l3(1) [unfolded c3]] open_memory_fields(1) [OF l2(1)] l1(1) by simp
  then have nb: "boardRev (board l3) \<noteq> - 1" using known by auto
  note f = finish_setup_fields [OF fin nb]
  note m3 = map_banks_mapped(1,2) [OF l3(1) [unfolded c3]]
  obtain x where x: "pins l2 = (use_tables r (pins l))\<lparr>RASPBERRY_PI_PERI_BASE := x\<rparr>"
    using l1(2) open_memory_fields(2) [OF l2(1)] by auto
  obtain m where m: "pins l' = (pins l3)\<lparr>wiringPiMode := m\<rparr>" "m = WPI_MODE_PINS \<or> m = WPI_MODE_GPIO" using f(2) by blast
  have "mapped (pins l3) b" for b using m3(1) [of b] by (cases b) auto
  then have mp: "mapped (pins l') b" for b using m by simp
  obtain mm where "pins l3 = (pins l2)\<lparr>mapped := mm\<rparr>" using m3(2) by blast
  then have p: "pins l' = (use_tables r wiring_start)\<lparr>RASPBERRY_PI_PERI_BASE := x, mapped := mm, wiringPiMode := m\<rparr>"
    using m(1) x assms(2) by simp
  show "wiringPiMode (pins l') = WPI_MODE_PINS \<or> wiringPiMode (pins l') = WPI_MODE_GPIO" using m by auto
  show "boardRev (board l') = 1 \<or> boardRev (board l') = 2" using f(1) b3 known by auto
  show "mapped (pins l') b" by (rule mp)
  show "events (pins l') = []" by (simp add: p use_tables_def wiring_start_def)
  show "pins_ready (if boardRev (board l') = 1 then pinToGpioR1 else pinToGpioR2) (pins l')"
    if "wiringPiMode (pins l') = WPI_MODE_PINS"
    using that mp [of Gpio] f(1) b3 known unfolding p
    by (auto simp: pins_ready_def use_tables_def wiring_start_def list_all_iff split: if_splits)
qed

section \<open>Properties\<close>

text \<open>A series of messages shown by the client, as speed, fuel and temperature.\<close>

fun show_all :: "int \<Rightarrow> (int \<times> int \<times> int) list \<Rightarrow> lcd_state \<Rightarrow> lcd_state option" where
  "show_all fd [] s = Some s"
| "show_all fd ((v, fuel, temp) # ms) s = do { s \<leftarrow> lcdScreen fd v fuel temp s; show_all fd ms s }"

definition shown :: "(int \<times> int \<times> int) list \<Rightarrow> terminal \<Rightarrow> terminal" where
  "shown ms = fold (\<lambda>(v, fuel, temp). two_lines (speed_line v) (status_line fuel temp)) ms"

lemma confined_show_all: "confined S s \<Longrightarrow> pred_option (confined S) (show_all fd ms s)"
  by (induction ms arbitrary: s) (auto intro!: pred_option_bind [OF confined_screen])

lemma confined_start: "confined S lcd_start"
  by (simp add: confined_def lcd_start_def)

lemma show_all_shows:
  "lcd_shows 2 16 fd s0 d0 s t \<Longrightarrow> \<exists>s'. show_all fd ms s = Some s' \<and> lcd_shows 2 16 fd s0 d0 s' (shown ms t)"
proof (induction ms arbitrary: s t)
  case (Cons m ms)
  obtain v fuel temp where m: "m = (v, fuel, temp)" by (cases m)
  obtain s1 where "lcdScreen fd v fuel temp s = Some s1"
    "lcd_shows 2 16 fd s0 d0 s1 (two_lines (speed_line v) (status_line fuel temp) t)"
    using lcdScreen_shows [OF Cons.prems] by blast
  with Cons.IH [OF this(2)] show ?case by (simp add: m shown_def)
qed (simp add: shown_def)

text \<open>The display that has heard all calls of the driver so far is in state \<open>d'\<close>, whatever follows.\<close>

definition told :: "lcdDataStruct \<Rightarrow> (int \<Rightarrow> bool) \<Rightarrow> display \<Rightarrow> lcd_state \<Rightarrow> display \<Rightarrow> bool" where
  "told lcd lv d s d' \<longleftrightarrow> (\<exists>ms. fold display_step ms d = d' \<and>
     (\<forall>rest. \<exists>lv'. heard lcd lv (lcd_ops s @ rest) = ms @ heard lcd lv' rest))"

lemma told_heard: "told lcd lv d s d' \<Longrightarrow> fold display_step (heard lcd lv (lcd_ops s)) d = d'"
proof -
  assume "told lcd lv d s d'"
  then obtain ms where ms: "fold display_step ms d = d'"
    "\<forall>rest. \<exists>lv'. heard lcd lv (lcd_ops s @ rest) = ms @ heard lcd lv' rest" unfolding told_def by blast
  then obtain lv' where "heard lcd lv (lcd_ops s @ []) = ms @ heard lcd lv' []" by blast
  with ms(1) show ?thesis by (simp add: heard_def)
qed

lemma told_run:
  assumes "told lcd lv d s d'" and "lcd_run fd s d' s1 d1" and "lcd_at s fd = Some lcd"
  shows "told lcd lv d s1 d1"
proof -
  obtain ms where ms: "fold display_step ms d = d'"
    "\<forall>rest. \<exists>lv'. heard lcd lv (lcd_ops s @ rest) = ms @ heard lcd lv' rest" using assms(1) unfolding told_def by blast
  obtain ops ns where ops: "lcd_ops s1 = lcd_ops s @ ops" "says lcd ops ns" "fold display_step ns d' = d1"
    using assms(2,3) by (auto simp: lcd_run_def)
  have "\<exists>lv'. heard lcd lv (lcd_ops s1 @ rest) = (ms @ ns) @ heard lcd lv' rest" for rest
    using ms(2) ops(1,2) unfolding says_def append_assoc by (metis append_assoc)
  then show ?thesis unfolding told_def using ms(1) ops(3) by (intro exI [of _ "ms @ ns"]) simp
qed

lemma lcdInit_car:
  "\<exists>s1. lcdInit True 2 16 4 29 25 [24, 23, 22, 21, 0, 0, 0, 0] lcd_start = Some (0, s1) \<and> lcd_at s1 0 = Some demo_lcd \<and>
     (\<forall>lv d. \<not> lv 25 \<longrightarrow> told demo_lcd lv d s1 blank)"
proof -
  let ?s0 = "lcd_start\<lparr>lcd_initialised := True\<rparr>"
  have a: "lcd_initialised ?s0" "first_free (lcds ?s0) 0 = 0" "control_ok ?s0" "lcd_ops ?s0 = []"
    by (simp_all add: lcd_start_def control_ok_def MAX_LCDS_def numeral_eq_Suc)
  obtain s1 where s1: "lcdInit True 2 16 4 29 25 [24, 23, 22, 21, 0, 0, 0, 0] ?s0 = Some (0, s1)" "lcd_at s1 0 = Some demo_lcd"
    "\<forall>lv d. \<not> lv 25 \<longrightarrow> told demo_lcd lv d s1 blank"
    using lcdInit_says [OF a(1,2) _ _ _ _ _ _ a(3) demo_lcd_def demo_lcd_ok(1)] a(4) unfolding told_def by force
  then show ?thesis by (intro exI [of _ s1]) (simp add: lcdInit_def lcd_start_def)
qed

lemma initLcd_shows:
  "\<exists>s1 s. initLcd True lcd_start = Some (0, s) \<and> lcd_at s1 0 = Some demo_lcd \<and>
     (\<forall>lv d. \<not> lv 25 \<longrightarrow> told demo_lcd lv d s1 blank) \<and>
     lcd_shows 2 16 0 s1 blank s (two_lines (bytes_of ''Speed : '') (bytes_of ''F:---- T:'') (screen demo_lcd blank))"
proof -
  obtain s1 where i: "lcdInit True 2 16 4 29 25 [24, 23, 22, 21, 0, 0, 0, 0] lcd_start = Some (0, s1)"
    and s1: "lcd_at s1 0 = Some demo_lcd" "\<forall>lv d. \<not> lv 25 \<longrightarrow> told demo_lcd lv d s1 blank"
    using lcdInit_car by (elim exE conjE) rule
  obtain s2 where s2: "lcdClear 0 s1 = Some s2" "lcd_at s2 0 = Some (demo_lcd\<lparr>cx := 0, cy := 0\<rparr>)" "\<forall>d. lcd_run 0 s1 d s2 blank"
    using clear_runs [OF s1(1) demo_lcd_ok(1)] by blast
  have "lcd_shows 2 16 0 s1 blank s2 (screen demo_lcd blank)"
    unfolding lcd_shows_def using s2 demo_lcd_ok(3) by (intro exI [of _ demo_lcd] exI [of _ blank]) (simp add: demo_lcd_def)
  from hd44780.two_lines_show [OF this, of "bytes_of ''Speed : ''" "bytes_of ''F:---- T:''"]
  obtain s where "do { s3 \<leftarrow> hd44780.write_line 0 0 (bytes_of ''Speed : '') s2; hd44780.write_line 0 1 (bytes_of ''F:---- T:'') s3 } = Some s"
    "lcd_shows 2 16 0 s1 blank s (two_lines (bytes_of ''Speed : '') (bytes_of ''F:---- T:'') (screen demo_lcd blank))"
    unfolding two_lines_def by auto
  moreover from this(1) have "initLcd True lcd_start = Some (0, s)"
    using i s2(1) by (auto simp: initLcd_def hd44780.write_line_def bind_eq_Some_conv simp del: lcdPuts.simps bytes_of_simps)
  ultimately show ?thesis using s1 by blast
qed

abbreviation (input) car_pins :: "int set" where
  "car_pins \<equiv> {29, 25, 24, 23, 22, 21}"

lemma car_pins_good: "p \<in> car_pins \<Longrightarrow> good_pin pinToGpioR2 p"
  by (auto simp: good_pin_def at_index_def pinToGpioR2_def)

lemma car_on_lines:
  assumes "pins_ready pinToGpioR2 w0" and "confined car_pins s" and "lcd_at s fd = Some lcd"
  shows "\<exists>w es. run_ops (lcd_ops s) w0 = Some w \<and> events w = events w0 @ es \<and>
    line_heard (line_of pinToGpioR2) lcd lv es = heard lcd (\<lambda>p. lv (line_of pinToGpioR2 p)) (lcd_ops s)"
proof -
  have o: "\<forall>op \<in> set (lcd_ops s). op_plain op \<and> (\<forall>p \<in> op_pins op. good_pin pinToGpioR2 p)"
    using assms(2) car_pins_good unfolding confined_def ops_on_def by blast
  have p: "\<forall>p \<in> lcd_pins lcd. good_pin pinToGpioR2 p"
    using wired_at [OF assms(2,3)] car_pins_good unfolding wired_def by blast
  show ?thesis
    using rev2.run_ops_lines [OF assms(1) o p, of "\<lambda>p. lv (line_of pinToGpioR2 p)" lv]
    by (auto simp: line_heard_def heard_def)
qed

text \<open>
  C5. From set-up to the glass: after \<^verbatim>\<open>wiringPiSetup\<close> on a revision 2 board, \<^verbatim>\<open>initLcd\<close> and any series of status
  messages are carried out by the pin library without an error, and a display connected to the chip's
  lines then shows exactly the text of the last message over what was there before.
\<close>

theorem display_on_lines:
  assumes "wiringPiSetup e library_start = Some (Returned (0, l))"
    and "wiringPiMode (pins l) = WPI_MODE_PINS" "boardRev (board l) = 2" and "\<not> lv (line_of pinToGpioR2 25)"
  shows "\<exists>s s' lcd w. initLcd True lcd_start = Some (0, s) \<and> show_all 0 ms s = Some s' \<and> lcd_at s' 0 = Some lcd \<and>
    run_ops (lcd_ops s') (pins l) = Some w \<and>
    screen lcd (fold display_step (line_heard (line_of pinToGpioR2) lcd lv (events w)) d) =
      shown ms (two_lines (bytes_of ''Speed : '') (bytes_of ''F:---- T:'') (screen demo_lcd blank))"
proof -
  have st: "pins library_start = wiring_start" "boardRev (board library_start) = - 1" by (simp_all add: library_start_def)
  note su = setup_ready [OF assms(1) st]
  have r: "pins_ready pinToGpioR2 (pins l)" using su(3) assms(2,3) by simp
  let ?lv = "\<lambda>p. lv (line_of pinToGpioR2 p)"
  obtain s1 s where s: "initLcd True lcd_start = Some (0, s)" "lcd_at s1 0 = Some demo_lcd"
    "\<forall>lv d. \<not> lv 25 \<longrightarrow> told demo_lcd lv d s1 blank"
    "lcd_shows 2 16 0 s1 blank s (two_lines (bytes_of ''Speed : '') (bytes_of ''F:---- T:'') (screen demo_lcd blank))"
    using initLcd_shows by (elim exE conjE) rule
  have t: "told demo_lcd ?lv d s1 blank" using s(3) [THEN spec, of ?lv] assms(4) by simp
  obtain s' where s': "show_all 0 ms s = Some s'"
    "lcd_shows 2 16 0 s1 blank s' (shown ms (two_lines (bytes_of ''Speed : '') (bytes_of ''F:---- T:'') (screen demo_lcd blank)))"
    using show_all_shows [OF s(4)] by blast
  then obtain lcd d' where l: "lcd_run 0 s1 blank s' d'" "lcd_at s' 0 = Some lcd"
    "screen lcd d' = shown ms (two_lines (bytes_of ''Speed : '') (bytes_of ''F:---- T:'') (screen demo_lcd blank))"
    by (auto simp: lcd_shows_def)
  have "same_wiring demo_lcd lcd" using l(1,2) s(2) by (auto simp: lcd_run_def)
  then have h: "fold display_step (heard lcd ?lv (lcd_ops s')) d = d'"
    using told_heard [OF told_run [OF t l(1) s(2)]] heard_same_wiring by metis
  have "confined car_pins s" using confined_initLcd [OF confined_start, of car_pins True] s(1) by simp
  then have "confined car_pins s'" using confined_show_all [of car_pins s 0 ms] s'(1) by simp
  from car_on_lines [OF r this l(2), of lv] show ?thesis using s(1) s'(1) l(2,3) h su(4) by auto
qed

text \<open>A board with the given revision number, root and all mappings available.\<close>

definition demo_cpuinfo :: "string \<Rightarrow> string" where
  "demo_cpuinfo code = ''Hardware : BCM2708'' @ [CHR 0x0A] @ ''Revision : '' @ code @ [CHR 0x0A]"

definition demo_env :: "string \<Rightarrow> setup_env" where
  "demo_env code = \<lparr>getenv_debug = False, getenv_codes = False, getenv_gpiomem = False,
     cpuinfo1 = Some (demo_cpuinfo code), cpuinfo2 = Some (demo_cpuinfo code),
     euid = 0, mem_fd = 3, mmaps = (\<lambda>_. True), sys_open = (\<lambda>_. - 1), now = (0, 0)\<rparr>"

lemma demo_lines:
  "find_line ''Hardware'' None (demo_cpuinfo ''0010'') = Some (''Hardware : BCM2708'' @ [CHR 0x0A])"
  "find_line ''Revision'' x (demo_cpuinfo ''0010'') = Some (''Revision : 0010'' @ [CHR 0x0A])"
  "find_line ''Hardware'' None (demo_cpuinfo ''0002'') = Some (''Hardware : BCM2708'' @ [CHR 0x0A])"
  "find_line ''Revision'' x (demo_cpuinfo ''0002'') = Some (''Revision : 0002'' @ [CHR 0x0A])"
  by (subst find_line.simps; simp add: demo_cpuinfo_def fgets_def strncmp_eq_def Let_def;
      (subst find_line.simps; simp add: fgets_def strncmp_eq_def Let_def)?)+

lemma demo_codes:
  "after_colon (chomp (''Revision : 0010'' @ [CHR 0x0A])) = Some ''0010''"
  "after_colon (chomp (''Revision : 0002'' @ [CHR 0x0A])) = Some ''0002''"
  "strtol16 ''0010'' = 16" "strtol16 ''0002'' = 2"
  by (simp_all add: after_colon_def chomp_def isspace_def strtol16_def hex_prefix_def isxdigit_def xdigit_value_def)

lemma demo_board:
  "piBoardRev (Some (demo_cpuinfo ''0010'')) \<lparr>boardRev = - 1, piModel2 = False\<rparr> = Some (Returned (2, \<lparr>boardRev = 2, piModel2 = False\<rparr>))"
  "piBoardRev (Some (demo_cpuinfo ''0002'')) \<lparr>boardRev = - 1, piModel2 = False\<rparr> = Some (Returned (1, \<lparr>boardRev = 1, piModel2 = False\<rparr>))"
  by (simp_all add: piBoardRev_def demo_lines strncmp_eq_def revision_of_line_def last4_def isxdigit_def xdigit_value_def
      demo_codes [simplified])

lemma demo_id:
  "id_of_line (''Revision : 0010'' @ [CHR 0x0A]) = Returned \<lparr>model = 3, rev_id = 2, mem_id = 1, maker = 0, warranty = False\<rparr>"
  "id_of_line (''Revision : 0002'' @ [CHR 0x0A]) = Returned \<lparr>model = 1, rev_id = 0, mem_id = 0, maker = 1, warranty = False\<rparr>"
  by (simp_all add: id_of_line_def demo_codes [simplified] isxdigit_def xdigit_value_def isdigit_def last4_def old_id_def)

lemma demo_setup:
  assumes "code = ''0010'' \<and> r = 2 \<or> code = ''0002'' \<and> r = 1"
  shows "\<exists>l. wiringPiSetup (demo_env code) library_start = Some (Returned (0, l)) \<and> wiringPiMode (pins l) = WPI_MODE_PINS \<and>
    boardRev (board l) = r"
  using assms demo_board demo_id demo_lines
  by (auto simp: wiringPiSetup_def library_start_def read_env_def demo_env_def open_memory_def finish_setup_def
      initialiseEpoch_def piBoardId_def piBoardRev_def strncmp_eq_def Let_def)

theorem display_on_lines_witness:
  "\<exists>l s s' lcd w. wiringPiSetup (demo_env ''0010'') library_start = Some (Returned (0, l)) \<and>
     initLcd True lcd_start = Some (0, s) \<and> show_all 0 [(90, 3, 30)] s = Some s' \<and> run_ops (lcd_ops s') (pins l) = Some w \<and>
     screen lcd (fold display_step (line_heard (line_of pinToGpioR2) lcd (\<lambda>_. False) (events w)) blank) =
       shown [(90, 3, 30)] (two_lines (bytes_of ''Speed : '') (bytes_of ''F:---- T:'') (screen demo_lcd blank))"
proof -
  obtain l where l: "wiringPiSetup (demo_env ''0010'') library_start = Some (Returned (0, l))"
    "wiringPiMode (pins l) = WPI_MODE_PINS" "boardRev (board l) = 2" using demo_setup [of "''0010''" 2] by auto
  from display_on_lines [OF l, of "\<lambda>_. False" "[(90, 3, 30)]" blank] show ?thesis using l(1) by blast
qed

text \<open>
  The wiring of the client needs a later board: on a revision 1 board its pins are not on the connector, their
  table entry is -1, and the first call of \<^verbatim>\<open>initLcd\<close> reads the register tables outside their bounds.
\<close>

theorem rev1_display_undefined:
  assumes "wiringPiSetup e library_start = Some (Returned (0, l))"
    and "wiringPiMode (pins l) = WPI_MODE_PINS" "boardRev (board l) = 1"
    and "lcdInit True 2 16 4 29 25 [24, 23, 22, 21, 0, 0, 0, 0] lcd_start = Some (fd, s)" "fd \<noteq> - 1"
  shows "run_ops (lcd_ops s) (pins l) = None"
proof -
  have st: "pins library_start = wiring_start" "boardRev (board library_start) = - 1" by (simp_all add: library_start_def)
  have "pinToGpio (pins l) = pinToGpioR1" using setup_ready(3) [OF assms(1) st] assms(2,3) by (simp add: pins_ready_def)
  then have n: "digitalWrite 29 0 (pins l) = None"
    using assms(2) by (simp add: digitalWrite_def gpio_of_def at_index_def pinToGpioR1_def)
  obtain ops where "lcd_ops s = DigitalWrite 29 0 # ops"
    using assms(4,5) 
    by (auto simp: lcdInit_def lcd_start_def Let_def lcd_put_def lcdDisplay_def lcdCursor_def lcdCursorBlink_def lcd_control_def
        lcdClear_def lcdSendCommand_def bind_eq_Some_conv split: if_splits)
  then show ?thesis using n by simp
qed

theorem rev1_display_undefined_witness:
  "\<exists>l s. wiringPiSetup (demo_env ''0002'') library_start = Some (Returned (0, l)) \<and>
     lcdInit True 2 16 4 29 25 [24, 23, 22, 21, 0, 0, 0, 0] lcd_start = Some (0, s) \<and> run_ops (lcd_ops s) (pins l) = None"
proof -
  obtain l where l: "wiringPiSetup (demo_env ''0002'') library_start = Some (Returned (0, l))"
    "wiringPiMode (pins l) = WPI_MODE_PINS" "boardRev (board l) = 1" using demo_setup [of "''0002''" 1] by auto
  obtain s where s: "lcdInit True 2 16 4 29 25 [24, 23, 22, 21, 0, 0, 0, 0] lcd_start = Some (0, s)"
    using lcdInit_car by (elim exE conjE) rule
  from rev1_display_undefined [OF l s] show ?thesis using l(1) s by auto
qed

end
