(* ===== verification/Wiring_Properties.thy ===== *)
theory Wiring_Properties
  imports Wiring_Setup
begin

text \<open>
  Properties of the pin library on its own: the function-select registers, the byte-wide access, the
  clock and pulse width registers, the table of device nodes and the identification of the board.
\<close>

section \<open>Function select\<close>

lemma reg_write_fields:
  "reg_write b n v w = Some w' \<Longrightarrow> regs w' = (regs w)(b := (regs w b)(n := v)) \<and> mapped w' = mapped w \<and> gpio_of w' = gpio_of w"
  by (auto simp: reg_write_def gpio_of_def fun_eq_iff split: if_splits)

lemma getAlt_mapped:
  assumes "gpio_of w (q AND 63) = Some (Some h)" and "0 \<le> h" "h < 60" and "mapped w Gpio"
  shows "getAlt q w = Some (drop_bit (3 * (nat h mod 10)) (regs w Gpio (nat h div 10)) AND 7)"
  using assms by (simp add: getAlt_def fsel_tables reg_read_mapped)

lemma fsel_update_other:
  assumes "f < 8" and "sh + 3 \<le> 32" and "sh' + 3 \<le> sh \<or> sh + 3 \<le> sh'"
  shows "drop_bit sh' (fsel_update r sh f) AND 7 = drop_bit sh' r AND 7"
proof -
  have 7: "(7 :: cint) = mask 3" by (simp add: mask_eq_exp_minus_1)
  show ?thesis unfolding 7 by (rule bit_word_eqI) (use assms in \<open>auto simp: bit_simps fsel_update_bit\<close>)
qed

lemma getAlt_after:
  assumes "0 \<le> g" "g < 60" and "mapped w Gpio" and "f < 8" and "set_function g f w = Some w'"
  shows "gpio_of w (q AND 63) = Some (Some g) \<Longrightarrow> getAlt q w' = Some f"
    and "gpio_of w (q AND 63) \<noteq> Some (Some g) \<Longrightarrow> getAlt q w' = getAlt q w"
proof -
  let ?n = "nat g div 10" and ?sh = "3 * (nat g mod 10)"
  have w': "regs w' = (regs w)(Gpio := (regs w Gpio)(?n := fsel_update (regs w Gpio ?n) ?sh f))" "mapped w' Gpio" "gpio_of w' = gpio_of w"
    using assms(3,5) reg_write_fields unfolding set_function_mapped [OF assms(1-3)] by fastforce+
  have sh: "?sh + 3 \<le> 32" by simp
  show "getAlt q w' = Some f" if "gpio_of w (q AND 63) = Some (Some g)"
    using getAlt_mapped [of w' q g] that w' assms(1,2) fsel_update_read [OF assms(4) sh] by simp
  show "getAlt q w' = getAlt q w" if ne: "gpio_of w (q AND 63) \<noteq> Some (Some g)"
  proof (cases "\<exists>h. gpio_of w (q AND 63) = Some (Some h) \<and> 0 \<le> h \<and> h < 60")
    case True
    then obtain h where h: "gpio_of w (q AND 63) = Some (Some h)" "0 \<le> h" "h < 60" by blast
    have "nat h \<noteq> nat g" using ne h assms(1) by auto
    then have "3 * (nat h mod 10) + 3 \<le> ?sh \<or> ?sh + 3 \<le> 3 * (nat h mod 10)" if "nat h div 10 = ?n"
      using that by (metis Suc_leI div_mult_mod_eq linorder_neqE_nat mult_Suc_right mult_le_mono2 add.commute)
    then show ?thesis
      using getAlt_mapped [of w' q h] getAlt_mapped [of w q h] h w' assms(3) fsel_update_other [OF assms(4) sh]
      by auto
  next
    case False
    then have "at_index gpioToGPFSEL h = None" if "gpio_of w (q AND 63) = Some (Some h)" for h
      using that by (auto simp: at_index_None)
    then show ?thesis using w'(3) by (cases "gpio_of w (q AND 63)") (auto simp: getAlt_def split: option.splits)
  qed
qed


text \<open>A library in wiringPi numbering on a later board, with all registers mapped and nothing running.\<close>

definition demo_wiring :: wiring where
  "demo_wiring = wiring_start\<lparr>wiringPiMode := WPI_MODE_PINS, pinToGpio := pinToGpioR2, physToGpio := physToGpioR2,
     RASPBERRY_PI_PERI_BASE := 0x20000000, mapped := (\<lambda>_. True), polls := [True, False]\<rparr>"

lemma demo_wiring_fields:
  "mapped demo_wiring b" "0 \<le> pin \<Longrightarrow> pin < 64 \<Longrightarrow> at_index (ranges demo_wiring) pin = Some 0"
  "0 \<le> pin \<Longrightarrow> pin < 64 \<Longrightarrow> at_index (toneThreads demo_wiring) pin = Some 0"
  "gpio_of demo_wiring 7 = Some (Some 4)" "gpio_of demo_wiring 0 = Some (Some 17)"
  by (simp_all add: demo_wiring_def wiring_start_def at_index_def gpio_of_def pinToGpioR2_def)


section \<open>Bytes on eight pins\<close>

lemma and_power_bit: "(value AND 2 ^ k = (0 :: int)) \<longleftrightarrow> \<not> bit value k"
proof
  assume a: "value AND 2 ^ k = 0"
  have "bit (value AND 2 ^ k) k = bit value k" by (simp add: bit_simps)
  with a show "\<not> bit value k" by simp
next
  assume a: "\<not> bit value k"
  show "value AND 2 ^ k = 0" by (rule bit_eqI) (use a in \<open>auto simp: bit_simps\<close>)
qed

lemma byte_masks_bits:
  "bit (fst (byte_masks gs value (2 ^ k) c s)) n \<longleftrightarrow> bit c n \<or> (n < 32 \<and> (\<exists>i < length gs. nat (gs ! i) = n \<and> \<not> bit value (k + i)))"
  "bit (snd (byte_masks gs value (2 ^ k) c s)) n \<longleftrightarrow> bit s n \<or> (n < 32 \<and> (\<exists>i < length gs. nat (gs ! i) = n \<and> bit value (k + i)))"
proof (induction gs arbitrary: k c s)
  case (Cons g gs)
  have step: "byte_masks (g # gs) value (2 ^ k) c s =
      (if bit value k then byte_masks gs value (2 ^ Suc k) c (s OR push_bit (nat g) 1)
       else byte_masks gs value (2 ^ Suc k) (c OR push_bit (nat g) 1) s)" for k c s
    by (simp add: and_power_bit push_bit_eq_mult mult.commute [of _ 2])
  {
    case 1
    show ?case unfolding step using Cons.IH(1) [of "Suc k"] by (auto simp: bit_simps Ex_less_Suc2 simp del: power_Suc)
  next
    case 2
    show ?case unfolding step using Cons.IH(2) [of "Suc k"] by (auto simp: bit_simps Ex_less_Suc2 simp del: power_Suc)
  }
qed simp_all

lemma gather_bits:
  "bit (gather xs raw d) n \<longleftrightarrow> n < 32 \<and>
    (if n < length xs then nat (xs ! (length xs - 1 - n)) < 32 \<and> bit raw (nat (xs ! (length xs - 1 - n))) else bit d (n - length xs))"
proof (induction xs arbitrary: d n)
  case (Nil d n)
  show ?case using bit_imp_le_length [of d n] by auto
next
  case (Cons x xs d n)
  have one: "raw AND 2 ^ nat x = 0 \<longleftrightarrow> \<not> (nat x < 32 \<and> bit raw (nat x))"
  proof
    assume a: "raw AND 2 ^ nat x = 0"
    have "bit (raw AND 2 ^ nat x) (nat x) = (nat x < 32 \<and> bit raw (nat x))" by (auto simp: bit_simps)
    with a show "\<not> (nat x < 32 \<and> bit raw (nat x))" by simp
  next
    assume a: "\<not> (nat x < 32 \<and> bit raw (nat x))"
    show "raw AND 2 ^ nat x = 0" by (rule bit_word_eqI) (use a in \<open>auto simp: bit_simps\<close>)
  qed
  consider "n < length xs" | "n = length xs" | "length xs < n" by linarith
  then show ?case
  proof cases
    case 1
    then have "(x # xs) ! (length (x # xs) - 1 - n) = xs ! (length xs - 1 - n)" by (simp add: nth_Cons' Suc_diff_Suc)
    with 1 show ?thesis by (auto simp: Cons.IH)
  next
    case 2
    then show ?thesis by (auto simp: Cons.IH one bit_simps bit_0 even_or_iff)
  next
    case 3
    then obtain m where m: "n = Suc (length xs + m)" using less_imp_Suc_add by blast
    have "bit (d * 2) (Suc m) \<longleftrightarrow> Suc m < 32 \<and> bit d m"
      using bit_double_iff [of d "Suc m"] by (simp add: mult.commute)
    then show ?thesis by (auto simp: m Cons.IH bit_simps one)
  qed
qed

text \<open>The level register that the lines of the first bank show.\<close>

definition level_word :: "(int \<Rightarrow> bool) \<Rightarrow> cint" where
  "level_word lv = horner_sum of_bool 2 (map (\<lambda>n. lv (int n)) [0..<32])"

lemma bit_level_word: "bit (level_word lv) n \<longleftrightarrow> n < 32 \<and> lv (int n)"
  by (auto simp: level_word_def bit_horner_sum_bit_word_iff)

definition reversed :: "int \<Rightarrow> cint" where
  "reversed value = horner_sum of_bool 2 (map (\<lambda>i. bit value (7 - i)) [0..<8])"

lemma bit_reversed: "bit (reversed value) n \<longleftrightarrow> n < 8 \<and> bit value (7 - n)"
  by (auto simp: reversed_def bit_horner_sum_bit_word_iff)

lemma first_eight_tables:
  assumes "table = pinToGpioR1 \<or> table = pinToGpioR2"
  shows "distinct (take 8 table)" "\<forall>g \<in> set (take 8 table). 0 \<le> g \<and> g < 32"
  using assms by (auto simp: pinToGpioR1_def pinToGpioR2_def)

lemma write_byte_levels:
  assumes "pinToGpio w = pinToGpioR1 \<or> pinToGpio w = pinToGpioR2" and "wiringPiMode w \<noteq> WPI_MODE_GPIO_SYS" and "mapped w Gpio"
  shows "\<exists>w' es. digitalWriteByte value w = Some w' \<and> events w' = events w @ es \<and> pinToGpio w' = pinToGpio w \<and>
    wiringPiMode w' = wiringPiMode w \<and> mapped w' = mapped w \<and>
    (\<forall>i < 8. fold bcm_level es lv (pinToGpio w ! i) = bit value i)"
proof -
  let ?gs = "take 8 (pinToGpio w)"
  note t = first_eight_tables [OF assms(1)]
  have l: "length (pinToGpio w) = 64" using assms(1) by auto
  obtain clr st where m: "byte_masks ?gs value 1 0 0 = (clr, st)" by (cases "byte_masks ?gs value 1 0 0")
  let ?p = "\<lambda>i. pinToGpio w ! i"
  have b: "bit clr n \<longleftrightarrow> n < 32 \<and> (\<exists>i < 8. nat (?p i) = n \<and> \<not> bit value i)"
    "bit st n \<longleftrightarrow> n < 32 \<and> (\<exists>i < 8. nat (?p i) = n \<and> bit value i)" for n
    using byte_masks_bits(1) [of ?gs "value" 0 0 0 n] byte_masks_bits(2) [of ?gs "value" 0 0 0 n] l m by auto
  let ?es = "[RegWrite Gpio 10 clr, RegWrite Gpio 7 st]"
  have g: "0 \<le> ?p i \<and> ?p i < 32" if "i < 8" for i using t(2) nth_mem [of i ?gs] that l by auto
  have "fold bcm_level ?es lv (?p i) = bit value i" if i: "i < 8" for i
  proof -
    have "j = i" if "j < 8" "nat (?p j) = nat (?p i)" for j
      using t(1) that i l g [of i] g [of j] nth_eq_iff_index_eq [of ?gs j i] eq_nat_nat_iff [of "?p j" "?p i"] by simp
    then have "bit clr (nat (?p i)) = (\<not> bit value i)" "bit st (nat (?p i)) = bit value i" using b i g [of i] by auto
    then show ?thesis using g [OF i] by (simp add: bcm_level_def)
  qed
  moreover have "gpioToGPCLR ! 0 = 10" "gpioToGPSET ! 0 = 7" by (simp_all add: gpioToGPCLR_def gpioToGPSET_def nth_append)
  then have "\<exists>w'. digitalWriteByte value w = Some w' \<and> events w' = events w @ ?es \<and> pinToGpio w' = pinToGpio w \<and>
    wiringPiMode w' = wiringPiMode w \<and> mapped w' = mapped w"
    using assms l m by (simp add: digitalWriteByte_def first_eight_def reg_write_mapped)
  ultimately show ?thesis by blast
qed

text \<open>
  \<^verbatim>\<open>digitalWriteByte\<close> puts bit \<open>i\<close> of the byte on wiringPi pin \<open>i\<close>, but \<^verbatim>\<open>digitalReadByte\<close> collects the same pins in
  the opposite order: reading back the levels just written gives the byte with its bits reversed.
\<close>

theorem read_byte_reversed:
  assumes "pinToGpio w = pinToGpioR1 \<or> pinToGpio w = pinToGpioR2" and "wiringPiMode w \<noteq> WPI_MODE_GPIO_SYS" and "mapped w Gpio"
  shows "\<exists>w' es. digitalWriteByte value w = Some w' \<and> events w' = events w @ es \<and>
    (let w2 = w'\<lparr>regs := (regs w')(Gpio := (regs w' Gpio)(13 := level_word (fold bcm_level es lv)))\<rparr>
     in digitalReadByte w2 = Some (reversed value, w2))"
proof -
  let ?gs = "take 8 (pinToGpio w)"
  obtain w' es where w': "digitalWriteByte value w = Some w'" "events w' = events w @ es" "pinToGpio w' = pinToGpio w"
    "wiringPiMode w' = wiringPiMode w" "mapped w' = mapped w" "\<forall>i < 8. fold bcm_level es lv (pinToGpio w ! i) = bit value i"
    using write_byte_levels [OF assms] by blast
  let ?lv = "fold bcm_level es lv"
  have l: "length (pinToGpio w) = 64" using assms(1) by auto
  have g: "0 \<le> ?gs ! i \<and> ?gs ! i < 32" if "i < 8" for i using first_eight_tables(2) [OF assms(1), rule_format, of "?gs ! i"] nth_mem [of i ?gs] that l by simp
  have "gather ?gs (level_word ?lv) 0 = reversed value"
  proof (rule bit_word_eqI)
    fix n assume "n < LENGTH(32)"
    show "bit (gather ?gs (level_word ?lv) 0) n = bit (reversed value) n"
      using g [of "7 - n"] w'(6) l by (auto simp: nat_less_iff gather_bits bit_level_word bit_reversed)
  qed
  moreover have "gpioToGPLEV ! 0 = 13" by (simp add: gpioToGPLEV_def nth_append)
  ultimately show ?thesis using w' assms l
    by (intro exI [of _ w'] exI [of _ es]) (simp add: digitalReadByte_def first_eight_def reg_read_mapped)
qed

theorem read_byte_reversed_witness:
  "\<exists>w' es. digitalWriteByte 0x13 demo_wiring = Some w' \<and> events w' = es \<and>
    (let w2 = w'\<lparr>regs := (regs w')(Gpio := (regs w' Gpio)(13 := level_word (fold bcm_level es (\<lambda>_. False))))\<rparr>
     in digitalReadByte w2 = Some (0xC8, w2))"
proof -
  have r: "reversed 0x13 = 0xC8" by code_simp
  have d: "pinToGpio demo_wiring = pinToGpioR2" "wiringPiMode demo_wiring = 0" "mapped demo_wiring Gpio" "events demo_wiring = []"
    by (simp_all add: demo_wiring_def wiring_start_def)
  from read_byte_reversed [of demo_wiring "0x13" "\<lambda>_. False"] show ?thesis
    unfolding d r by (simp add: d)
qed

section \<open>Clock and pulse width registers\<close>

lemma wait_busy_ends: "\<exists>w'. wait_busy delaying (replicate n True @ False # ps) w = Some (w'\<lparr>polls := ps\<rparr>) \<and>
    regs w' = regs w \<and> mapped w' = mapped w"
proof (induction n arbitrary: w)
  case (Suc n)
  show ?case
    using Suc.IH [of "if delaying then delayMicroseconds 1 w else w"] by (auto simp: delayMicroseconds_def)
qed auto

text \<open>
  \<^verbatim>\<open>pinMode (7, GPIO_CLOCK)\<close>, the documented use of the general purpose clock, starts no clock: \<^verbatim>\<open>pinMode\<close> hands the
  line number 4 to \<^verbatim>\<open>gpioClockSet\<close>, which translates it once more as if it were pin 4. The clock's own control
  and divisor registers 28 and 29 stay untouched and the values go to word 255 of the clock registers.
\<close>

theorem gpio_clock_misdirected:
  assumes "wiringPiMode w = WPI_MODE_PINS" and "pinToGpio w = pinToGpioR1 \<or> pinToGpio w = pinToGpioR2"
    and "RASPBERRY_PI_PERI_BASE w \<noteq> 0" and "mapped w Gpio" "mapped w Clk" and "polls w = replicate n True @ False # ps"
    and "at_index (ranges w) 7 = Some 0" "at_index (toneThreads w) 7 = Some 0"
  shows "\<exists>w'. pinMode 7 GPIO_CLOCK w = Some w' \<and> regs w' Clk 28 = regs w Clk 28 \<and> regs w' Clk 29 = regs w Clk 29 \<and>
    regs w' Clk 255 = BCM_PASSWORD OR 0x11"
proof -
  have g: "gpio_of w 7 = Some (Some 4)" "gpio_of w 4 = Some (Some 23)"
    using assms(1,2) by (auto simp: gpio_of_def at_index_def pinToGpioR1_def pinToGpioR2_def)
  have t: "at_index gpioToGpClkALT0 4 = Some 4" "at_index gpioToClkCon 23 = Some (- 1)" "at_index gpioToClkDiv 23 = Some (- 1)"
    by (simp_all add: at_index_def gpioToGpClkALT0_def gpioToClkCon_def gpioToClkDiv_def)
  have d: "clock_divisors 100000 = Some (192, 0)" by (simp add: clock_divisors_def)
  obtain w1 where w1: "set_function 4 4 w = Some w1" "regs w1 Clk = regs w Clk" "gpio_of w1 = gpio_of w" "mapped w1 = mapped w"
    "RASPBERRY_PI_PERI_BASE w1 = RASPBERRY_PI_PERI_BASE w" "polls w1 = polls w"
    using assms(4) by (simp add: set_function_mapped reg_write_mapped gpio_of_def fun_eq_iff)
  let ?w2 = "delayMicroseconds 110 w1"
  have w2: "regs ?w2 = regs w1" "gpio_of ?w2 = gpio_of w1" "mapped ?w2 = mapped w1"
    "RASPBERRY_PI_PERI_BASE ?w2 = RASPBERRY_PI_PERI_BASE w1" "polls ?w2 = polls w1"
    by (simp_all add: delayMicroseconds_def gpio_of_def fun_eq_iff)
  have u: "unat (- 1 :: byte) = 255" by code_simp
  obtain w3 where w3: "reg_write Clk 255 (BCM_PASSWORD OR GPIO_CLOCK_SOURCE) ?w2 = Some w3" "mapped w3 = mapped w"
    "polls w3 = replicate n True @ False # ps" "\<forall>k. k \<noteq> 255 \<longrightarrow> regs w3 Clk k = regs w Clk k"
    using assms(5,6) w1 w2 by (simp add: reg_write_mapped)
  obtain w4 where w4: "wait_busy False (polls w3) w3 = Some w4" "regs w4 = regs w3" "mapped w4 = mapped w3"
    using wait_busy_ends [of False n ps w3] w3(3) by auto
  have "\<exists>w'. gpioClockSet 4 100000 ?w2 = Some w' \<and> regs w' Clk 28 = regs w Clk 28 \<and> regs w' Clk 29 = regs w Clk 29 \<and>
      regs w' Clk 255 = BCM_PASSWORD OR 0x11"
    using w1 w2 w3 w4 assms(3,5,6) by (simp add: gpioClockSet_def g t d u reg_write_mapped)
  then show ?thesis
    using assms(3) w1 by (subst pinMode.simps) (simp add: g t soft_idle assms(7,8) fsel_tables)
qed

theorem gpio_clock_misdirected_witness:
  "\<exists>w'. pinMode 7 GPIO_CLOCK demo_wiring = Some w' \<and> regs w' Clk 28 = 0 \<and> regs w' Clk 255 = 0x5A000011"
proof -
  have "\<exists>w'. pinMode 7 GPIO_CLOCK demo_wiring = Some w' \<and> regs w' Clk 28 = regs demo_wiring Clk 28 \<and>
      regs w' Clk 29 = regs demo_wiring Clk 29 \<and> regs w' Clk 255 = BCM_PASSWORD OR 0x11"
    by (rule gpio_clock_misdirected [where n = 1 and ps = "[]"]) (simp_all add: demo_wiring_fields, simp_all add: demo_wiring_def)
  moreover have "regs demo_wiring Clk 28 = 0" by (simp add: demo_wiring_def wiring_start_def)
  ultimately show ?thesis by auto
qed

text \<open>
  \<^verbatim>\<open>pwmWrite\<close> on a line without pulse width hardware is not ignored: its port number is 0, so the value goes to the
  control register and reconfigures, or with 0 stops, both pulse width channels.
\<close>

theorem pwm_write_control:
  assumes "on_board pin" and "gpio_of w pin = Some (Some g)" and "0 \<le> g" "g < 64" "g \<notin> {12, 13, 18, 19, 40, 41, 45}"
    and "RASPBERRY_PI_PERI_BASE w \<noteq> 0" and "mapped w Pwm"
  shows "\<exists>w'. pwmWrite pin v w = Some w' \<and> regs w' Pwm PWM_CONTROL = word_of_int v"
proof -
  have "\<forall>n < 64. n \<notin> {12, 13, 18, 19, 40, 41, 45} \<longrightarrow> gpioToPwmPort ! n = 0"
    unfolding all_below by code_simp
  moreover have "nat g < 64" "nat g \<notin> {12, 13, 18, 19, 40, 41, 45}" using assms(3-5) by auto
  ultimately have "gpioToPwmPort ! nat g = 0" by blast
  then have "at_index gpioToPwmPort g = Some 0" using assms(3,4) by (simp add: at_index_def gpioToPwmPort_def)
  then show ?thesis using assms by (simp add: pwmWrite_def reg_write_mapped)
qed

theorem pwm_write_control_witness:
  "\<exists>w'. pwmWrite 0 0 demo_wiring = Some w' \<and> regs w' Pwm PWM_CONTROL = 0"
proof -
  have "RASPBERRY_PI_PERI_BASE demo_wiring \<noteq> 0" by (simp add: demo_wiring_def)
  then show ?thesis using pwm_write_control [of 0 demo_wiring 17 0] by (simp add: demo_wiring_fields)
qed

section \<open>Device nodes\<close>

text \<open>The states that registrations of device nodes lead to.\<close>

inductive nodes_reached :: "wiring \<Rightarrow> bool" where
  nodes_start: "wiringPiNodes w = [] \<Longrightarrow> nodes_reached w"
| nodes_new: "nodes_reached w \<Longrightarrow> wiringPiNewNode al base n w = Some (Returned (nd, w')) \<Longrightarrow> nodes_reached w'"

definition covers :: "wiringPiNodeStruct \<Rightarrow> int set" where
  "covers nd = {pinBase nd..pinMax nd}"

fun nodes_ok :: "wiringPiNodeStruct list \<Rightarrow> bool" where
  "nodes_ok [] = True"
| "nodes_ok (n # ns) = (64 \<le> pinBase n \<and> (\<forall>m \<in> set ns. covers n \<inter> covers m = {}) \<and> nodes_ok ns)"

lemma find_node_None: "find_node pin ns = None \<longleftrightarrow> (\<forall>n \<in> set ns. pin \<notin> covers n)"
  by (induction ns) (auto simp: covers_def)

lemma find_node_owner: "nodes_ok ns \<Longrightarrow> n \<in> set ns \<Longrightarrow> pin \<in> covers n \<Longrightarrow> find_node pin ns = Some n"
  by (induction ns) (auto simp: covers_def)

lemma overlap_from_iff: "overlap_from pin k w \<longleftrightarrow> (\<exists>i. pin \<le> i \<and> i < pin + int k \<and> wiringPiFindNode i w \<noteq> None)"
proof (induction k arbitrary: pin)
  case (Suc k)
  show ?case
  proof
    assume "overlap_from pin (Suc k) w"
    then consider "wiringPiFindNode pin w \<noteq> None" | i where "pin + 1 \<le> i" "i < pin + 1 + int k" "wiringPiFindNode i w \<noteq> None"
      using Suc.IH [of "pin + 1"] by auto
    then show "\<exists>i. pin \<le> i \<and> i < pin + int (Suc k) \<and> wiringPiFindNode i w \<noteq> None"
    proof cases
      case 1
      then show ?thesis by (intro exI [of _ pin]) simp
    next
      case (2 i)
      then show ?thesis by (intro exI [of _ i]) simp
    qed
  next
    assume "\<exists>i. pin \<le> i \<and> i < pin + int (Suc k) \<and> wiringPiFindNode i w \<noteq> None"
    then obtain i where i: "pin \<le> i" "i < pin + int (Suc k)" "wiringPiFindNode i w \<noteq> None" by blast
    then show "overlap_from pin (Suc k) w"
      using Suc.IH [of "pin + 1"] by (cases "i = pin") auto
  qed
qed simp

lemma new_node_outcome:
  assumes "wiringPiNewNode al base n w = Some (Returned (nd, w'))"
  shows "wiringPiNodes w' = nd # wiringPiNodes w" and "64 \<le> pinBase nd" and "covers nd = {base..<base + n}"
    and "\<forall>m \<in> set (wiringPiNodes w). covers nd \<inter> covers m = {}"
proof -
  have a: "wiringPiNodes w' = nd # wiringPiNodes w \<and> 64 \<le> pinBase nd \<and> pinBase nd = base \<and> pinMax nd = base + n - 1 \<and> \<not> overlap_from base (nat n) w"
    using assms by (auto simp: wiringPiNewNode_def Let_def split: if_splits)
  then show "wiringPiNodes w' = nd # wiringPiNodes w" "64 \<le> pinBase nd" "covers nd = {base..<base + n}"
    by (auto simp: covers_def)
  have "find_node i (wiringPiNodes w) = None" if "i \<in> covers nd" for i
    using a that unfolding overlap_from_iff wiringPiFindNode_def by (auto simp: covers_def)
  then show "\<forall>m \<in> set (wiringPiNodes w). covers nd \<inter> covers m = {}" unfolding find_node_None by blast
qed

lemma reached_nodes_ok: "nodes_reached w \<Longrightarrow> nodes_ok (wiringPiNodes w)"
proof (induction rule: nodes_reached.induct)
  case (nodes_new w al base n nd w')
  then show ?case using new_node_outcome [OF nodes_new.hyps(2)] by simp
qed simp

text \<open>
  C39. Device nodes never share a pin: after any series of registrations every node starts at pin 64 or above, a pin in
  the range of a node is found at that node and no other, and a further registration succeeds only when
  its whole range is free; then it owns exactly its range and every other pin keeps its owner.
\<close>

theorem node_owner:
  assumes "nodes_reached w"
  shows "(\<forall>nd \<in> set (wiringPiNodes w). 64 \<le> pinBase nd \<and> (\<forall>pin \<in> covers nd. wiringPiFindNode pin w = Some nd)) \<and>
    (\<forall>al base n nd w'. wiringPiNewNode al base n w = Some (Returned (nd, w')) \<longrightarrow>
       (\<forall>pin. wiringPiFindNode pin w' = (if base \<le> pin \<and> pin < base + n then Some nd else wiringPiFindNode pin w)))"
proof -
  have ok: "nodes_ok (wiringPiNodes w)" by (rule reached_nodes_ok [OF assms])
  have b: "nodes_ok ns \<Longrightarrow> nd \<in> set ns \<Longrightarrow> 64 \<le> pinBase nd" for ns nd by (induction ns) auto
  have f: "wiringPiFindNode pin w' = (if base \<le> pin \<and> pin < base + n then Some nd else wiringPiFindNode pin w)"
    if "wiringPiNewNode al base n w = Some (Returned (nd, w'))" for al base n nd w' pin
    using new_node_outcome(1,3) [OF that] by (auto simp: wiringPiFindNode_def covers_def)
  show ?thesis using ok b find_node_owner f by (simp add: wiringPiFindNode_def)
qed

theorem node_owner_witness:
  "\<exists>nd w'. wiringPiNewNode True 64 8 demo_wiring = Some (Returned (nd, w')) \<and> wiringPiFindNode 70 w' = Some nd"
proof -
  have r: "nodes_reached demo_wiring" by (rule nodes_start) (simp add: demo_wiring_def wiring_start_def)
  obtain nd w' where n: "wiringPiNewNode True 64 8 demo_wiring = Some (Returned (nd, w'))"
    by (simp add: wiringPiNewNode_def overlap_from_iff wiringPiFindNode_def demo_wiring_def wiring_start_def Let_def)
  then have "wiringPiFindNode 70 w' = Some nd" using node_owner [OF r] by simp
  with n show ?thesis by blast
qed

section \<open>Identification of the board\<close>

text \<open>The number of the new scheme with given fields, and its text in \<^verbatim>\<open>/proc/cpuinfo\<close> (lower case, no leading zeros).\<close>

definition revision_code :: "nat \<Rightarrow> nat \<Rightarrow> nat \<Rightarrow> nat \<Rightarrow> nat \<Rightarrow> nat" where
  "revision_code typ rv mem mfg proc = rv + 16 * (typ + 256 * (proc + 16 * (mfg + 16 * (mem + 8))))"

definition hex_char :: "nat \<Rightarrow> char" where
  "hex_char d = char_of (if d < 10 then 48 + d else 87 + d)"

fun hex_text :: "nat \<Rightarrow> string" where
  "hex_text n = (if n < 16 then [hex_char n] else hex_text (n div 16) @ [hex_char (n mod 16)])"

declare hex_text.simps [simp del]

lemma xdigit_hex_char: "d < 16 \<Longrightarrow> xdigit_value (hex_char d) = Some d"
  by (auto simp: xdigit_value_def hex_char_def Let_def)

lemma isxdigit_hex_char: "d < 16 \<Longrightarrow> isxdigit (hex_char d)"
  by (simp add: isxdigit_def xdigit_hex_char)

lemma hex_value_append: "list_all isxdigit xs \<Longrightarrow> hex_value a (xs @ ys) = hex_value (hex_value a xs) ys"
  by (induction xs arbitrary: a) (auto simp: isxdigit_def)

lemma hex_text_digits: "list_all isxdigit (hex_text n)"
proof (induction n rule: hex_text.induct)
  case (1 n)
  then show ?case by (subst hex_text.simps) (auto simp: isxdigit_hex_char)
qed

lemma hex_value_text: "hex_value 0 (hex_text n) = n"
proof (induction n rule: hex_text.induct)
  case (1 n)
  show ?case
  proof (cases "n < 16")
    case True
    then show ?thesis by (subst hex_text.simps) (simp add: xdigit_hex_char)
  next
    case False
    then show ?thesis using 1 by (subst hex_text.simps) (simp add: hex_value_append hex_text_digits xdigit_hex_char)
  qed
qed

lemma hex_text_nonempty: "hex_text n \<noteq> []"
  by (subst hex_text.simps) simp

lemma isxdigit_not_special: "isxdigit c \<Longrightarrow> c \<noteq> CHR ''x'' \<and> c \<noteq> CHR ''X'' \<and> \<not> isspace c \<and> c \<noteq> CHR 0x0A \<and> c \<noteq> CHR 0x0D"
  by (auto simp: isxdigit_def xdigit_value_def isspace_def)

lemma strtol_hex_text: "n < 2 ^ 32 \<Longrightarrow> strtol16 (hex_text n) = of_nat n"
proof -
  assume n: "n < 2 ^ 32"
  have "hex_prefix (hex_text n) = hex_text n"
    using hex_text_digits [of n] isxdigit_not_special [of "CHR ''x''"] isxdigit_not_special [of "CHR ''X''"]
    by (auto simp: hex_prefix_def split: list.splits)
  then show ?thesis using n by (simp add: strtol16_def hex_value_text min_def)
qed

lemma line_code:
  assumes "list_all isxdigit c" and "c \<noteq> []"
  shows "after_colon (chomp (''Revision'' @ [CHR 0x09] @ '': '' @ c @ [CHR 0x0A])) = Some c"
proof -
  obtain d ds where r: "rev c = d # ds" using assms(2) by (cases "rev c") auto
  then have "isxdigit d" using assms(1) by (metis list_all_iff list.set_intros(1) set_rev)
  then have "chomp (''Revision'' @ [CHR 0x09] @ '': '' @ c @ [CHR 0x0A]) = ''Revision'' @ [CHR 0x09] @ '': '' @ c"
    using r isxdigit_not_special [of d] by (simp add: chomp_def)
  moreover obtain e es where "c = e # es" using assms(2) by (cases c) auto
  moreover from this have "\<not> isspace e" using assms(1) isxdigit_not_special [of e] by auto
  ultimately show ?thesis by (simp add: after_colon_def isspace_def)
qed

lemma field_of_nat:
  fixes n :: nat
  assumes "n < 2 ^ 32"
  shows "drop_bit k (of_nat n AND push_bit k (mask m) :: cint) = of_nat (n div 2 ^ k mod 2 ^ m)"
proof -
  have "drop_bit k (of_nat n AND push_bit k (mask m) :: cint) = take_bit m (drop_bit k (of_nat n))"
    by (rule bit_word_eqI) (auto simp: bit_simps)
  also have "\<dots> = of_nat (n div 2 ^ k mod 2 ^ m)"
  proof (rule word_unat_eq_iff [THEN iffD2])
    have "take_bit LENGTH(32) (unat x) = unat x" for x :: cint by (metis unsigned_take_bit_eq take_bit_length_eq)
    then have "unat (take_bit m (drop_bit k (of_nat n)) :: cint) = take_bit m (drop_bit k (unat (of_nat n :: cint)))"
      by (simp only: unsigned_take_bit_eq unsigned_drop_bit_eq)
    also have "unat (of_nat n :: cint) = n" using assms by (simp add: unat_of_nat)
    finally have e: "unat (take_bit m (drop_bit k (of_nat n)) :: cint) = n div 2 ^ k mod 2 ^ m"
      by (simp only: drop_bit_eq_div take_bit_eq_mod)
    have "n div 2 ^ k mod 2 ^ m \<le> n" by (meson div_le_dividend le_trans mod_less_eq_dividend)
    then show "unat (take_bit m (drop_bit k (of_nat n)) :: cint) = unat (of_nat (n div 2 ^ k mod 2 ^ m) :: cint)"
      using e assms by (simp only: unat_of_nat) simp
  qed
  finally show ?thesis .
qed



end
