(* ===== verification/Spec2Isabelle.thy ===== *)
theory Spec2Isabelle
  imports Telnet_Properties Telnet_Proxy Telnet_Chat_Service Serval_Mesh Serval_Base64 Serval_Correction Serval_Blocks Wiring_Lcd Wiring_Properties
begin

text \<open>
  A verification library for AutoMag, a telnet client on a Raspberry Pi that reads the status messages
  of a car (CAN frames in text form), shows speed, fuel and temperature on a character display and
  switches two lamps.

  \<^bold>\<open>The program.\<close> Four parts interact. \<^verbatim>\<open>src/libtelnet/util/telnet-projekat1.c\<close> is the client: a poll loop over
  the terminal and the socket, a menu, the decoding of messages, the display and the lamps. It speaks
  telnet through \<^verbatim>\<open>src/libtelnet/libtelnet.c\<close>: received bytes go through \<^verbatim>\<open>telnet_recv\<close>, which calls the client's
  event handler; typed bytes go through \<^verbatim>\<open>telnet_send\<close>, whose output comes back as a SEND event and is
  written to the socket. It draws on the display through \<^verbatim>\<open>src/wiringPi/devLib/lcd.c\<close>, and that driver moves the
  pins through \<^verbatim>\<open>src/wiringPi/wiringPi/wiringPi.c\<close>, which writes the registers of the chip.

  \<^bold>\<open>The theories.\<close>
  \<^item> \<open>Prelude\<close>: machine types (\<^verbatim>\<open>unsigned char\<close> is \<open>8 word\<close>, \<^verbatim>\<open>int\<close> bit patterns \<open>32 word\<close>, \<^verbatim>\<open>size_t\<close> \<open>64 word\<close>), C strings,
    decimal text, nibbles, list facts; the collections \<open>frame_simps\<close> and \<open>inv_intros\<close>.
  \<^item> \<open>Telnet_Types\<close>: the tracker \<^verbatim>\<open>telnet_t\<close> as the record \<open>telnet\<close>, events, \<^verbatim>\<open>telnet_init\<close>, \<^verbatim>\<open>_error\<close>, \<^verbatim>\<open>_send\<close>.
  \<^item> \<open>Telnet_Options\<close>: the table of option states (\<^verbatim>\<open>_check_telopt\<close>, \<^verbatim>\<open>_get_rfc1143\<close>, \<^verbatim>\<open>_set_rfc1143\<close>, \<^verbatim>\<open>_send_negotiate\<close>)
    with the facts that it is a finite map.
  \<^item> \<open>Telnet_Negotiation\<close>: \<^verbatim>\<open>_negotiate\<close> and \<^verbatim>\<open>telnet_negotiate\<close>, and the Q method of RFC 1143 they are compared with.
  \<^item> \<open>Telnet_Subneg\<close>: the in-place parsers for NEW-ENVIRON, MSSP, ZMP and TERMINAL-TYPE, and direct decodings.
  \<^item> \<open>Telnet_Process\<close>: the subnegotiation buffer, the state machine \<^verbatim>\<open>_process\<close> and \<^verbatim>\<open>telnet_recv\<close>.
  \<^item> \<open>Telnet_Send\<close>: every sending function, and the round trips through a receiving tracker.
  \<^item> \<open>Telnet_Properties\<close>: the states reachable by library calls (a step relation), the invariant, negotiation, stream
    and parser properties.
  \<^item> \<open>Telnet_Socket\<close>: stream sockets and the send loop of the telnet tools.
  \<^item> \<open>Telnet_Cut\<close>: a received buffer in the pieces between which the handler runs, for handlers that call back.
  \<^item> \<open>Telnet_Proxy\<close>: \<^verbatim>\<open>src/libtelnet/util/telnet-proxy.c\<close>, two connections whose events become calls on each other.
  \<^item> \<open>Telnet_Chat\<close>: \<^verbatim>\<open>src/libtelnet/util/telnet-chatd.c\<close>, 64 slots over a map of open descriptors; the rounds of its loop
    as a step relation and the invariant of the states it reaches.
  \<^item> \<open>Telnet_Chat_Service\<close>: what the chat server does for its users.
  \<^item> \<open>Lcd\<close>: all of \<^verbatim>\<open>lcd.c\<close>. What an operation does is the list of pin calls it makes; an observer of the pins reads
    them back as the bytes the display latches, and these as the text in its memory. The locale
    \<open>text_display\<close> is what a client relies on; it is interpreted on the driver.
  \<^item> \<open>AutoMag\<close>: the client, from \<^verbatim>\<open>_send\<close> and the event handler to the poll loop.
  \<^item> \<open>Wiring_Board\<close>: pin and register tables, \<^verbatim>\<open>piBoardRev\<close> and \<^verbatim>\<open>piBoardId\<close> on the text of \<^verbatim>\<open>/proc/cpuinfo\<close>.
  \<^item> \<open>Wiring_Pi\<close>: the pin functions in all modes over four banks of registers and a trace of accesses, device
    nodes, \<^verbatim>\<open>softPwm.c\<close> and \<^verbatim>\<open>softTone.c\<close>.
  \<^item> \<open>Wiring_Setup\<close>: the four set-up functions, time, delays and interrupts.
  \<^item> \<open>Wiring_Properties\<close>: properties of the pin library alone.
  \<^item> \<open>Wiring_Lcd\<close>: the display driver on the pin library. The locale \<open>pin_driver\<close> states what \<^verbatim>\<open>lcd.c\<close> relies on; it is
    interpreted on the register model for both board revisions, and the end-to-end property of the
    display rests on it.
  \<^item> \<open>Serval_Buffer\<close>: the packet buffer of the mesh daemon that the repository carries along,
    \<^verbatim>\<open>src/servald/serval-dna-development/overlay_buffer.c\<close>, with sizes that wrap and a block that grows.
  \<^item> \<open>Serval_Number\<close>: numbers as bytes in both orders and packed, and exactly which of them are read back.
  \<^item> \<open>Serval_Packet\<close>: writing and reading through the buffer. The locale \<open>field_codec\<close> is the contract of an append and a get
    function; it is interpreted on every pair of them, and its theorem on whole packets is proved once.
  \<^item> \<open>Serval_Fields\<close>: packets of mixed fields, buffers that cannot grow, checkpoints, and where reading goes wrong.
  \<^item> \<open>Serval_Tree\<close>: the daemon's index of subscribers, \<^verbatim>\<open>src/servald/serval-dna-development/nibble_tree.c\<close>: a tree on the four-bit
    digits of the keys, with searching, inserting and walking.
  \<^item> \<open>Serval_Index\<close>: its invariant (an inductive predicate), the map it stands for, and the effect of \<^verbatim>\<open>tree_find\<close> on them.
  \<^item> \<open>Serval_Lookup\<close>: \<^verbatim>\<open>tree_find\<close> as update and lookup of the map, abbreviated keys, the depth kept in a record.
  \<^item> \<open>Serval_Walk\<close>: what walks see, and what they break.
  \<^item> \<open>Serval_Address\<close>: \<^verbatim>\<open>src/servald/serval-dna-development/overlay_address.c\<close> on the packet buffer and the index: subscribers, broadcasts,
    addresses appended and parsed, explanations of abbreviations. The environment is the rest of the daemon.
  \<^item> \<open>Serval_Naming\<close>: the locale \<open>sid_index\<close> is what the address code relies on, interpreted on the index; a written address is
    read as the same subscriber.
  \<^item> \<open>Serval_Mesh\<close>: properties between two nodes.
  \<^item> \<open>Serval_Text\<close>: binary data as text, \<^verbatim>\<open>src/servald/serval-dna-development/base64.c\<close> and the hexadecimal functions of \<^verbatim>\<open>str.c\<close>.
  \<^item> \<open>Serval_Base64\<close>: the encoding is that of RFC 4648, and both encodings are read back.
  \<^item> \<open>Serval_Golay\<close>: the error correcting code of the radio link, \<^verbatim>\<open>src/servald/serval-dna-development/golay.c\<close>.
  \<^item> \<open>Serval_Code\<close>: the code is linear and cyclic, and its words differ in seven bits at least.
  \<^item> \<open>Serval_Correction\<close>: three wrong bits are corrected, and how many errors are reported.
  \<^item> \<open>Serval_Reed_Solomon\<close>: the block code of the radio link, \<^verbatim>\<open>src/servald/serval-dna-development/fec-3.0.1\<close>: encoder and decoder with
    their tables (the decoder without erasures, as the link calls it).
  \<^item> \<open>Serval_Blocks\<close>: the arithmetic of the tables, the generator polynomial, and that encoded blocks are accepted unchanged.

  \<^bold>\<open>Correspondence.\<close> A struct is a record with the same members, a function a definition with the same name; a leading
  underscore becomes \<open>t_\<close>, and a name that HOL already uses gets a suffix. Static variables are fields of the
  component's state. A result \<open>None\<close> stands for undefined behaviour (a null or out-of-range access, a use
  of memory that was never written) or a loop that never ends; process exits are values (\<open>Exit\<close> of the type
  \<open>outcome\<close> in \<open>Prelude\<close>, where \<open>Undefined\<close> is undefined behaviour, and \<open>Exited\<close> in \<open>Wiring_Board\<close>). What comes from outside is an argument or an input field: allocation outcomes,
  results of \<^verbatim>\<open>send\<close>, \<^verbatim>\<open>read\<close> and \<^verbatim>\<open>recv\<close>, the text \<^verbatim>\<open>vsnprintf\<close> produces, the board file, level registers, busy polls,
  thread ids, answers of device nodes, the time of day. What goes outside is a trace: events of the
  tracker, bytes on the socket, pin calls, register writes.

  \<^bold>\<open>Choices.\<close> libtelnet is the build without \<^verbatim>\<open>HAVE_ZLIB\<close>. An event handler is the recorded trace of events; a handler
  that calls back into the library does so through the sending functions, or (in the chat server, which
  negotiates inside the handler) between the pieces of \<open>Telnet_Cut\<close>. Fresh buffers hold zeros. The
  integer width is that of a 64-bit system. The display controller (HD44780) and the chip (BCM2835) appear
  only as specifications of what the bytes and register writes mean. The only recursion that is not
  structural is over a shrinking input or a rank of the mode and is proved to terminate; no fuel is used. The loop
  over requests in \<open>Serval_Address\<close> is a partial function, and its end a theorem.
  A busy wait ends when the list of polls holds a free answer.

  \<^bold>\<open>What is shown.\<close> For the protocol: negotiation refines RFC 1143 (but for one place, shown to be stuck), the tracker
  invariant holds in every reachable state, the receiver does not depend on how the stream is cut, the
  in-place parsers agree with direct decodings, and data, subnegotiations, ZMP, NEW-ENVIRON and terminal
  types survive the round trip. For the display: bytes survive the four or eight pins, text goes where an
  abstract terminal puts it, initialisation is ready or refuses. For the client: a message sets the
  speed, the screen and the lamps, typed text reaches the peer, sending ends with everything sent or an
  exit. For the telnet tools: the proxy relays streams byte for byte in both directions, the chat server
  keeps names and descriptors unique and sends every line to everybody. For the packet buffer: fields are read
  back as they were written, an overrun is always noticed, a rewind restores the checkpoint. For the subscriber index:
  it is a map, an abbreviation is resolved exactly when it is unique, a walk sees every record in order. For addresses: a list of
  subscribers that one node writes is read by another as the same list, requests are processed in finite time. For the encodings: base64 is
  that of RFC 4648 and is read back, up to three wrong bits of a code word are corrected, a Reed-Solomon block is accepted as it was encoded. For the pin library: \<^verbatim>\<open>pinMode\<close> changes one line, device nodes never overlap, new revision codes
  decode, and from \<^verbatim>\<open>wiringPiSetup\<close> to the glass the display shows what the messages say. Several properties pin
  down defects of the code, with the exact circumstances.

  \<^bold>\<open>Not modelled.\<close> MCCP2 compression (needs zlib); connection set-up and terminal mode in the client's \<^verbatim>\<open>main\<close> (system
  calls); thread scheduling; the drivers for expander chips, the \<^verbatim>\<open>gpio\<close> command, the older versions of
  the client; socket set-up in the telnet tools; of the mesh daemon under \<^verbatim>\<open>src/servald\<close>, a vendored program that the client is not linked with, everything
  but its subscriber index, its addresses, its text encodings, its error correcting codes and its packet buffer (and of that \<^verbatim>\<open>ob_slice\<close>, which makes two buffers share memory, and \<^verbatim>\<open>ob_dump\<close>).
\<close>

end
